(* ===== verification/Prelude.thy ===== *)
theory Prelude
  imports Main "HOL-Library.Word" "HOL-Library.Monad_Syntax"
begin

unbundle bit_operations_syntax

text \<open>
  Shared vocabulary of the development: bytes, machine words, bounded memory blocks with
  checked \<open>memcpy\<close>, the little-endian layout of scalars, and the arithmetic of a ring of
  bytes addressed through a power-of-two mask.
\<close>

type_synonym byte = char
type_synonym u8 = "8 word"
type_synonym u16 = "16 word"
type_synonym u32 = "32 word"
type_synonym u64 = "64 word"
type_synonym size_t = "64 word"

named_theorems mem_simps \<open>the outcome of checked block accesses\<close>
named_theorems ring_simps \<open>reading and writing a masked ring\<close>
named_theorems le_simps \<open>little-endian layout\<close>

subsection \<open>Blocks of memory\<close>

text \<open>
  A block is the list of its bytes. A copy that leaves the block is undefined behaviour and
  is the value \<open>None\<close>; every theorem that concludes \<open>Some\<close> is a memory-safety theorem.
\<close>

definition memcpy :: "byte list \<Rightarrow> nat \<Rightarrow> byte list \<Rightarrow> byte list option" where
  "memcpy dst off src =
     (if off + length src \<le> length dst
      then Some (take off dst @ src @ drop (off + length src) dst) else None)"

definition mem_read :: "byte list \<Rightarrow> nat \<Rightarrow> nat \<Rightarrow> byte list option" where
  "mem_read src off n =
     (if off + n \<le> length src then Some (take n (drop off src)) else None)"

subsection \<open>Little-endian scalars\<close>

fun le_enc :: "nat \<Rightarrow> nat \<Rightarrow> byte list" where
  "le_enc 0 x = []"
| "le_enc (Suc n) x = char_of x # le_enc n (x div 256)"

fun le_dec :: "byte list \<Rightarrow> nat" where
  "le_dec [] = 0"
| "le_dec (c # cs) = of_char c + 256 * le_dec cs"

subsection \<open>Rings\<close>

definition ring_read :: "byte list \<Rightarrow> nat \<Rightarrow> nat \<Rightarrow> nat \<Rightarrow> byte list" where
  "ring_read buf cap pos n = map (\<lambda>i. buf ! ((pos + i) mod cap)) [0..<n]"

subsection \<open>Lemmas\<close>

lemma memcpy_SomeI [mem_simps]:
  "off + length src \<le> length dst \<Longrightarrow>
   memcpy dst off src = Some (take off dst @ src @ drop (off + length src) dst)"
  by (simp add: memcpy_def)

lemma memcpy_None [mem_simps]: "length dst < off + length src \<Longrightarrow> memcpy dst off src = None"
  by (simp add: memcpy_def)

lemma memcpy_length: "memcpy dst off src = Some dst' \<Longrightarrow> length dst' = length dst"
  by (auto simp: memcpy_def split: if_splits)

lemma memcpy_nth:
  assumes "memcpy dst off src = Some dst'" and "i < length dst"
  shows "dst' ! i = (if off \<le> i \<and> i < off + length src then src ! (i - off) else dst ! i)"
  using assms by (auto simp: memcpy_def nth_append min_def split: if_splits)

lemma memcpy_take: "memcpy dst 0 src = Some dst' \<Longrightarrow> take (length src) dst' = src"
  by (auto simp: memcpy_def split: if_splits)

lemma mem_read_SomeI [mem_simps]:
  "off + n \<le> length src \<Longrightarrow> mem_read src off n = Some (take n (drop off src))"
  by (simp add: mem_read_def)

lemma mem_read_None [mem_simps]: "length src < off + n \<Longrightarrow> mem_read src off n = None"
  by (simp add: mem_read_def)

lemma mem_read_length: "mem_read src off n = Some bs \<Longrightarrow> length bs = n"
  by (auto simp: mem_read_def split: if_splits)

lemma length_le_enc [simp, le_simps]: "length (le_enc n x) = n"
  by (induction n arbitrary: x) auto

lemma le_dec_le_enc [le_simps]: "le_dec (le_enc n x) = x mod 256 ^ n"
proof (induction n arbitrary: x)
  case 0
  then show ?case by simp
next
  case (Suc n)
  then show ?case by (simp add: mod_mult2_eq)
qed

lemma le_dec_le_enc_id [le_simps]: "x < 256 ^ n \<Longrightarrow> le_dec (le_enc n x) = x"
  by (simp add: le_dec_le_enc)

lemma digit_carry: "a < 256 \<Longrightarrow> b < m \<Longrightarrow> a + 256 * b < 256 * (m :: nat)"
  by arith

lemma le_dec_bound: "le_dec bs < 256 ^ length bs"
proof (induction bs)
  case Nil
  then show ?case by simp
next
  case (Cons c cs)
  have c: "of_char c < (256 :: nat)" by simp
  from digit_carry [OF c Cons.IH] show ?case by simp
qed

lemma le_enc_le_dec: "le_enc (length bs) (le_dec bs) = bs"
proof (induction bs)
  case (Cons c cs)
  have c: "of_char c < (256 :: nat)" by simp
  then have "(of_char c + 256 * le_dec cs) div 256 = le_dec cs" by simp
  moreover have "char_of (of_char c + 256 * le_dec cs) = c"
    using c by (simp add: char_of_eq_iff take_bit_eq_mod mod_simps)
  ultimately show ?case using Cons by simp
qed simp

lemma mem_read_memcpy_below:
  assumes "memcpy dst k src = Some dst'" "off + n \<le> k"
  shows "mem_read dst' off n = mem_read dst off n"
proof -
  have l: "length dst' = length dst" using assms(1) by (rule memcpy_length)
  have k: "k + length src \<le> length dst" using assms(1) by (simp add: memcpy_def split: if_splits)
  have "take n (drop off dst') = take n (drop off dst)"
    by (rule nth_equalityI) (use assms(2) k l in \<open>auto simp: memcpy_nth [OF assms(1)]\<close>)
  then show ?thesis using l by (simp add: mem_read_def)
qed

lemma mem_read_memcpy_same:
  assumes "memcpy dst k src = Some dst'"
  shows "mem_read dst' k (length src) = Some src"
  using assms by (auto simp: memcpy_def mem_read_def split: if_splits)

lemma memcpy_append:
  "memcpy dst k (a @ b) = do { d \<leftarrow> memcpy dst k a; memcpy d (k + length a) b }"
  by (cases a) (auto simp: memcpy_def min_def ac_simps)

lemma memcpy_Nil [mem_simps]: "k \<le> length dst \<Longrightarrow> memcpy dst k [] = Some dst"
  by (simp add: memcpy_def)

lemma mem_read_mid [mem_simps]:
  "length pre = k \<Longrightarrow> length x = n \<Longrightarrow> mem_read (pre @ x @ post) k n = Some x"
  by (simp add: mem_read_def)

lemma mem_read_mono: "mem_read data k n = Some x \<Longrightarrow> mem_read (data @ rest) k n = Some x"
  by (auto simp: mem_read_def split: if_splits)

end
