(* ===== verification/Ring_Buffer.thy ===== *)
theory Ring_Buffer
  imports Prelude
begin

unbundle bit_operations_syntax

text \<open>
  The storage discipline both queues share: a power-of-two block of bytes addressed by
  free-running 64-bit indices through a mask. \<open>ring_store\<close> and \<open>ring_load\<close> are the copy-in
  and copy-out blocks of the queues (one \<open>memcpy\<close>, or two when the data wraps around the
  end of the block); the lemmas relate them to a ring indexed modulo its capacity.
\<close>

definition ring_store :: "byte list \<Rightarrow> size_t \<Rightarrow> size_t \<Rightarrow> byte list \<Rightarrow> byte list option" where
  "ring_store buf m tail data =
     (let data_size = of_nat (length data) :: size_t;
          tail_pos = tail AND m;
          space_to_end = (m + 1) - tail_pos
      in if data_size \<le> space_to_end then memcpy buf (unat tail_pos) data
         else do {
           buf1 \<leftarrow> memcpy buf (unat tail_pos) (take (unat space_to_end) data);
           memcpy buf1 0 (drop (unat space_to_end) data)
         })"

definition ring_load ::
  "byte list \<Rightarrow> size_t \<Rightarrow> size_t \<Rightarrow> byte list \<Rightarrow> size_t \<Rightarrow> byte list option" where
  "ring_load buf m head dst data_size =
     (let head_pos = head AND m;
          bytes_to_end = (m + 1) - head_pos
      in if data_size \<le> bytes_to_end then do {
           bs \<leftarrow> mem_read buf (unat head_pos) (unat data_size);
           memcpy dst 0 bs
         } else do {
           b1 \<leftarrow> mem_read buf (unat head_pos) (unat bytes_to_end);
           d1 \<leftarrow> memcpy dst 0 b1;
           b2 \<leftarrow> mem_read buf 0 (unat (data_size - bytes_to_end));
           memcpy d1 (unat bytes_to_end) b2
         })"

definition ring_capacity :: "size_t \<Rightarrow> bool" where
  "ring_capacity c \<longleftrightarrow> (\<exists>k \<in> set [1..<64]. c = 2 ^ k)"

text \<open>The loops of the bulk operations, which both queues write in the same way: the sum of the
  sizes, then one copy per block at a running offset from the index the operation starts at.\<close>

fun total_size :: "size_t list \<Rightarrow> size_t \<Rightarrow> size_t" where
  "total_size [] total_sz = total_sz"
| "total_size (n # ns) total_sz = total_size ns (total_sz + n)"

fun store_all :: "byte list \<Rightarrow> size_t \<Rightarrow> size_t \<Rightarrow> size_t \<Rightarrow> byte list list \<Rightarrow> byte list option" where
  "store_all buf m tail offset [] = Some buf"
| "store_all buf m tail offset (d # ds) = do {
     buf' \<leftarrow> ring_store buf m (tail + offset) d;
     store_all buf' m tail (offset + of_nat (length d)) ds
   }"

fun load_all :: "byte list \<Rightarrow> size_t \<Rightarrow> size_t \<Rightarrow> size_t \<Rightarrow> (byte list \<times> size_t) list \<Rightarrow>
    byte list list option" where
  "load_all buf m head offset [] = Some []"
| "load_all buf m head offset ((dst, n) # ds) = do {
     dst' \<leftarrow> ring_load buf m (head + offset) dst n;
     dsts \<leftarrow> load_all buf m head (offset + n) ds;
     Some (dst' # dsts)
   }"

lemma unat_pow2 [ring_simps]: "k < 64 \<Longrightarrow> unat ((2 :: size_t) ^ k) = 2 ^ k"
proof -
  assume "k < 64"
  then have "(2 :: nat) ^ k < 2 ^ 64" by (intro power_strict_increasing) auto
  then have "unat (of_nat (2 ^ k) :: size_t) = 2 ^ k" by (simp only: unat_of_nat) simp
  then show ?thesis by simp
qed

lemma unat_and_mask [ring_simps]:
  "k < 64 \<Longrightarrow> unat ((x :: size_t) AND (2 ^ k - 1)) = unat x mod 2 ^ k"
proof -
  have "x AND (2 ^ k - 1) = take_bit k x"
    by (simp add: take_bit_eq_mask mask_eq_exp_minus_1)
  moreover assume "k < 64"
  ultimately show ?thesis by (simp add: take_bit_eq_mod unat_mod unat_pow2)
qed

lemma unat_to_end [ring_simps]:
  assumes "k < 64"
  shows "unat ((2 :: size_t) ^ k - (x AND (2 ^ k - 1))) = 2 ^ k - unat x mod 2 ^ k"
proof -
  have "x AND (2 ^ k - 1) \<le> (2 :: size_t) ^ k"
    using assms by (simp add: word_le_nat_alt ring_simps less_imp_le)
  then show ?thesis using assms by (simp add: unat_sub ring_simps)
qed

lemma ring_capacityE:
  assumes "ring_capacity c"
  obtains k where "1 \<le> k" "k < 64" "c = 2 ^ k" "unat c = 2 ^ k"
  using assms by (auto simp: ring_capacity_def ring_simps)

lemma pow2_dvd_64 [ring_simps]: "k < 64 \<Longrightarrow> (2 :: nat) ^ k dvd 2 ^ 64"
  by (rule le_imp_power_dvd) simp

lemma unat_plus_mod_cap:
  "k < 64 \<Longrightarrow> unat ((x :: size_t) + y) mod 2 ^ k = (unat x + unat y) mod 2 ^ k"
  by (simp add: unat_word_ariths mod_mod_cancel [OF pow2_dvd_64, simplified])

lemma length_ring_read [simp]: "length (ring_read buf c p n) = n"
  by (simp add: ring_read_def)

lemma ring_read_0 [simp]: "ring_read buf c p 0 = []"
  by (simp add: ring_read_def)

lemma nth_ring_read: "i < n \<Longrightarrow> ring_read buf c p n ! i = buf ! ((p + i) mod c)"
  by (simp add: ring_read_def)

lemma ring_read_cong_pos:
  "p mod c = p' mod c \<Longrightarrow> ring_read buf c p n = ring_read buf c p' n"
  by (rule nth_equalityI) (auto simp: nth_ring_read intro: arg_cong mod_add_cong)

lemma ring_read_split:
  "m \<le> n \<Longrightarrow> ring_read buf c p n = ring_read buf c p m @ ring_read buf c (p + m) (n - m)"
  by (rule nth_equalityI) (auto simp: nth_ring_read nth_append add.assoc)

lemma ring_read_linear:
  assumes "p < c" "p + n \<le> c" "c \<le> length buf"
  shows "ring_read buf c p n = take n (drop p buf)"
  using assms by (intro nth_equalityI) (auto simp: nth_ring_read)

lemma ring_read_wrap:
  assumes "p < c" "c < p + n" "n \<le> c" "c \<le> length buf"
  shows "ring_read buf c p n = take (c - p) (drop p buf) @ take (n + p - c) buf"
proof -
  have "ring_read buf c p n = ring_read buf c p (c - p) @ ring_read buf c (p + (c - p)) (n - (c - p))"
    using assms by (intro ring_read_split) simp
  also have "ring_read buf c p (c - p) = take (c - p) (drop p buf)"
    using assms by (intro ring_read_linear) auto
  also have "ring_read buf c (p + (c - p)) (n - (c - p)) = ring_read buf c 0 (n - (c - p))"
    using assms by (intro ring_read_cong_pos) simp
  also have "\<dots> = take (n + p - c) buf"
    using assms by (subst ring_read_linear) auto
  finally show ?thesis .
qed

lemma ring_load_eq:
  assumes k: "k < 64" and buf: "2 ^ k \<le> length buf" and n: "unat n \<le> 2 ^ k"
  shows "ring_load buf (2 ^ k - 1) head dst n =
         memcpy dst 0 (ring_read buf (2 ^ k) (unat head) (unat n))"
proof -
  let ?C = "2 ^ k :: nat" and ?p = "unat head mod 2 ^ k"
  have p: "?p < ?C" by simp
  have rr: "ring_read buf ?C (unat head) (unat n) = ring_read buf ?C ?p (unat n)"
    by (rule ring_read_cong_pos) simp
  show ?thesis
  proof (cases "unat n \<le> ?C - ?p")
    case True
    then have fits: "?p + unat n \<le> ?C" using p by linarith
    with True show ?thesis using k buf p
      by (simp add: ring_load_def Let_def word_le_nat_alt ring_simps rr mem_read_def
            ring_read_linear)
  next
    case False
    then have "unat (n - (2 ^ k - (head AND (2 ^ k - 1)))) = unat n - (?C - ?p)"
      using k by (subst unat_sub) (auto simp: word_le_nat_alt ring_simps)
    moreover have "unat n + ?p - ?C \<le> length buf" "?C - ?p \<le> unat n"
      using False p buf n by linarith+
    ultimately show ?thesis using False k buf p n
      by (simp add: ring_load_def Let_def word_le_nat_alt ring_simps rr
            ring_read_wrap memcpy_def mem_read_def)
  qed
qed

text \<open>
  \<open>stored_at buf buf' c t d\<close>: the block \<open>buf'\<close> is \<open>buf\<close> with the bytes \<open>d\<close> laid out from
  ring position \<open>t\<close> on, and nothing else changed.
\<close>

definition stored_at :: "byte list \<Rightarrow> byte list \<Rightarrow> nat \<Rightarrow> nat \<Rightarrow> byte list \<Rightarrow> bool" where
  "stored_at buf buf' c t d \<longleftrightarrow> length buf' = length buf \<and>
     (\<forall>i < length d. buf' ! ((t + i) mod c) = d ! i) \<and>
     (\<forall>j < length buf. (\<forall>i < length d. j \<noteq> (t + i) mod c) \<longrightarrow> buf' ! j = buf ! j)"

lemma mod_wrap: "p < c \<Longrightarrow> \<not> p + i < c \<Longrightarrow> i < c \<Longrightarrow> (p + i) mod c = p + i - (c :: nat)"
  by (subst le_mod_geq) auto

lemma ring_index_inj:
  assumes "(t + i) mod c = (t + j) mod (c :: nat)" "i < c" "j < c"
  shows "i = j"
proof (cases "i \<le> j")
  case True
  then have "c dvd j - i" using assms(1) mod_eq_dvd_iff_nat [of "t + i" "t + j" c] by simp
  then show ?thesis using True assms(3) nat_dvd_not_less [of "j - i" c] by (cases "i = j") auto
next
  case False
  then have "c dvd i - j" using assms(1) mod_eq_dvd_iff_nat [of "t + j" "t + i" c] by simp
  then show ?thesis using False assms(2) nat_dvd_not_less [of "i - j" c] by (cases "i = j") auto
qed

lemma stored_at_mod: "stored_at buf buf' c (t mod c) d = stored_at buf buf' c t d"
  by (simp add: stored_at_def mod_simps)

lemma stored_linear:
  assumes "p + length d \<le> c" "c \<le> length buf"
  shows "stored_at buf (take p buf @ d @ drop (p + length d) buf) c p d"
proof -
  let ?b = "take p buf @ d @ drop (p + length d) buf"
  have "?b ! j = buf ! j" if "j < length buf" "\<forall>i < length d. j \<noteq> (p + i) mod c" for j
  proof -
    have "\<not> (p \<le> j \<and> j < p + length d)" using that(2) assms(1)
      by (auto dest: spec [of _ "j - p"])
    then show ?thesis using that(1) assms by (auto simp: nth_append)
  qed
  then show ?thesis using assms by (auto simp: stored_at_def nth_append)
qed

lemma stored_wrap:
  assumes p: "p < c" "c < p + length d" and d: "length d \<le> c" and buf: "c \<le> length buf"
  shows "stored_at buf (drop (c - p) d @
           drop (length d - (c - p)) (take p buf @ take (c - p) d @ drop c buf)) c p d"
    (is "stored_at _ ?b _ _ _")
proof -
  have "?b ! ((p + i) mod c) = d ! i" if "i < length d" for i
    using that assms mod_wrap [of p c i] by (cases "p + i < c") (auto simp: nth_append)
  moreover have "?b ! j = buf ! j" if "j < length buf" "\<forall>i < length d. j \<noteq> (p + i) mod c" for j
  proof -
    have "length d - (c - p) \<le> j"
    proof (rule ccontr)
      assume "\<not> length d - (c - p) \<le> j"
      then have "j + (c - p) < length d" by linarith
      then show False using that(2) mod_wrap [of p c "j + (c - p)"] p d by auto
    qed
    moreover have "\<not> (p \<le> j \<and> j < c)"
    proof
      assume "p \<le> j \<and> j < c"
      moreover from this have "j - p < length d" using p by linarith
      ultimately show False using that(2) by (auto dest: spec [of _ "j - p"])
    qed
    ultimately have "length d - (c - p) \<le> j" "\<not> (p \<le> j \<and> j < c)" by auto
    then show ?thesis using that(1) p d buf by (auto simp: nth_append)
  qed
  ultimately show ?thesis using assms by (auto simp: stored_at_def)
qed

lemma ring_store_spec:
  assumes k: "k < 64" and buf: "2 ^ k \<le> length buf" and d: "length d \<le> 2 ^ k"
  shows "\<exists>buf'. ring_store buf (2 ^ k - 1) tail d = Some buf' \<and>
           stored_at buf buf' (2 ^ k) (unat tail) d"
proof -
  let ?C = "2 ^ k :: nat" and ?p = "unat tail mod 2 ^ k"
  have p: "?p < ?C" by simp
  have "(2 :: nat) ^ k < 2 ^ 64" using k by (intro power_strict_increasing) auto
  with d have sz: "unat (of_nat (length d) :: size_t) = length d"
    by (simp add: unat_of_nat)
  show ?thesis
  proof (cases "length d \<le> ?C - ?p")
    case True
    then have fits: "?p + length d \<le> ?C" using p by linarith
    then have "ring_store buf (2 ^ k - 1) tail d = Some (take ?p buf @ d @ drop (?p + length d) buf)"
      using True k buf sz by (simp add: ring_store_def Let_def word_le_nat_alt ring_simps memcpy_def)
    then show ?thesis using stored_linear [OF fits buf] stored_at_mod by blast
  next
    case False
    then have w: "?C < ?p + length d" "?C - ?p \<le> length d" using p by linarith+
    moreover have "?p \<le> length buf" "length d + ?p - ?C \<le> ?p" using p buf d by linarith+
    ultimately have "ring_store buf (2 ^ k - 1) tail d = Some (drop (?C - ?p) d @
        drop (length d - (?C - ?p)) (take ?p buf @ take (?C - ?p) d @ drop ?C buf))"
      using False k sz buf d
      by (simp add: ring_store_def Let_def word_le_nat_alt ring_simps memcpy_def)
    then show ?thesis using stored_wrap [OF p w(1) d buf] stored_at_mod by blast
  qed
qed

lemma ring_read_stored:
  assumes st: "stored_at buf buf' c (h + n) d" and fits: "n + length d \<le> c" "c \<le> length buf"
  shows "ring_read buf' c h (n + length d) = ring_read buf c h n @ d"
proof (rule nth_equalityI)
  fix i assume "i < length (ring_read buf' c h (n + length d))"
  then have i: "i < n + length d" by simp
  show "ring_read buf' c h (n + length d) ! i = (ring_read buf c h n @ d) ! i"
  proof (cases "i < n")
    case True
    have "(h + i) mod c < length buf" using fits i by (auto intro: less_le_trans [OF mod_less_divisor])
    moreover have "(h + i) mod c \<noteq> (h + n + j) mod c" if "j < length d" for j
      using ring_index_inj [of h i c "n + j"] that True fits by (auto simp: add.assoc)
    ultimately show ?thesis using st True i by (auto simp: stored_at_def nth_ring_read nth_append)
  next
    case False
    then have "i - n < length d" and "h + i = h + n + (i - n)" using i by auto
    moreover have "buf' ! ((h + n + (i - n)) mod c) = d ! (i - n)"
      using st calculation(1) by (simp add: stored_at_def)
    ultimately show ?thesis using False i by (simp add: nth_ring_read nth_append)
  qed
qed simp

lemma stored_at_append:
  assumes "stored_at b b1 c t d" "stored_at b1 b2 c (t + length d) e" "length d + length e \<le> c"
    and c: "c \<le> length b"
  shows "stored_at b b2 c t (d @ e)"
proof -
  have "b2 ! ((t + i) mod c) = (d @ e) ! i" if i: "i < length d + length e" for i
  proof (cases "i < length d")
    case True
    have "(t + i) mod c < length b" using c i assms(3)
      by (auto intro: less_le_trans [OF mod_less_divisor])
    moreover have "(t + i) mod c \<noteq> (t + length d + j) mod c" if "j < length e" for j
      using ring_index_inj [of t i c "length d + j"] that True assms(3) by (auto simp: add.assoc)
    ultimately show ?thesis using assms(1,2) True by (auto simp: stored_at_def nth_append)
  next
    case False
    then have "t + i = t + length d + (i - length d)" "i - length d < length e" using i by auto
    moreover have "b2 ! ((t + length d + (i - length d)) mod c) = e ! (i - length d)"
      using assms(2) calculation(2) by (simp add: stored_at_def)
    ultimately show ?thesis using False by (simp add: nth_append)
  qed
  moreover have "b2 ! j = b ! j"
    if "j < length b" "\<forall>i < length d + length e. j \<noteq> (t + i) mod c" for j
  proof -
    have "\<forall>i < length d. j \<noteq> (t + i) mod c" using that(2) by auto
    moreover have "\<forall>i < length e. j \<noteq> (t + length d + i) mod c"
      using that(2) by (auto simp: add.assoc)
    ultimately show ?thesis using assms(1,2) that(1) by (auto simp: stored_at_def)
  qed
  ultimately show ?thesis using assms(1,2) by (auto simp: stored_at_def)
qed

lemma stored_at_Nil [simp]: "stored_at b b c t []"
  by (simp add: stored_at_def)

lemma stored_at_unique:
  assumes "stored_at b b1 c t d" "stored_at b b2 c t d"
  shows "b1 = b2"
proof (rule nth_equalityI)
  show "length b1 = length b2" using assms by (simp add: stored_at_def)
  fix j assume "j < length b1"
  then have j: "j < length b" using assms by (simp add: stored_at_def)
  show "b1 ! j = b2 ! j"
  proof (cases "\<exists>i < length d. j = (t + i) mod c")
    case True
    then show ?thesis using assms by (auto simp: stored_at_def)
  next
    case False
    then show ?thesis using assms j by (simp add: stored_at_def)
  qed
qed

lemma ring_capacity_bound: "ring_capacity c \<Longrightarrow> 2 \<le> unat c \<and> unat c \<le> 2 ^ 63"
proof (erule ring_capacityE)
  fix k assume "1 \<le> k" "k < 64" "unat c = 2 ^ k"
  then show ?thesis using power_increasing [of 1 k "2 :: nat"] power_increasing [of k 63 "2 :: nat"] by simp
qed

lemma ring_read_drop: "m \<le> n \<Longrightarrow> ring_read buf c (p + m) (n - m) = drop m (ring_read buf c p n)"
  by (simp add: ring_read_split [of m n])

lemma ring_read_prefix: "m \<le> n \<Longrightarrow> ring_read buf c p m = take m (ring_read buf c p n)"
  by (simp add: ring_read_split [of m n])

subsection \<open>Arithmetic of free-running indices\<close>

lemma free_less_iff:
  assumes "unat (u :: size_t) \<le> unat c"
  shows "c - u < n \<longleftrightarrow> unat c < unat u + unat n"
proof -
  have "unat (c - u) = unat c - unat u" using assms by (simp add: unat_sub word_le_nat_alt)
  then show ?thesis using assms by (auto simp: word_less_nat_alt)
qed

lemma unat_diff_shift:
  assumes "unat (t - h :: size_t) + unat n < 2 ^ 64"
  shows "unat (t + n - h) = unat (t - h) + unat n"
proof -
  have eq: "t + n - h = (t - h) + n" by simp
  show ?thesis unfolding eq using assms by (simp only: unat_word_ariths) simp
qed

lemma unat_diff_drop:
  assumes "unat n \<le> unat (t - h :: size_t)"
  shows "unat (t - (h + n)) = unat (t - h) - unat n"
proof -
  have eq: "t - (h + n) = (t - h) - n" by simp
  show ?thesis unfolding eq using assms by (intro unat_sub) (simp add: word_le_nat_alt)
qed

lemma unat_of_length: "length d < 2 ^ 64 \<Longrightarrow> unat (of_nat (length d) :: size_t) = length d"
  by (simp add: unat_of_nat)

lemma of_length_eq_0: "length d < 2 ^ 64 \<Longrightarrow> (of_nat (length d) :: size_t) = 0 \<longleftrightarrow> d = []"
  using unat_of_length [of d] by (simp add: unat_eq_zero [symmetric])

subsection \<open>Bulk copies\<close>

lemma total_size_lengths:
  "total_size (map (\<lambda>d. of_nat (length d)) ds) acc = acc + of_nat (length (concat ds))"
  by (induction ds arbitrary: acc) (auto simp: algebra_simps)

lemma store_all_spec:
  assumes "k < 64" "2 ^ k \<le> length buf" "length (concat ds) \<le> 2 ^ k"
  shows "\<exists>buf'. store_all buf (2 ^ k - 1) t off ds = Some buf' \<and>
           stored_at buf buf' (2 ^ k) (unat (t + off)) (concat ds)"
  using assms
proof (induction ds arbitrary: buf off)
  case Nil
  then show ?case by simp
next
  case (Cons d ds)
  then have d: "length d \<le> 2 ^ k" and ds: "length (concat ds) \<le> 2 ^ k" by auto
  obtain b1 where b1: "ring_store buf (2 ^ k - 1) (t + off) d = Some b1"
    "stored_at buf b1 (2 ^ k) (unat (t + off)) d"
    using ring_store_spec [OF Cons.prems(1,2) d] by blast
  then have len: "2 ^ k \<le> length b1" using Cons.prems(2) by (simp add: stored_at_def)
  from Cons.IH [OF Cons.prems(1) len ds, of "off + of_nat (length d)"] obtain b2 where
    b2: "store_all b1 (2 ^ k - 1) t (off + of_nat (length d)) ds = Some b2"
    "stored_at b1 b2 (2 ^ k) (unat (t + (off + of_nat (length d)))) (concat ds)" by blast
  have "(2 :: nat) ^ k < 2 ^ 64" using Cons.prems(1) by (intro power_strict_increasing) auto
  then have "unat (of_nat (length d) :: size_t) = length d" using d by (intro unat_of_length) simp
  then have "unat (t + (off + of_nat (length d))) mod 2 ^ k = (unat (t + off) + length d) mod 2 ^ k"
    using unat_plus_mod_cap [OF Cons.prems(1), of "t + off" "of_nat (length d)"] by (simp add: add.assoc)
  then have "stored_at b1 b2 (2 ^ k) (unat (t + off) + length d) (concat ds)"
    using b2(2) stored_at_mod by metis
  from stored_at_append [OF b1(2) this] Cons.prems b1(1) b2(1) show ?case by simp
qed

lemma total_size_nat:
  assumes "unat acc + sum_list (map unat ns) < 2 ^ 64"
  shows "unat (total_size ns acc) = unat acc + sum_list (map unat ns)"
  using assms
proof (induction ns arbitrary: acc)
  case (Cons n ns)
  then have "unat (acc + n) = unat acc + unat n" by (simp add: unat_word_ariths)
  with Cons.IH [of "acc + n"] Cons.prems show ?case by simp
qed simp

lemma load_all_spec:
  assumes "k < 64" "2 ^ k \<le> length buf" "sum_list (map (\<lambda>x. unat (snd x)) ds) \<le> 2 ^ k"
    and "list_all (\<lambda>(dst, n). unat n \<le> length dst) ds"
  shows "\<exists>outs. load_all buf (2 ^ k - 1) h off ds = Some outs \<and> length outs = length ds \<and>
           concat (map2 (\<lambda>(dst, n) out. take (unat n) out) ds outs) =
             ring_read buf (2 ^ k) (unat (h + off)) (sum_list (map (\<lambda>x. unat (snd x)) ds))"
  using assms
proof (induction ds arbitrary: off)
  case Nil
  then show ?case by simp
next
  case (Cons x ds)
  obtain dst n where x: "x = (dst, n)" by fastforce
  let ?S = "sum_list (map (\<lambda>x. unat (snd x)) ds)"
  have n: "unat n \<le> 2 ^ k" "unat n \<le> length dst" using Cons.prems x by auto
  from n(2) have "ring_load buf (2 ^ k - 1) (h + off) dst n =
      Some (ring_read buf (2 ^ k) (unat (h + off)) (unat n) @ drop (unat n) dst)"
    using ring_load_eq [OF Cons.prems(1,2) n(1)] by (simp add: memcpy_def)
  moreover from Cons.IH [of "off + n"] Cons.prems x obtain outs where
    "load_all buf (2 ^ k - 1) h (off + n) ds = Some outs" "length outs = length ds"
    "concat (map2 (\<lambda>(dst, n) out. take (unat n) out) ds outs) =
       ring_read buf (2 ^ k) (unat (h + (off + n))) ?S" by auto
  moreover have "ring_read buf (2 ^ k) (unat (h + (off + n))) ?S =
      ring_read buf (2 ^ k) (unat (h + off) + unat n) ?S"
    using unat_plus_mod_cap [OF Cons.prems(1), of "h + off" n]
    by (intro ring_read_cong_pos) (simp add: add.assoc)
  ultimately show ?case using x
    by (simp add: ring_read_split [of "unat n" "unat n + ?S"])
qed

subsection \<open>Indices that count without bound\<close>

lemma unat_of_nat_diff:
  assumes "a \<le> b" "b - a < 2 ^ 64"
  shows "unat (of_nat b - of_nat a :: size_t) = b - a"
proof -
  have "(of_nat b - of_nat a :: size_t) = of_nat (b - a)" using assms(1) by (simp add: of_nat_diff)
  then show ?thesis using assms(2) by (simp add: unat_of_nat del: of_nat_diff)
qed

lemma of_nat_word_inj:
  assumes "(of_nat a :: size_t) = of_nat b" "a \<le> b" "b - a < 2 ^ 64"
  shows "a = b"
  using unat_of_nat_diff [OF assms(2,3)] assms(1,2) by simp

lemma unat_of_nat_mod_cap: "k < 64 \<Longrightarrow> unat (of_nat a :: size_t) mod 2 ^ k = a mod 2 ^ k"
  using mod_mod_cancel [OF pow2_dvd_64, of k a] by (simp add: unat_of_nat)

end
