(* ===== verification/Byte_Queue.thy ===== *)
theory Byte_Queue
  imports Ring_Buffer
begin

text \<open>
  What a byte queue promises its clients, independently of how it stores the bytes. A queue
  is a bounded sequence of bytes: \<open>contents\<close>. Producers append whole blocks or get the
  overflow status, consumers take whole blocks or get the underflow status, and no operation
  leaves its memory. The interface is the locale \<open>byte_queue\<close>; the client lemmas below are
  proved once from its laws and hold for every queue that satisfies them.
\<close>

datatype queue_op = Put "byte list" | Take nat

fun queue_op_ok :: "queue_op \<Rightarrow> bool" where
  "queue_op_ok (Put d) \<longleftrightarrow> d \<noteq> [] \<and> length d < 2 ^ 64"
| "queue_op_ok (Take n) \<longleftrightarrow> 0 < n \<and> n < 2 ^ 64"

text \<open>
  A client that issues a sequence of operations: the bytes the queue accepted, the bytes it
  delivered (each into a fresh block of the requested size) and the queue it leaves.
\<close>

fun queue_run ::
  "('q \<Rightarrow> byte list \<Rightarrow> ('s \<times> 'q) option) \<Rightarrow>
   ('q \<Rightarrow> byte list \<Rightarrow> size_t \<Rightarrow> ('s \<times> 'q \<times> byte list) option) \<Rightarrow> 's \<Rightarrow>
   'q \<Rightarrow> queue_op list \<Rightarrow> (byte list \<times> byte list \<times> 'q) option" where
  "queue_run enq deq ok q [] = Some ([], [], q)"
| "queue_run enq deq ok q (Put d # ops) = do {
     (st, q1) \<leftarrow> enq q d;
     (acc, del, q2) \<leftarrow> queue_run enq deq ok q1 ops;
     Some ((if st = ok then d else []) @ acc, del, q2)
   }"
| "queue_run enq deq ok q (Take n # ops) = do {
     (st, q1, out) \<leftarrow> deq q (replicate n (CHR 0x00)) (of_nat n);
     (acc, del, q2) \<leftarrow> queue_run enq deq ok q1 ops;
     Some (acc, (if st = ok then out else []) @ del, q2)
   }"

locale byte_queue =
  fixes enq :: "'q \<Rightarrow> byte list \<Rightarrow> ('s \<times> 'q) option"
    and deq :: "'q \<Rightarrow> byte list \<Rightarrow> size_t \<Rightarrow> ('s \<times> 'q \<times> byte list) option"
    and peek :: "'q \<Rightarrow> byte list \<Rightarrow> size_t \<Rightarrow> ('s \<times> byte list) option"
    and ok underflow overflow :: 's
    and invar :: "'q \<Rightarrow> bool"
    and contents :: "'q \<Rightarrow> byte list"
    and cap :: "'q \<Rightarrow> nat"
  assumes status_distinct: "ok \<noteq> underflow" "ok \<noteq> overflow"
    and contents_bound: "invar q \<Longrightarrow> length (contents q) \<le> cap q \<and> cap q < 2 ^ 64"
    and enq_fits: "invar q \<Longrightarrow> d \<noteq> [] \<Longrightarrow> length (contents q) + length d \<le> cap q \<Longrightarrow>
      \<exists>q'. enq q d = Some (ok, q') \<and> invar q' \<and> contents q' = contents q @ d \<and> cap q' = cap q"
    and enq_full: "invar q \<Longrightarrow> length d < 2 ^ 64 \<Longrightarrow> cap q < length (contents q) + length d \<Longrightarrow>
      \<exists>q'. enq q d = Some (overflow, q') \<and> invar q' \<and> contents q' = contents q \<and> cap q' = cap q"
    and deq_avail: "invar q \<Longrightarrow> n \<noteq> 0 \<Longrightarrow> unat n \<le> length (contents q) \<Longrightarrow> unat n \<le> length dst \<Longrightarrow>
      \<exists>q'. deq q dst n = Some (ok, q', take (unat n) (contents q) @ drop (unat n) dst) \<and>
           invar q' \<and> contents q' = drop (unat n) (contents q) \<and> cap q' = cap q"
    and deq_overrun: "invar q \<Longrightarrow> n \<noteq> 0 \<Longrightarrow> unat n \<le> length (contents q) \<Longrightarrow> length dst < unat n \<Longrightarrow>
      deq q dst n = None"
    and deq_short: "invar q \<Longrightarrow> length (contents q) < unat n \<Longrightarrow>
      \<exists>q'. deq q dst n = Some (underflow, q', dst) \<and> invar q' \<and> contents q' = contents q \<and> cap q' = cap q"
    and peek_avail: "invar q \<Longrightarrow> n \<noteq> 0 \<Longrightarrow> unat n \<le> length (contents q) \<Longrightarrow> unat n \<le> length dst \<Longrightarrow>
      peek q dst n = Some (ok, take (unat n) (contents q) @ drop (unat n) dst)"
    and peek_short: "invar q \<Longrightarrow> length (contents q) < unat n \<Longrightarrow>
      peek q dst n = Some (underflow, dst)"
begin

lemma enq_total:
  assumes "invar q" "d \<noteq> []" "length d < 2 ^ 64"
  shows "\<exists>st q'. enq q d = Some (st, q') \<and> invar q' \<and> cap q' = cap q \<and>
           contents q' = contents q @ (if st = ok then d else []) \<and>
           (st = ok \<longleftrightarrow> length (contents q) + length d \<le> cap q)"
proof (cases "length (contents q) + length d \<le> cap q")
  case True
  with enq_fits [OF assms(1,2)] show ?thesis by auto
next
  case False
  with enq_full [OF assms(1,3)] status_distinct show ?thesis by fastforce
qed

lemma deq_total:
  assumes "invar q" "n \<noteq> 0" "unat n \<le> length dst"
  shows "\<exists>st q' dst'. deq q dst n = Some (st, q', dst') \<and> invar q' \<and> cap q' = cap q \<and>
           contents q = (if st = ok then take (unat n) dst' else []) @ contents q' \<and>
           (st = ok \<longleftrightarrow> unat n \<le> length (contents q))"
proof (cases "unat n \<le> length (contents q)")
  case True
  from deq_avail [OF assms(1,2) True assms(3)] True show ?thesis by auto
next
  case False
  then have "length (contents q) < unat n" by simp
  from deq_short [OF assms(1) this] obtain q' where
    "deq q dst n = Some (underflow, q', dst)" "invar q'" "contents q' = contents q" "cap q' = cap q"
    by blast
  with False status_distinct show ?thesis by auto
qed

lemma deq_fresh:
  assumes "invar q" "0 < n" "n < 2 ^ 64"
  shows "\<exists>st q' out. deq q (replicate n (CHR 0x00)) (of_nat n) = Some (st, q', out) \<and> invar q' \<and>
           cap q' = cap q \<and> contents q = (if st = ok then out else []) @ contents q'"
proof -
  have n: "unat (of_nat n :: size_t) = n" using assms(3) by (simp add: unat_of_nat)
  have nz: "(of_nat n :: size_t) \<noteq> 0" using n assms(2) by (metis less_irrefl unat_0)
  show ?thesis
  proof (cases "n \<le> length (contents q)")
    case True
    then show ?thesis using deq_avail [OF assms(1) nz, of "replicate n (CHR 0x00)"] n by auto
  next
    case False
    then have "length (contents q) < unat (of_nat n :: size_t)" using n by simp
    from deq_short [OF assms(1) this] obtain q' where
      "deq q (replicate n (CHR 0x00)) (of_nat n) = Some (underflow, q', replicate n (CHR 0x00))"
      "invar q'" "contents q' = contents q" "cap q' = cap q"
      by blast
    with status_distinct show ?thesis by auto
  qed
qed

text \<open>Bytes are neither lost, duplicated, altered nor reordered, whatever the client does.\<close>

lemma queue_run_fifo:
  assumes "invar q" "list_all queue_op_ok ops"
  shows "\<exists>acc del q'. queue_run enq deq ok q ops = Some (acc, del, q') \<and> invar q' \<and>
           cap q' = cap q \<and> contents q @ acc = del @ contents q'"
  using assms
proof (induction ops arbitrary: q)
  case Nil
  then show ?case by simp
next
  case (Cons op ops)
  show ?case
  proof (cases op)
    case (Put d)
    then obtain st q1 where "enq q d = Some (st, q1)" "invar q1" "cap q1 = cap q"
      "contents q1 = contents q @ (if st = ok then d else [])"
      using enq_total [of q d] Cons.prems by auto
    moreover from Cons.IH [of q1] this(2) Cons.prems obtain acc del q' where
      "queue_run enq deq ok q1 ops = Some (acc, del, q')" "invar q'" "cap q' = cap q1"
      "contents q1 @ acc = del @ contents q'" by auto
    ultimately show ?thesis using Put by auto
  next
    case (Take n)
    then obtain st q1 out where
      "deq q (replicate n (CHR 0x00)) (of_nat n) = Some (st, q1, out)" "invar q1" "cap q1 = cap q"
      "contents q = (if st = ok then out else []) @ contents q1"
      using deq_fresh [of q n] Cons.prems by auto
    moreover from Cons.IH [of q1] this(2) Cons.prems obtain acc del q' where
      "queue_run enq deq ok q1 ops = Some (acc, del, q')" "invar q'" "cap q' = cap q1"
      "contents q1 @ acc = del @ contents q'" by auto
    ultimately show ?thesis using Take by auto
  qed
qed

end

end
