(* ===== verification/Memory_Util.thy ===== *)
theory Memory_Util
  imports Ring_Buffer
begin

unbundle bit_operations_syntax

text \<open>
  Allocation and sizing of queue storage: \<^verbatim>\<open>src/src/include/femtolog/core/base/memory_util.h\<close> and
  the capacity rounding \<^verbatim>\<open>next_power_of_2\<close> of the queue headers. The allocator is a parameter
  of the model; \<open>memalign_contract\<close> is what POSIX documents of it.
\<close>

definition kCacheSize :: size_t where
  "kCacheSize = 64"

text \<open>\<^verbatim>\<open>aligned_alloc_wrapper\<close>: the allocator is \<^verbatim>\<open>posix_memalign\<close>, a return code and a block.\<close>

type_synonym memalign = "size_t \<Rightarrow> size_t \<Rightarrow> int \<times> byte list"

definition aligned_alloc_wrapper :: "memalign \<Rightarrow> size_t \<Rightarrow> size_t \<Rightarrow> byte list option" where
  "aligned_alloc_wrapper pm alignment sz =
     (let (rc, ptr) = pm alignment sz in if rc \<noteq> 0 then None else Some ptr)"

definition memalign_contract :: "memalign \<Rightarrow> bool" where
  "memalign_contract pm \<longleftrightarrow> (\<forall>a s b. pm a s = (0, b) \<longrightarrow> length b = unat s)"

definition zero_memalign :: memalign where
  "zero_memalign alignment sz = (0, replicate (unat sz) (CHR 0x00))"

lemma zero_memalign_contract: "memalign_contract zero_memalign"
  by (simp add: memalign_contract_def zero_memalign_def)

text \<open>\<^verbatim>\<open>__builtin_clzll\<close> on a non-zero argument.\<close>

fun clz_from :: "nat \<Rightarrow> u64 \<Rightarrow> nat" where
  "clz_from 0 x = 0"
| "clz_from (Suc i) x = (if bit x i then 0 else Suc (clz_from i x))"

definition clzll :: "u64 \<Rightarrow> nat" where
  "clzll x = clz_from 64 x"

text \<open>A shift by the width of the type or more is undefined.\<close>

definition next_power_of_2 :: "size_t \<Rightarrow> size_t option" where
  "next_power_of_2 n =
     (if n \<le> 1 then Some 2
      else if n AND (n - 1) = 0 then Some n
      else let s = 64 - clzll (n - 1) in if s < 64 then Some (push_bit s 1) else None)"

subsection \<open>Capacity rounding\<close>

lemma bit_top_iff:
  assumes "n < 2 ^ Suc i"
  shows "bit n i \<longleftrightarrow> 2 ^ i \<le> (n :: nat)"
proof -
  have "n div 2 ^ i < 2" using assms by (simp add: less_mult_imp_div_less)
  then have "odd (n div 2 ^ i) \<longleftrightarrow> n div 2 ^ i \<noteq> 0" by (cases "n div 2 ^ i") auto
  then show ?thesis by (simp add: bit_iff_odd div_eq_0_iff not_less)
qed

lemma word_bit_top_iff:
  "unat (x :: u64) < 2 ^ Suc i \<Longrightarrow> i < 64 \<Longrightarrow> bit x i \<longleftrightarrow> 2 ^ i \<le> unat x"
  using bit_top_iff [of "unat x" i] by (simp add: bit_unsigned_iff)

lemma clz_from_bounds:
  assumes "unat x < 2 ^ i" "x \<noteq> 0" "i \<le> 64"
  shows "clz_from i x < i \<and> 2 ^ (i - clz_from i x - 1) \<le> unat x \<and> unat x < 2 ^ (i - clz_from i x)"
  using assms
proof (induction i)
  case 0
  then show ?case by (simp add: unat_eq_zero)
next
  case (Suc i)
  show ?case
  proof (cases "bit x i")
    case True
    then show ?thesis using Suc.prems word_bit_top_iff [of x i] by simp
  next
    case False
    then have "unat x < 2 ^ i" using Suc.prems word_bit_top_iff [of x i] by simp
    then show ?thesis using Suc False by simp
  qed
qed

lemma clzll_bounds:
  assumes "x \<noteq> 0"
  shows "clzll x < 64 \<and> 2 ^ (63 - clzll x) \<le> unat x \<and> unat x < 2 ^ (64 - clzll x)"
  using clz_from_bounds [of x 64] assms unsigned_less [of x] by (simp add: clzll_def)

lemma unat_pred:
  assumes "2 \<le> unat (n :: size_t)"
  shows "unat (n - 1) = unat n - 1" "n - 1 \<noteq> 0"
proof -
  have "n \<noteq> 0" using assms by auto
  then show "unat (n - 1) = unat n - 1" by (rule unat_minus_one)
  then show "n - 1 \<noteq> 0" using assms by (auto simp: unat_eq_zero [symmetric])
qed

lemma and_pred_power:
  assumes "2 \<le> unat (n :: size_t)" "n AND (n - 1) = 0"
  shows "n = 2 ^ (63 - clzll n)" and "63 - clzll n \<noteq> 0"
proof -
  let ?j = "63 - clzll n"
  have n0: "n \<noteq> 0" using assms(1) by auto
  note b = clzll_bounds [OF n0]
  then have j: "?j < 64" "64 - clzll n = Suc ?j" by auto
  have bn: "bit n ?j" using word_bit_top_iff [of n ?j] b j by simp
  note n1 = unat_pred(1) [OF assms(1)]
  have "\<not> bit (n - 1) ?j"
    using assms(2) bn by (metis bit_and_iff bit_0_eq bot_apply bot_bool_def)
  moreover have "unat (n - 1) < 2 ^ Suc ?j" using b j n1 by (metis less_imp_diff_less)
  ultimately have "unat n - 1 < 2 ^ ?j"
    using word_bit_top_iff [of "n - 1" ?j] j n1 by simp
  then have "unat n = 2 ^ ?j" using b by linarith
  then show "n = 2 ^ ?j" using j by (metis unat_pow2 word_unat_eq_iff)
  show "?j \<noteq> 0" using \<open>unat n = 2 ^ ?j\<close> assms(1) by (intro notI) simp
qed

lemma next_power_of_2_spec:
  assumes "unat n \<le> 2 ^ 63"
  shows "\<exists>c. next_power_of_2 n = Some c \<and> ring_capacity c \<and> unat n \<le> unat c \<and>
           (2 \<le> unat n \<longrightarrow> unat c < 2 * unat n)"
proof -
  consider "unat n \<le> 1" | "2 \<le> unat n" "n AND (n - 1) = 0" | "2 \<le> unat n" "n AND (n - 1) \<noteq> 0"
    by linarith
  then show ?thesis
  proof cases
    case 1
    then have "n \<le> 1" by (simp add: word_le_nat_alt)
    moreover have "ring_capacity 2" by (auto simp: ring_capacity_def intro!: bexI [of _ 1])
    ultimately show ?thesis using 1 by (simp add: next_power_of_2_def)
  next
    case 2
    then have "\<not> n \<le> 1" by (simp add: word_le_nat_alt)
    moreover have "ring_capacity n" using and_pred_power [OF 2]
      by (auto simp: ring_capacity_def intro!: bexI [of _ "63 - clzll n"])
    ultimately show ?thesis using 2 by (simp add: next_power_of_2_def)
  next
    case 3
    note n1 = unat_pred [OF 3(1)]
    note b = clzll_bounds [OF n1(2)]
    let ?s = "64 - clzll (n - 1)"
    have "clzll (n - 1) \<noteq> 0"
    proof
      assume "clzll (n - 1) = 0"
      then have "2 ^ 63 \<le> unat n - 1" using b n1 by simp
      then show False using assms 3(1) by simp
    qed
    then have s: "?s < 64" "63 - clzll (n - 1) = ?s - 1" "1 \<le> ?s" using b by auto
    then have "2 * 2 ^ (?s - 1) = (2 :: nat) ^ ?s" by (metis Suc_diff_1 less_eq_Suc_le One_nat_def power_Suc)
    moreover have "2 ^ (?s - 1) \<le> unat n - 1" "unat n - 1 < 2 ^ ?s" using b n1 s by metis+
    ultimately have "unat n \<le> 2 ^ ?s" "2 ^ ?s < 2 * unat n" using 3(1) by linarith+
    moreover have "next_power_of_2 n = Some (2 ^ ?s)"
      using 3 s by (simp add: next_power_of_2_def word_le_nat_alt push_bit_eq_mult)
    moreover have "ring_capacity (2 ^ ?s)" using s by (auto simp: ring_capacity_def)
    ultimately show ?thesis using s by (simp add: unat_pow2)
  qed
qed

lemma next_power_of_2_overflow:
  assumes "2 ^ 63 < unat n"
  shows "next_power_of_2 n = None"
proof -
  have "2 \<le> unat n" using assms by simp
  note n1 = unat_pred [OF this]
  have lt: "unat n < 2 ^ Suc 63" "unat (n - 1) < 2 ^ Suc 63"
    using unsigned_less [of n, where 'a = nat] unsigned_less [of "n - 1", where 'a = nat] by simp_all
  have "2 ^ 63 \<le> unat n" "2 ^ 63 \<le> unat (n - 1)" using assms n1 by simp_all
  then have top: "bit n 63" "bit (n - 1) 63"
    using word_bit_top_iff [OF lt(1)] word_bit_top_iff [OF lt(2)] by simp_all
  then have "n AND (n - 1) \<noteq> 0" by (metis bit_0_eq bit_and_iff bot_apply bot_bool_def)
  moreover have "clz_from (Suc 63) (n - 1) = 0" using top(2) by (simp only: clz_from.simps if_True)
  ultimately show ?thesis using assms
    by (simp add: next_power_of_2_def word_le_nat_alt clzll_def)
qed

lemma aligned_alloc_room:
  assumes "memalign_contract pm" "ring_capacity c"
    and "aligned_alloc_wrapper pm kCacheSize (c + kCacheSize) = Some b"
  shows "unat c \<le> length b"
proof -
  have "length b = unat (c + kCacheSize)" using assms(1,3)
    by (auto simp: aligned_alloc_wrapper_def memalign_contract_def split: prod.splits if_splits)
  moreover have "unat (c + kCacheSize) = unat c + 64"
    using ring_capacity_bound [OF assms(2)] by (simp add: kCacheSize_def unat_word_ariths)
  ultimately show ?thesis by simp
qed

end
