(* ===== verification/Spsc_Queue.thy ===== *)
theory Spsc_Queue
  imports Byte_Queue Memory_Util
begin

unbundle bit_operations_syntax

text \<open>
  The single-producer single-consumer queue of \<^verbatim>\<open>src/src/logging/impl/spsc_queue.cc\<close> and its
  header, one definition per member function, each executed as one atomic call.
\<close>

datatype spsc_status =
  Spsc_kOk | Spsc_kUninitialized | Spsc_kUnderflow | Spsc_kOverflow | Spsc_kSizeIsZero

record spsc_queue =
  sq_buffer :: "byte list option"
  sq_capacity :: size_t
  sq_mask :: size_t
  sq_tail_idx :: size_t
  sq_tail_cached :: size_t
  sq_head_cached_snapshot :: size_t
  sq_head_idx :: size_t
  sq_head_cached :: size_t
  sq_tail_cached_snapshot :: size_t
  sq_allocation_size :: size_t

definition spsc_new :: spsc_queue where
  "spsc_new = \<lparr>sq_buffer = None, sq_capacity = 0, sq_mask = 0, sq_tail_idx = 0, sq_tail_cached = 0,
     sq_head_cached_snapshot = 0, sq_head_idx = 0, sq_head_cached = 0,
     sq_tail_cached_snapshot = 0, sq_allocation_size = 0\<rparr>"

definition spsc_reserve :: "memalign \<Rightarrow> spsc_queue \<Rightarrow> size_t \<Rightarrow> spsc_queue option" where
  "spsc_reserve pm q capacity_bytes = do {
     capacity \<leftarrow> next_power_of_2 capacity_bytes;
     let alloc_size = capacity + kCacheSize;
     (case aligned_alloc_wrapper pm kCacheSize alloc_size of
        None \<Rightarrow> Some (q\<lparr>sq_buffer := None, sq_capacity := 0, sq_mask := 0, sq_allocation_size := 0,
          sq_head_idx := 0, sq_tail_idx := 0, sq_head_cached := 0, sq_tail_cached := 0,
          sq_head_cached_snapshot := 0, sq_tail_cached_snapshot := 0\<rparr>)
      | Some new_buffer \<Rightarrow> Some (q\<lparr>sq_buffer := Some new_buffer, sq_capacity := capacity,
          sq_mask := capacity - 1, sq_allocation_size := alloc_size,
          sq_head_idx := 0, sq_tail_idx := 0, sq_head_cached := 0, sq_tail_cached := 0,
          sq_head_cached_snapshot := 0, sq_tail_cached_snapshot := 0\<rparr>))
   }"

text \<open>
  The producer's admission check: the free space is first computed from the cached snapshot
  of the head, and only on failure from the head itself, which refreshes the snapshot.
\<close>

definition spsc_admit :: "spsc_queue \<Rightarrow> size_t \<Rightarrow> bool \<times> spsc_queue" where
  "spsc_admit q n =
     (let current_tail = sq_tail_idx q;
          used_space = current_tail - sq_head_cached_snapshot q
      in if sq_capacity q - used_space < n then
           let current_head = sq_head_idx q;
               q1 = q\<lparr>sq_head_cached_snapshot := current_head\<rparr>;
               new_used_space = current_tail - current_head
           in (\<not> sq_capacity q - new_used_space < n, q1)
         else (True, q))"

definition spsc_publish :: "spsc_queue \<Rightarrow> byte list \<Rightarrow> size_t \<Rightarrow> spsc_queue" where
  "spsc_publish q buf n = q\<lparr>sq_buffer := Some buf, sq_tail_idx := sq_tail_idx q + n,
     sq_tail_cached := sq_tail_idx q + n\<rparr>"

definition spsc_enqueue_bytes ::
  "spsc_queue \<Rightarrow> byte list \<Rightarrow> (spsc_status \<times> spsc_queue) option" where
  "spsc_enqueue_bytes q data =
     (case sq_buffer q of
        None \<Rightarrow> Some (Spsc_kUninitialized, q)
      | Some buf \<Rightarrow>
          let data_size = of_nat (length data) :: size_t in
          if data_size = 0 then Some (Spsc_kSizeIsZero, q)
          else let (admitted, q1) = spsc_admit q data_size in
          if \<not> admitted then Some (Spsc_kOverflow, q1)
          else do {
            buf' \<leftarrow> ring_store buf (sq_mask q1) (sq_tail_idx q1) data;
            Some (Spsc_kOk, spsc_publish q1 buf' data_size)
          })"

text \<open>The consumer's availability check, symmetric to the producer's.\<close>

definition spsc_avail :: "spsc_queue \<Rightarrow> size_t \<Rightarrow> bool \<times> spsc_queue" where
  "spsc_avail q n =
     (let current_head = sq_head_idx q;
          available_data = sq_tail_cached_snapshot q - current_head
      in if available_data < n then
           let current_tail = sq_tail_idx q;
               q1 = q\<lparr>sq_tail_cached_snapshot := current_tail\<rparr>;
               new_available = current_tail - current_head
           in (\<not> new_available < n, q1)
         else (True, q))"

definition spsc_consume :: "spsc_queue \<Rightarrow> size_t \<Rightarrow> spsc_queue" where
  "spsc_consume q n =
     q\<lparr>sq_head_idx := sq_head_idx q + n, sq_head_cached := sq_head_idx q + n\<rparr>"

definition spsc_dequeue_bytes ::
  "spsc_queue \<Rightarrow> byte list \<Rightarrow> size_t \<Rightarrow> (spsc_status \<times> spsc_queue \<times> byte list) option" where
  "spsc_dequeue_bytes q dst data_size =
     (case sq_buffer q of
        None \<Rightarrow> Some (Spsc_kUninitialized, q, dst)
      | Some buf \<Rightarrow>
          if data_size = 0 then Some (Spsc_kSizeIsZero, q, dst)
          else let (available, q1) = spsc_avail q data_size in
          if \<not> available then Some (Spsc_kUnderflow, q1, dst)
          else do {
            dst' \<leftarrow> ring_load buf (sq_mask q1) (sq_head_idx q1) dst data_size;
            Some (Spsc_kOk, spsc_consume q1 data_size, dst')
          })"

definition spsc_peek_bytes ::
  "spsc_queue \<Rightarrow> byte list \<Rightarrow> size_t \<Rightarrow> (spsc_status \<times> byte list) option" where
  "spsc_peek_bytes q dst data_size =
     (case sq_buffer q of
        None \<Rightarrow> Some (Spsc_kUninitialized, dst)
      | Some buf \<Rightarrow>
          if data_size = 0 then Some (Spsc_kSizeIsZero, dst)
          else let available_data = sq_tail_idx q - sq_head_idx q in
          if data_size > available_data then Some (Spsc_kUnderflow, dst)
          else do {
            dst' \<leftarrow> ring_load buf (sq_mask q) (sq_head_idx q) dst data_size;
            Some (Spsc_kOk, dst')
          })"

definition spsc_empty :: "spsc_queue \<Rightarrow> bool" where
  "spsc_empty q \<longleftrightarrow> sq_head_cached q = sq_tail_idx q"

definition spsc_size :: "spsc_queue \<Rightarrow> size_t" where
  "spsc_size q = sq_tail_idx q - sq_head_cached q"

definition spsc_available_space :: "spsc_queue \<Rightarrow> size_t" where
  "spsc_available_space q = sq_capacity q - spsc_size q"

definition spsc_enqueue_bulk ::
  "spsc_queue \<Rightarrow> byte list list \<Rightarrow> (spsc_status \<times> spsc_queue) option" where
  "spsc_enqueue_bulk q datas =
     (case sq_buffer q of
        None \<Rightarrow> Some (Spsc_kUninitialized, q)
      | Some buf \<Rightarrow>
          if datas = [] then Some (Spsc_kSizeIsZero, q)
          else let total_sz = total_size (map (\<lambda>d. of_nat (length d)) datas) 0 in
          if total_sz = 0 then Some (Spsc_kSizeIsZero, q)
          else let (admitted, q1) = spsc_admit q total_sz in
          if \<not> admitted then Some (Spsc_kOverflow, q1)
          else do {
            buf' \<leftarrow> store_all buf (sq_mask q1) (sq_tail_idx q1) 0 datas;
            Some (Spsc_kOk, spsc_publish q1 buf' total_sz)
          })"

definition spsc_dequeue_bulk ::
  "spsc_queue \<Rightarrow> (byte list \<times> size_t) list \<Rightarrow>
   (spsc_status \<times> spsc_queue \<times> byte list list) option" where
  "spsc_dequeue_bulk q dsts =
     (case sq_buffer q of
        None \<Rightarrow> Some (Spsc_kUninitialized, q, map fst dsts)
      | Some buf \<Rightarrow>
          if dsts = [] then Some (Spsc_kSizeIsZero, q, map fst dsts)
          else let total_sz = total_size (map snd dsts) 0 in
          if total_sz = 0 then Some (Spsc_kSizeIsZero, q, map fst dsts)
          else let (available, q1) = spsc_avail q total_sz in
          if \<not> available then Some (Spsc_kUnderflow, q1, map fst dsts)
          else do {
            dsts' \<leftarrow> load_all buf (sq_mask q1) (sq_head_idx q1) 0 dsts;
            Some (Spsc_kOk, spsc_consume q1 total_sz, dsts')
          })"

subsection \<open>Well-formed queues and their abstract contents\<close>

definition spsc_inv :: "spsc_queue \<Rightarrow> bool" where
  "spsc_inv q \<longleftrightarrow>
     (case sq_buffer q of None \<Rightarrow> False | Some buf \<Rightarrow> unat (sq_capacity q) \<le> length buf) \<and>
     ring_capacity (sq_capacity q) \<and> sq_mask q = sq_capacity q - 1 \<and>
     sq_tail_cached q = sq_tail_idx q \<and> sq_head_cached q = sq_head_idx q \<and>
     sq_tail_idx q - sq_head_idx q \<le> sq_tail_idx q - sq_head_cached_snapshot q \<and>
     sq_tail_idx q - sq_head_cached_snapshot q \<le> sq_capacity q \<and>
     sq_tail_cached_snapshot q - sq_head_idx q \<le> sq_tail_idx q - sq_head_idx q"

definition spsc_contents :: "spsc_queue \<Rightarrow> byte list" where
  "spsc_contents q =
     (case sq_buffer q of None \<Rightarrow> []
      | Some buf \<Rightarrow> ring_read buf (unat (sq_capacity q)) (unat (sq_head_idx q))
                     (unat (sq_tail_idx q - sq_head_idx q)))"

definition spsc_cap :: "spsc_queue \<Rightarrow> nat" where
  "spsc_cap q = unat (sq_capacity q)"

text \<open>
  The abstract queue: a bounded list of bytes with the status each request gets. A queue that
  meets \<open>spsc_inv\<close> implements it.
\<close>

definition fifo_put :: "nat \<Rightarrow> byte list \<Rightarrow> byte list \<Rightarrow> spsc_status \<times> byte list" where
  "fifo_put cap xs d =
     (if d = [] then (Spsc_kSizeIsZero, xs)
      else if length xs + length d \<le> cap then (Spsc_kOk, xs @ d)
      else (Spsc_kOverflow, xs))"

definition fifo_get :: "byte list \<Rightarrow> nat \<Rightarrow> spsc_status \<times> byte list \<times> byte list" where
  "fifo_get xs n =
     (if n = 0 then (Spsc_kSizeIsZero, [], xs)
      else if n \<le> length xs then (Spsc_kOk, take n xs, drop n xs)
      else (Spsc_kUnderflow, [], xs))"

text \<open>
  A queue of four bytes whose free-running head has not yet wrapped around \<open>2 ^ 64\<close> while its
  tail has: it holds two bytes, in the last and the first cell of its block.
\<close>

definition wrapped_queue :: spsc_queue where
  "wrapped_queue = \<lparr>sq_buffer = Some ''bxya'', sq_capacity = 4, sq_mask = 3, sq_tail_idx = 1,
     sq_tail_cached = 1, sq_head_cached_snapshot = 0xFFFFFFFFFFFFFFFE,
     sq_head_idx = 0xFFFFFFFFFFFFFFFF, sq_head_cached = 0xFFFFFFFFFFFFFFFF,
     sq_tail_cached_snapshot = 0, sq_allocation_size = 4\<rparr>"

subsection \<open>Lemmas\<close>

lemma wrapped_queue_inv: "spsc_inv wrapped_queue"
  by (auto simp: spsc_inv_def wrapped_queue_def ring_capacity_def intro!: bexI [of _ 2])

lemma wrapped_queue_contents: "spsc_contents wrapped_queue = ''ab''" "spsc_cap wrapped_queue = 4"
  by (simp_all add: spsc_contents_def spsc_cap_def wrapped_queue_def ring_read_def upt_conv_Cons)

lemma spsc_invE:
  assumes "spsc_inv q"
  obtains buf k where "sq_buffer q = Some buf" "1 \<le> k" "k < 64" "sq_capacity q = 2 ^ k"
    "unat (sq_capacity q) = 2 ^ k" "spsc_cap q = 2 ^ k" "sq_mask q = 2 ^ k - 1" "2 ^ k \<le> length buf"
    "unat (sq_tail_idx q - sq_head_idx q) \<le> unat (sq_tail_idx q - sq_head_cached_snapshot q)"
    "unat (sq_tail_idx q - sq_head_cached_snapshot q) \<le> 2 ^ k"
    "unat (sq_tail_cached_snapshot q - sq_head_idx q) \<le> unat (sq_tail_idx q - sq_head_idx q)"
    "sq_tail_cached q = sq_tail_idx q" "sq_head_cached q = sq_head_idx q"
proof -
  from assms obtain k where k: "1 \<le> k" "k < 64" "sq_capacity q = 2 ^ k" "unat (sq_capacity q) = 2 ^ k"
    by (auto simp: spsc_inv_def elim: ring_capacityE)
  with assms show thesis
    by (auto simp: spsc_inv_def spsc_cap_def word_le_nat_alt ring_simps split: option.splits intro: that [of _ k])
qed

lemma spsc_length_contents:
  "spsc_inv q \<Longrightarrow> length (spsc_contents q) = unat (sq_tail_idx q - sq_head_idx q)"
  by (auto simp: spsc_contents_def spsc_inv_def split: option.splits)

lemma spsc_contents_bound: "spsc_inv q \<Longrightarrow> length (spsc_contents q) \<le> spsc_cap q"
  by (auto simp: spsc_length_contents elim!: spsc_invE)

lemma spsc_cap_bound: "spsc_inv q \<Longrightarrow> spsc_cap q \<le> 2 ^ 63"
proof (erule spsc_invE)
  fix k assume "k < 64" "spsc_cap q = 2 ^ k"
  then show ?thesis using power_increasing [of k 63 "2 :: nat"] by simp
qed

lemma spsc_contents_snapshots [simp]:
  "spsc_contents (q\<lparr>sq_head_cached_snapshot := h\<rparr>) = spsc_contents q"
  "spsc_contents (q\<lparr>sq_tail_cached_snapshot := t\<rparr>) = spsc_contents q"
  "spsc_cap (q\<lparr>sq_head_cached_snapshot := h\<rparr>) = spsc_cap q"
  "spsc_cap (q\<lparr>sq_tail_cached_snapshot := t\<rparr>) = spsc_cap q"
  by (simp_all add: spsc_contents_def spsc_cap_def split: option.splits)

lemma spsc_inv_refresh:
  "spsc_inv q \<Longrightarrow> spsc_inv (q\<lparr>sq_head_cached_snapshot := sq_head_idx q\<rparr>)"
  "spsc_inv q \<Longrightarrow> spsc_inv (q\<lparr>sq_tail_cached_snapshot := sq_tail_idx q\<rparr>)"
  by (auto simp: spsc_inv_def split: option.splits)

lemma spsc_admit_spec:
  assumes inv: "spsc_inv q" and adm: "spsc_admit q n = (b, q1)"
  shows "spsc_inv q1" "spsc_contents q1 = spsc_contents q" "spsc_cap q1 = spsc_cap q"
    "b \<longleftrightarrow> length (spsc_contents q) + unat n \<le> spsc_cap q"
    "b \<Longrightarrow> unat (sq_tail_idx q1 - sq_head_cached_snapshot q1) + unat n \<le> spsc_cap q"
    "sq_buffer q1 = sq_buffer q"
proof -
  from inv have used: "unat (sq_tail_idx q - sq_head_idx q) \<le> unat (sq_tail_idx q - sq_head_cached_snapshot q)"
    "unat (sq_tail_idx q - sq_head_cached_snapshot q) \<le> unat (sq_capacity q)"
    by (auto simp: spsc_inv_def word_le_nat_alt)
  note less = free_less_iff [OF used(2), of n] free_less_iff [OF le_trans [OF used], of n]
  show "spsc_inv q1" "spsc_contents q1 = spsc_contents q" "spsc_cap q1 = spsc_cap q"
    "sq_buffer q1 = sq_buffer q"
    using adm inv by (auto simp: spsc_admit_def Let_def spsc_inv_refresh split: if_splits)
  show "b \<longleftrightarrow> length (spsc_contents q) + unat n \<le> spsc_cap q"
    "b \<Longrightarrow> unat (sq_tail_idx q1 - sq_head_cached_snapshot q1) + unat n \<le> spsc_cap q"
    using adm used less
    by (auto simp: spsc_admit_def Let_def spsc_length_contents [OF inv] spsc_cap_def split: if_splits)
qed

lemma spsc_avail_spec:
  assumes inv: "spsc_inv q" and av: "spsc_avail q n = (b, q1)"
  shows "spsc_inv q1" "spsc_contents q1 = spsc_contents q" "spsc_cap q1 = spsc_cap q"
    "b \<longleftrightarrow> unat n \<le> length (spsc_contents q)"
    "b \<Longrightarrow> unat n \<le> unat (sq_tail_cached_snapshot q1 - sq_head_idx q1)"
    "sq_buffer q1 = sq_buffer q" "sq_head_idx q1 = sq_head_idx q"
proof -
  from inv have snap: "unat (sq_tail_cached_snapshot q - sq_head_idx q) \<le> unat (sq_tail_idx q - sq_head_idx q)"
    by (auto simp: spsc_inv_def word_le_nat_alt)
  show "spsc_inv q1" "spsc_contents q1 = spsc_contents q" "spsc_cap q1 = spsc_cap q"
    "sq_buffer q1 = sq_buffer q" "sq_head_idx q1 = sq_head_idx q"
    using av inv by (auto simp: spsc_avail_def Let_def spsc_inv_refresh split: if_splits)
  show "b \<longleftrightarrow> unat n \<le> length (spsc_contents q)"
    "b \<Longrightarrow> unat n \<le> unat (sq_tail_cached_snapshot q1 - sq_head_idx q1)"
    using av snap
    by (auto simp: spsc_avail_def Let_def spsc_length_contents [OF inv] word_less_nat_alt split: if_splits)
qed

lemma spsc_publish_spec:
  assumes inv: "spsc_inv q" and buf: "sq_buffer q = Some buf"
    and st: "stored_at buf buf' (spsc_cap q) (unat (sq_tail_idx q)) d"
    and n: "unat n = length d" and fits: "unat (sq_tail_idx q - sq_head_cached_snapshot q) + length d \<le> spsc_cap q"
  shows "spsc_inv (spsc_publish q buf' n)"
    "spsc_contents (spsc_publish q buf' n) = spsc_contents q @ d"
    "spsc_cap (spsc_publish q buf' n) = spsc_cap q"
proof -
  from inv obtain k where k: "1 \<le> k" "k < 64" "sq_capacity q = 2 ^ k" "unat (sq_capacity q) = 2 ^ k"
     "spsc_cap q = 2 ^ k" "2 ^ k \<le> length buf"
     and used: "unat (sq_tail_idx q - sq_head_idx q) \<le> unat (sq_tail_idx q - sq_head_cached_snapshot q)"
    "unat (sq_tail_cached_snapshot q - sq_head_idx q) \<le> unat (sq_tail_idx q - sq_head_idx q)"
    using buf by (elim spsc_invE) auto
  have cap: "spsc_cap q < 2 ^ 64" using spsc_cap_bound [OF inv] by (rule le_less_trans) simp
  have len: "length buf' = length buf" using st by (simp add: stored_at_def)
  have sh: "unat (sq_tail_idx q + n - sq_head_idx q) = unat (sq_tail_idx q - sq_head_idx q) + length d"
    "unat (sq_tail_idx q + n - sq_head_cached_snapshot q) = unat (sq_tail_idx q - sq_head_cached_snapshot q) + length d"
    using fits cap used n by (subst unat_diff_shift; simp)+
  show "spsc_inv (spsc_publish q buf' n)"
    using inv buf k sh used fits len
    by (simp add: spsc_inv_def spsc_publish_def word_le_nat_alt)
  have "unat (sq_tail_idx q) mod 2 ^ k = (unat (sq_head_idx q) + unat (sq_tail_idx q - sq_head_idx q)) mod 2 ^ k"
    using unat_plus_mod_cap [OF k(2), of "sq_head_idx q" "sq_tail_idx q - sq_head_idx q"] by simp
  then have "stored_at buf buf' (2 ^ k) (unat (sq_head_idx q) + unat (sq_tail_idx q - sq_head_idx q)) d"
    using st k stored_at_mod by metis
  from ring_read_stored [OF this] show "spsc_contents (spsc_publish q buf' n) = spsc_contents q @ d"
    using buf k sh used fits by (simp add: spsc_contents_def spsc_publish_def)
  show "spsc_cap (spsc_publish q buf' n) = spsc_cap q"
    by (simp add: spsc_publish_def spsc_cap_def)
qed

lemma spsc_consume_spec:
  assumes inv: "spsc_inv q" and n: "unat n \<le> unat (sq_tail_cached_snapshot q - sq_head_idx q)"
  shows "spsc_inv (spsc_consume q n)"
    "spsc_contents (spsc_consume q n) = drop (unat n) (spsc_contents q)"
    "spsc_cap (spsc_consume q n) = spsc_cap q"
proof -
  from inv obtain buf k where k: "sq_buffer q = Some buf" "k < 64" "unat (sq_capacity q) = 2 ^ k"
     and used: "unat (sq_tail_idx q - sq_head_idx q) \<le> unat (sq_tail_idx q - sq_head_cached_snapshot q)"
    "unat (sq_tail_cached_snapshot q - sq_head_idx q) \<le> unat (sq_tail_idx q - sq_head_idx q)"
    by (elim spsc_invE) auto
  note dr = unat_diff_drop [OF le_trans [OF n used(2)]] unat_diff_drop [OF n]
  show "spsc_inv (spsc_consume q n)"
    using inv k dr used by (auto simp: spsc_inv_def spsc_consume_def word_le_nat_alt)
  have "ring_read buf (2 ^ k) (unat (sq_head_idx q + n)) (unat (sq_tail_idx q - sq_head_idx q) - unat n) =
        ring_read buf (2 ^ k) (unat (sq_head_idx q) + unat n) (unat (sq_tail_idx q - sq_head_idx q) - unat n)"
    using k(2) by (intro ring_read_cong_pos unat_plus_mod_cap)
  then show "spsc_contents (spsc_consume q n) = drop (unat n) (spsc_contents q)"
    using k dr n used by (simp add: spsc_contents_def spsc_consume_def ring_read_drop)
  show "spsc_cap (spsc_consume q n) = spsc_cap q"
    by (simp add: spsc_consume_def spsc_cap_def)
qed

lemma spsc_contents_prefix:
  assumes "spsc_inv q" "sq_buffer q = Some buf" "m \<le> length (spsc_contents q)"
  shows "ring_read buf (spsc_cap q) (unat (sq_head_idx q)) m = take m (spsc_contents q)"
  using assms ring_read_prefix [of m "length (spsc_contents q)" buf]
  by (simp add: spsc_contents_def spsc_cap_def)

lemma spsc_load_eq:
  assumes inv: "spsc_inv q" and buf: "sq_buffer q = Some buf" and n: "unat n \<le> length (spsc_contents q)"
  shows "ring_load buf (sq_mask q) (sq_head_idx q) dst n = memcpy dst 0 (take (unat n) (spsc_contents q))"
proof -
  from inv buf obtain k where k: "k < 64" "unat (sq_capacity q) = 2 ^ k" "sq_mask q = 2 ^ k - 1" "2 ^ k \<le> length buf"
    "spsc_cap q = 2 ^ k" by (elim spsc_invE) auto
  have "unat n \<le> 2 ^ k" using n spsc_contents_bound [OF inv] k(5) by linarith
  moreover have "ring_read buf (2 ^ k) (unat (sq_head_idx q)) (unat n) = take (unat n) (spsc_contents q)"
    using n k(2) ring_read_prefix [of "unat n" "length (spsc_contents q)" buf]
    by (simp add: spsc_contents_def buf)
  ultimately show ?thesis using k by (simp add: ring_load_eq)
qed

lemma spsc_store_spec:
  assumes inv: "spsc_inv q" and buf: "sq_buffer q = Some buf" and d: "length d \<le> spsc_cap q"
  shows "\<exists>buf'. ring_store buf (sq_mask q) t d = Some buf' \<and> stored_at buf buf' (spsc_cap q) (unat t) d"
proof -
  from inv buf obtain k where "k < 64" "sq_mask q = 2 ^ k - 1" "2 ^ k \<le> length buf" "spsc_cap q = 2 ^ k"
    by (elim spsc_invE) auto
  then show ?thesis using ring_store_spec d by simp
qed

lemma spsc_enqueue_fits:
  assumes inv: "spsc_inv q" and d: "d \<noteq> []" "length (spsc_contents q) + length d \<le> spsc_cap q"
  shows "\<exists>q'. spsc_enqueue_bytes q d = Some (Spsc_kOk, q') \<and> spsc_inv q' \<and>
           spsc_contents q' = spsc_contents q @ d \<and> spsc_cap q' = spsc_cap q"
proof -
  from inv obtain buf where buf: "sq_buffer q = Some buf" by (elim spsc_invE)
  have "length d < 2 ^ 64" using d(2) spsc_cap_bound [OF inv] by simp
  note sz = unat_of_length [OF this] of_length_eq_0 [OF this]
  obtain b q1 where adm: "spsc_admit q (of_nat (length d)) = (b, q1)" by fastforce
  note a = spsc_admit_spec [OF inv adm]
  from a(4) d sz have b by simp
  have buf1: "sq_buffer q1 = Some buf" using a(6) buf by simp
  obtain buf' where st: "ring_store buf (sq_mask q1) (sq_tail_idx q1) d = Some buf'"
    "stored_at buf buf' (spsc_cap q1) (unat (sq_tail_idx q1)) d"
    using spsc_store_spec [OF a(1) buf1, of d "sq_tail_idx q1"] d(2) a(3) by auto
  have "unat (sq_tail_idx q1 - sq_head_cached_snapshot q1) + length d \<le> spsc_cap q1"
    using a(5) \<open>b\<close> a(3) sz by simp
  note p = spsc_publish_spec [OF a(1) buf1 st(2) sz(1) this]
  have "spsc_enqueue_bytes q d = Some (Spsc_kOk, spsc_publish q1 buf' (of_nat (length d)))"
    using buf d sz adm \<open>b\<close> st by (simp add: spsc_enqueue_bytes_def)
  then show ?thesis using p a by auto
qed

lemma spsc_enqueue_full:
  assumes inv: "spsc_inv q" and d: "length d < 2 ^ 64" "spsc_cap q < length (spsc_contents q) + length d"
  shows "\<exists>q'. spsc_enqueue_bytes q d = Some (Spsc_kOverflow, q') \<and> spsc_inv q' \<and>
           spsc_contents q' = spsc_contents q \<and> spsc_cap q' = spsc_cap q"
proof -
  from inv obtain buf where buf: "sq_buffer q = Some buf" by (elim spsc_invE)
  have "d \<noteq> []" using d(2) spsc_contents_bound [OF inv] by auto
  note sz = unat_of_length [OF d(1)] of_length_eq_0 [OF d(1)]
  obtain b q1 where adm: "spsc_admit q (of_nat (length d)) = (b, q1)" by fastforce
  note a = spsc_admit_spec [OF inv adm]
  then show ?thesis
    using buf d sz adm \<open>d \<noteq> []\<close> by (simp add: spsc_enqueue_bytes_def)
qed

lemma spsc_dequeue_cases:
  assumes inv: "spsc_inv q" and n: "n \<noteq> 0" and len: "unat n \<le> length (spsc_contents q)"
  shows "\<exists>q'. spsc_dequeue_bytes q dst n =
             map_option (\<lambda>dst'. (Spsc_kOk, q', dst')) (memcpy dst 0 (take (unat n) (spsc_contents q))) \<and>
           spsc_inv q' \<and> spsc_contents q' = drop (unat n) (spsc_contents q) \<and> spsc_cap q' = spsc_cap q"
proof -
  from inv obtain buf where buf: "sq_buffer q = Some buf" by (elim spsc_invE)
  obtain b q1 where av: "spsc_avail q n = (b, q1)" by fastforce
  note a = spsc_avail_spec [OF inv av]
  from a(4) len have b by simp
  have buf1: "sq_buffer q1 = Some buf" and len1: "unat n \<le> length (spsc_contents q1)" using a buf len by simp_all
  note c = spsc_consume_spec [OF a(1) a(5) [OF \<open>b\<close>]]
  have "spsc_dequeue_bytes q dst n =
          map_option (\<lambda>dst'. (Spsc_kOk, spsc_consume q1 n, dst')) (memcpy dst 0 (take (unat n) (spsc_contents q)))"
    using buf n av \<open>b\<close> spsc_load_eq [OF a(1) buf1 len1] a(2)
    by (simp add: spsc_dequeue_bytes_def map_conv_bind_option comp_def)
  then show ?thesis using c a by auto
qed

lemma spsc_dequeue_short:
  assumes inv: "spsc_inv q" and len: "length (spsc_contents q) < unat n"
  shows "\<exists>q'. spsc_dequeue_bytes q dst n = Some (Spsc_kUnderflow, q', dst) \<and> spsc_inv q' \<and>
           spsc_contents q' = spsc_contents q \<and> spsc_cap q' = spsc_cap q"
proof -
  from inv obtain buf where buf: "sq_buffer q = Some buf" by (elim spsc_invE)
  have n: "n \<noteq> 0" using len by auto
  obtain b q1 where av: "spsc_avail q n = (b, q1)" by fastforce
  note a = spsc_avail_spec [OF inv av]
  then show ?thesis using buf n av len by (simp add: spsc_dequeue_bytes_def)
qed

lemma spsc_peek_avail:
  assumes inv: "spsc_inv q" and n: "n \<noteq> 0" and len: "unat n \<le> length (spsc_contents q)"
  shows "spsc_peek_bytes q dst n =
           map_option (Pair Spsc_kOk) (memcpy dst 0 (take (unat n) (spsc_contents q)))"
proof -
  from inv obtain buf where buf: "sq_buffer q = Some buf" by (elim spsc_invE)
  have "\<not> sq_tail_idx q - sq_head_idx q < n"
    using len by (simp add: spsc_length_contents [OF inv] word_less_nat_alt)
  then show ?thesis using buf n spsc_load_eq [OF inv buf len]
    by (simp add: spsc_peek_bytes_def map_conv_bind_option comp_def)
qed

lemma spsc_peek_short:
  assumes inv: "spsc_inv q" and len: "length (spsc_contents q) < unat n"
  shows "spsc_peek_bytes q dst n = Some (Spsc_kUnderflow, dst)"
proof -
  from inv obtain buf where "sq_buffer q = Some buf" by (elim spsc_invE)
  moreover have "n \<noteq> 0" using len by auto
  moreover have "sq_tail_idx q - sq_head_idx q < n"
    using len by (simp add: spsc_length_contents [OF inv] word_less_nat_alt)
  ultimately show ?thesis by (simp add: spsc_peek_bytes_def)
qed

interpretation spsc: byte_queue spsc_enqueue_bytes spsc_dequeue_bytes spsc_peek_bytes
  Spsc_kOk Spsc_kUnderflow Spsc_kOverflow spsc_inv spsc_contents spsc_cap
proof
  fix q d dst and n :: size_t
  show "spsc_inv q \<Longrightarrow> length (spsc_contents q) \<le> spsc_cap q \<and> spsc_cap q < 2 ^ 64"
    using spsc_contents_bound [of q] spsc_cap_bound [of q] by auto
  assume inv: "spsc_inv q" and n: "n \<noteq> 0" "unat n \<le> length (spsc_contents q)"
  note deq = spsc_dequeue_cases [OF inv n, of dst] and peek = spsc_peek_avail [OF inv n, of dst]
  have min: "min (length (spsc_contents q)) (unat n) = unat n" using n(2) by simp
  show "\<exists>q'. spsc_dequeue_bytes q dst n = Some (Spsc_kOk, q', take (unat n) (spsc_contents q) @ drop (unat n) dst) \<and>
          spsc_inv q' \<and> spsc_contents q' = drop (unat n) (spsc_contents q) \<and> spsc_cap q' = spsc_cap q"
    if "unat n \<le> length dst" using deq that min by (auto simp: memcpy_def)
  show "spsc_dequeue_bytes q dst n = None" if "length dst < unat n"
    using deq that min by (auto simp: memcpy_def)
  show "spsc_peek_bytes q dst n = Some (Spsc_kOk, take (unat n) (spsc_contents q) @ drop (unat n) dst)"
    if "unat n \<le> length dst" using peek that min by (auto simp: memcpy_def)
qed (use spsc_enqueue_fits spsc_enqueue_full spsc_dequeue_short spsc_peek_short in auto)

lemma spsc_reserve_spec:
  assumes pm: "memalign_contract pm" and n: "unat n \<le> 2 ^ 63"
  shows "\<exists>q'. spsc_reserve pm q n = Some q' \<and> spsc_contents q' = [] \<and>
           (case sq_buffer q' of None \<Rightarrow> sq_capacity q' = 0
            | Some _ \<Rightarrow> spsc_inv q' \<and> unat n \<le> spsc_cap q')"
proof -
  obtain c where c: "next_power_of_2 n = Some c" "ring_capacity c" "unat n \<le> unat c"
    using next_power_of_2_spec [OF n] by blast
  show ?thesis
  proof (cases "aligned_alloc_wrapper pm kCacheSize (c + kCacheSize)")
    case None
    then show ?thesis using c by (simp add: spsc_reserve_def spsc_contents_def)
  next
    case (Some b)
    then have "unat c \<le> length b" using aligned_alloc_room [OF pm c(2)] by simp
    then show ?thesis using Some c
      by (simp add: spsc_reserve_def spsc_contents_def spsc_inv_def spsc_cap_def)
  qed
qed

subsection \<open>Bulk operations\<close>

lemma spsc_enqueue_bulk_eq:
  assumes inv: "spsc_inv q" and len: "length (concat ds) < 2 ^ 64"
  shows "spsc_enqueue_bulk q ds = spsc_enqueue_bytes q (concat ds)"
proof (cases "concat ds = []")
  case True
  then have "total_size (map (\<lambda>d. of_nat (length d)) ds) 0 = 0"
    unfolding total_size_lengths True by simp
  then show ?thesis unfolding True
    by (simp add: spsc_enqueue_bulk_def spsc_enqueue_bytes_def split: option.splits)
next
  case False
  from inv obtain buf k where buf: "sq_buffer q = Some buf" and k: "k < 64" "spsc_cap q = 2 ^ k" "2 ^ k \<le> length buf"
    by (elim spsc_invE)
  let ?n = "of_nat (length (concat ds)) :: size_t"
  have n: "?n \<noteq> 0" "unat ?n = length (concat ds)" using of_length_eq_0 [OF len] unat_of_length [OF len] False by auto
  obtain b q1 where adm: "spsc_admit q ?n = (b, q1)" by fastforce
  note a = spsc_admit_spec [OF inv adm]
  have "store_all buf (sq_mask q1) (sq_tail_idx q1) 0 ds = ring_store buf (sq_mask q1) (sq_tail_idx q1) (concat ds)"
    if b
  proof -
    have fit: "length (concat ds) \<le> 2 ^ k" using that a(4) n k by simp
    have "sq_mask q1 = 2 ^ k - 1"
      using adm inv k by (auto simp: spsc_admit_def Let_def spsc_cap_def spsc_inv_def split: if_splits
            elim!: ring_capacityE)
    then show ?thesis
      using store_all_spec [OF k(1,3) fit, of "sq_tail_idx q1" 0] ring_store_spec [OF k(1,3) fit, of "sq_tail_idx q1"]
      by (auto dest: stored_at_unique)
  qed
  moreover have "ds \<noteq> []" using False by auto
  ultimately show ?thesis using buf adm n total_size_lengths [of ds 0]
    by (auto simp: spsc_enqueue_bulk_def spsc_enqueue_bytes_def)
qed

lemma spsc_dequeue_bulk_spec:
  assumes inv: "spsc_inv q" and sum: "sum_list (map (\<lambda>x. unat (snd x)) ds) = n" "0 < n" "n \<le> length (spsc_contents q)"
    and fits: "list_all (\<lambda>(dst, n). unat n \<le> length dst) ds"
  shows "\<exists>q' outs. spsc_dequeue_bulk q ds = Some (Spsc_kOk, q', outs) \<and> length outs = length ds \<and>
           concat (map2 (\<lambda>(dst, n) out. take (unat n) out) ds outs) = take n (spsc_contents q) \<and>
           spsc_inv q' \<and> spsc_contents q' = drop n (spsc_contents q) \<and> spsc_cap q' = spsc_cap q"
proof -
  from inv obtain buf where buf: "sq_buffer q = Some buf" by (elim spsc_invE)
  have n64: "n < 2 ^ 64" using sum spsc_contents_bound [OF inv] spsc_cap_bound [OF inv] by simp
  let ?t = "total_size (map snd ds) 0"
  have t: "unat ?t = n" using total_size_nat [of 0 "map snd ds"] sum n64 by (simp add: comp_def)
  obtain b q1 where av: "spsc_avail q ?t = (b, q1)" by fastforce
  note a = spsc_avail_spec [OF inv av]
  from a(4) t sum have b by simp
  note c = spsc_consume_spec [OF a(1) a(5) [OF \<open>b\<close>]]
  from a(1) a(6) buf obtain k where k: "k < 64" "unat (sq_capacity q1) = 2 ^ k" "sq_mask q1 = 2 ^ k - 1"
    "2 ^ k \<le> length buf" "spsc_cap q1 = 2 ^ k" by (elim spsc_invE) auto
  have "sum_list (map (\<lambda>x. unat (snd x)) ds) \<le> 2 ^ k"
    using sum spsc_contents_bound [OF inv] a(3) k(5) by simp
  from load_all_spec [OF k(1,4) this fits, of "sq_head_idx q1" 0] obtain outs where outs:
    "load_all buf (sq_mask q1) (sq_head_idx q1) 0 ds = Some outs" "length outs = length ds"
    "concat (map2 (\<lambda>(dst, n) out. take (unat n) out) ds outs) =
       ring_read buf (2 ^ k) (unat (sq_head_idx q1)) n" using k(3) sum by auto
  have "ring_read buf (2 ^ k) (unat (sq_head_idx q1)) n = take n (spsc_contents q1)"
    using spsc_contents_prefix [OF a(1), of buf n] a(2,6) buf sum(3) k(5) by simp
  moreover have "ds \<noteq> []" using sum(1,2) by auto
  moreover have "?t \<noteq> 0" using t sum(2) by (metis less_irrefl unat_0)
  ultimately show ?thesis using buf av \<open>b\<close> outs c a t by (auto simp: spsc_dequeue_bulk_def)
qed

subsection \<open>Properties\<close>

text \<open>C13: a queue in service implements the bounded byte FIFO on enqueue. On every branch (empty
  data, not enough room, room) the status is the abstract one, the bytes are appended in order or
  the contents are unchanged, the invariant is kept and no access leaves the storage; this
  includes data that wraps around the block and indices that wrap around \<open>2 ^ 64\<close>.\<close>

theorem spsc_enqueue_refines:
  assumes "spsc_inv q" and "length d < 2 ^ 64"
  shows "\<exists>q'. spsc_enqueue_bytes q d = Some (fst (fifo_put (spsc_cap q) (spsc_contents q) d), q') \<and>
           spsc_inv q' \<and> spsc_contents q' = snd (fifo_put (spsc_cap q) (spsc_contents q) d) \<and>
           spsc_cap q' = spsc_cap q"
proof (cases "d = []")
  case True
  moreover obtain buf where "sq_buffer q = Some buf" using assms(1) by (rule spsc_invE)
  ultimately show ?thesis using assms(1) by (simp add: spsc_enqueue_bytes_def fifo_put_def)
next
  case False
  then show ?thesis using spsc_enqueue_fits [OF assms(1)] spsc_enqueue_full [OF assms]
    by (cases "length (spsc_contents q) + length d \<le> spsc_cap q") (auto simp: fifo_put_def)
qed

theorem spsc_enqueue_refines_witness:
  "\<exists>q'. spsc_enqueue_bytes wrapped_queue ''cd'' = Some (Spsc_kOk, q') \<and> spsc_contents q' = ''abcd''"
  using spsc_enqueue_refines [of wrapped_queue "''cd''"]
  by (auto simp: wrapped_queue_inv wrapped_queue_contents fifo_put_def)

text \<open>C14: a queue in service implements the bounded byte FIFO on dequeue. The destination receives
  exactly the oldest bytes, which leave the queue; a request for more than there is changes
  neither; and the only undefined behaviour is a destination smaller than the request.\<close>

theorem spsc_dequeue_refines:
  assumes "spsc_inv q"
  shows "\<exists>q'. spsc_dequeue_bytes q dst n =
             map_option (\<lambda>dst'. (fst (fifo_get (spsc_contents q) (unat n)), q', dst'))
               (memcpy dst 0 (fst (snd (fifo_get (spsc_contents q) (unat n))))) \<and>
           spsc_inv q' \<and> spsc_contents q' = snd (snd (fifo_get (spsc_contents q) (unat n))) \<and>
           spsc_cap q' = spsc_cap q"
proof (cases "n = 0")
  case True
  moreover obtain buf where "sq_buffer q = Some buf" using assms by (rule spsc_invE)
  ultimately show ?thesis using assms by (simp add: spsc_dequeue_bytes_def fifo_get_def memcpy_def)
next
  case False
  then have n0: "unat n \<noteq> 0" by (simp add: unat_eq_zero)
  show ?thesis
  proof (cases "unat n \<le> length (spsc_contents q)")
    case True
    then show ?thesis using spsc_dequeue_cases [OF assms False True] n0 by (simp add: fifo_get_def)
  next
    case short: False
    then show ?thesis using spsc_dequeue_short [OF assms, of n dst] n0
      by (simp add: fifo_get_def memcpy_def)
  qed
qed

theorem spsc_dequeue_refines_witness:
  "(\<exists>q'. spsc_dequeue_bytes wrapped_queue ''--'' 2 = Some (Spsc_kOk, q', ''ab'') \<and> spsc_contents q' = []) \<and>
   spsc_dequeue_bytes wrapped_queue ''-'' 2 = None"
  using spsc_dequeue_refines [OF wrapped_queue_inv, of "''--''" 2]
    spsc_dequeue_refines [OF wrapped_queue_inv, of "''-''" 2]
  by (auto simp: wrapped_queue_contents fifo_get_def memcpy_def)

text \<open>Peeking returns the bytes the next dequeue of the same size delivers, and fails exactly
  when that dequeue fails.\<close>

theorem spsc_peek_then_dequeue:
  assumes "spsc_inv q" and "n \<noteq> 0"
  shows "map_option fst (spsc_peek_bytes q dst n) = map_option fst (spsc_dequeue_bytes q dst n) \<and>
         map_option snd (spsc_peek_bytes q dst n) = map_option (snd \<circ> snd) (spsc_dequeue_bytes q dst n)"
proof (cases "unat n \<le> length (spsc_contents q)")
  case True
  then show ?thesis using spsc_dequeue_cases [OF assms True, of dst] spsc_peek_avail [OF assms True, of dst]
    by (auto simp: option.map_comp comp_def)
next
  case False
  then have "length (spsc_contents q) < unat n" by simp
  from spsc_dequeue_short [OF assms(1) this, of dst] spsc_peek_short [OF assms(1) this, of dst]
  show ?thesis by auto
qed

theorem spsc_peek_then_dequeue_witness:
  "spsc_peek_bytes wrapped_queue ''--'' 2 = Some (Spsc_kOk, ''ab'') \<and>
   Some ''ab'' = map_option (snd \<circ> snd) (spsc_dequeue_bytes wrapped_queue ''--'' 2)"
proof -
  have "spsc_peek_bytes wrapped_queue ''--'' 2 = Some (Spsc_kOk, ''ab'')"
    using spsc_peek_avail [OF wrapped_queue_inv, of 2 "''--''"]
    by (simp add: wrapped_queue_contents memcpy_def)
  then show ?thesis using spsc_peek_then_dequeue [OF wrapped_queue_inv, of 2 "''--''"] by simp
qed

text \<open>Whatever sequence of enqueues and dequeues a client issues, the queue never leaves its
  storage, and the bytes it delivered followed by the bytes it still holds are the bytes it held
  at first followed by the bytes it accepted: nothing is lost, duplicated, altered or reordered.\<close>

theorem spsc_fifo:
  assumes "spsc_inv q" and "list_all queue_op_ok ops"
  shows "\<exists>acc del q'. queue_run spsc_enqueue_bytes spsc_dequeue_bytes Spsc_kOk q ops = Some (acc, del, q') \<and>
           spsc_inv q' \<and> spsc_cap q' = spsc_cap q \<and> spsc_contents q @ acc = del @ spsc_contents q'"
  using assms by (rule spsc.queue_run_fifo)

theorem spsc_fifo_witness:
  "\<exists>acc del q'. queue_run spsc_enqueue_bytes spsc_dequeue_bytes Spsc_kOk wrapped_queue
       [Put ''cd'', Put ''e'', Take 3] = Some (acc, del, q') \<and> ''ab'' @ acc = del @ spsc_contents q'"
  using spsc_fifo [OF wrapped_queue_inv, of "[Put ''cd'', Put ''e'', Take 3]"]
  by (auto simp: wrapped_queue_contents)

text \<open>a bulk enqueue is one enqueue of the concatenated blocks: same status, same storage,
  same indices, all blocks or none.\<close>

theorem spsc_enqueue_bulk_is_concat:
  assumes "spsc_inv q" and "length (concat ds) < 2 ^ 64"
  shows "spsc_enqueue_bulk q ds = spsc_enqueue_bytes q (concat ds)"
  using assms by (rule spsc_enqueue_bulk_eq)

theorem spsc_enqueue_bulk_is_concat_witness:
  "spsc_enqueue_bulk wrapped_queue [''c'', [], ''d''] = spsc_enqueue_bytes wrapped_queue ''cd''"
  using spsc_enqueue_bulk_is_concat [OF wrapped_queue_inv, of "[''c'', [], ''d'']"] by simp

text \<open>A bulk dequeue into blocks that are large enough fills them, in order, with the oldest
  bytes, and removes exactly those.\<close>

theorem spsc_dequeue_bulk_splits:
  assumes "spsc_inv q" and "sum_list (map (\<lambda>x. unat (snd x)) ds) = n" and "0 < n"
    and "n \<le> length (spsc_contents q)" and "list_all (\<lambda>(dst, n). unat n \<le> length dst) ds"
  shows "\<exists>q' outs. spsc_dequeue_bulk q ds = Some (Spsc_kOk, q', outs) \<and> length outs = length ds \<and>
           concat (map2 (\<lambda>(dst, n) out. take (unat n) out) ds outs) = take n (spsc_contents q) \<and>
           spsc_inv q' \<and> spsc_contents q' = drop n (spsc_contents q) \<and> spsc_cap q' = spsc_cap q"
  using assms by (rule spsc_dequeue_bulk_spec)

theorem spsc_dequeue_bulk_splits_witness:
  "\<exists>q' outs. spsc_dequeue_bulk wrapped_queue [(''-'', 1), (''-'', 1)] = Some (Spsc_kOk, q', outs) \<and>
     concat (map2 (\<lambda>(dst, n) out. take (unat n) out) [(''-'', 1 :: size_t), (''-'', 1)] outs) = ''ab'' \<and>
     spsc_contents q' = []"
  using spsc_dequeue_bulk_splits [OF wrapped_queue_inv, of "[(''-'', 1), (''-'', 1)]" 2]
  by (auto simp: wrapped_queue_contents)

text \<open>C15: reserving up to \<open>2 ^ 63\<close> bytes either leaves the queue without storage (the allocation
  failed) or puts an empty queue in service whose capacity is a power of two that is at least what
  was asked for; a larger request shifts by the width of the type, which is undefined.\<close>

theorem spsc_reserve_correct:
  assumes "memalign_contract pm"
  shows "if unat n \<le> 2 ^ 63
         then \<exists>q'. spsc_reserve pm q n = Some q' \<and> spsc_contents q' = [] \<and>
                (case sq_buffer q' of None \<Rightarrow> sq_capacity q' = 0
                 | Some _ \<Rightarrow> spsc_inv q' \<and> unat n \<le> spsc_cap q')
         else spsc_reserve pm q n = None"
  using spsc_reserve_spec [OF assms, of n q] next_power_of_2_overflow [of n]
  by (simp add: spsc_reserve_def)

theorem spsc_reserve_correct_witness:
  "\<exists>q'. spsc_reserve zero_memalign spsc_new 5 = Some q' \<and> spsc_contents q' = [] \<and>
     (case sq_buffer q' of None \<Rightarrow> sq_capacity q' = 0 | Some _ \<Rightarrow> spsc_inv q' \<and> 5 \<le> spsc_cap q')"
  using spsc_reserve_correct [OF zero_memalign_contract, of 5 spsc_new] by (auto split: option.splits)

text \<open>In a queue in service the size queries agree with the contents and with each other.\<close>

theorem spsc_size_queries:
  assumes "spsc_inv q"
  shows "unat (spsc_size q) = length (spsc_contents q) \<and> (spsc_empty q \<longleftrightarrow> spsc_contents q = []) \<and>
         unat (spsc_available_space q) = spsc_cap q - length (spsc_contents q)"
proof -
  have hc: "sq_head_cached q = sq_head_idx q" using assms by (simp add: spsc_inv_def)
  have size: "unat (spsc_size q) = length (spsc_contents q)"
    using hc by (simp add: spsc_size_def spsc_length_contents [OF assms])
  have "spsc_empty q \<longleftrightarrow> spsc_size q = 0"
    by (auto simp: spsc_empty_def spsc_size_def)
  also have "\<dots> \<longleftrightarrow> spsc_contents q = []"
    using size by (simp add: unat_eq_zero [symmetric])
  finally show ?thesis using size spsc_contents_bound [OF assms]
    by (simp add: spsc_available_space_def unat_sub word_le_nat_alt spsc_cap_def)
qed

theorem spsc_size_queries_witness:
  "unat (spsc_size wrapped_queue) = 2 \<and> \<not> spsc_empty wrapped_queue \<and>
   unat (spsc_available_space wrapped_queue) = 2"
  using spsc_size_queries [OF wrapped_queue_inv] by (simp add: wrapped_queue_contents)

end
