(* ===== verification/Spmc_Queue.thy ===== *)
theory Spmc_Queue
  imports Byte_Queue Memory_Util
begin

unbundle bit_operations_syntax

text \<open>
  The single-producer multi-consumer queue of \<^verbatim>\<open>src/src/logging/impl/spmc_queue.cc\<close> and its
  header. The first part has one definition per member function, each executed as one call
  that no other call interleaves with, and shows that such calls implement the byte queue
  interface. The second part splits \<^verbatim>\<open>enqueue_bytes\<close> and \<^verbatim>\<open>dequeue_bytes\<close> at their atomic
  accesses into the steps of a machine with one producer and any number of consumers.
\<close>

datatype spmc_status =
  Spmc_kOk | Spmc_kUninitialized | Spmc_kUnderflow | Spmc_kOverflow | Spmc_kSizeIsZero

record spmc_queue =
  mq_buffer :: "byte list option"
  mq_capacity :: size_t
  mq_mask :: size_t
  mq_tail_idx :: size_t
  mq_head_idx :: size_t
  mq_commit_idx :: size_t
  mq_allocation_size :: size_t

definition spmc_new :: spmc_queue where
  "spmc_new = \<lparr>mq_buffer = None, mq_capacity = 0, mq_mask = 0, mq_tail_idx = 0,
     mq_head_idx = 0, mq_commit_idx = 0, mq_allocation_size = 0\<rparr>"

definition spmc_reserve :: "memalign \<Rightarrow> spmc_queue \<Rightarrow> size_t \<Rightarrow> spmc_queue option" where
  "spmc_reserve pm q capacity_bytes = do {
     capacity \<leftarrow> next_power_of_2 capacity_bytes;
     let alloc_size = capacity + kCacheSize;
     (case aligned_alloc_wrapper pm kCacheSize alloc_size of
        None \<Rightarrow> Some (q\<lparr>mq_buffer := None, mq_capacity := 0, mq_mask := 0, mq_allocation_size := 0,
          mq_head_idx := 0, mq_tail_idx := 0, mq_commit_idx := 0\<rparr>)
      | Some new_buffer \<Rightarrow> Some (q\<lparr>mq_buffer := Some new_buffer, mq_capacity := capacity,
          mq_mask := capacity - 1, mq_allocation_size := alloc_size,
          mq_head_idx := 0, mq_tail_idx := 0, mq_commit_idx := 0\<rparr>))
   }"

text \<open>The producer's admission check and its publication of the new tail.\<close>

definition spmc_admit :: "spmc_queue \<Rightarrow> size_t \<Rightarrow> bool" where
  "spmc_admit q n =
     (let current_tail = mq_tail_idx q;
          current_commit = mq_commit_idx q;
          used_space = current_tail - current_commit
      in \<not> mq_capacity q - used_space < n)"

definition spmc_publish :: "spmc_queue \<Rightarrow> size_t \<Rightarrow> spmc_queue" where
  "spmc_publish q n = q\<lparr>mq_tail_idx := mq_tail_idx q + n\<rparr>"

definition spmc_enqueue_bytes ::
  "spmc_queue \<Rightarrow> byte list \<Rightarrow> (spmc_status \<times> spmc_queue) option" where
  "spmc_enqueue_bytes q data =
     (case mq_buffer q of
        None \<Rightarrow> Some (Spmc_kUninitialized, q)
      | Some buf \<Rightarrow>
          let data_size = of_nat (length data) :: size_t in
          if data_size = 0 then Some (Spmc_kSizeIsZero, q)
          else if \<not> spmc_admit q data_size then Some (Spmc_kOverflow, q)
          else do {
            buf' \<leftarrow> ring_store buf (mq_mask q) (mq_tail_idx q) data;
            Some (Spmc_kOk, spmc_publish (q\<lparr>mq_buffer := Some buf'\<rparr>) data_size)
          })"

text \<open>
  A consumer draws a ticket, which moves the head, and gives it back when the tail shows
  too little data; \<^verbatim>\<open>commit_idx_\<close> advances in ticket order.
\<close>

definition spmc_draw_ticket :: "spmc_queue \<Rightarrow> size_t \<Rightarrow> size_t \<times> spmc_queue" where
  "spmc_draw_ticket q n = (mq_head_idx q, q\<lparr>mq_head_idx := mq_head_idx q + n\<rparr>)"

definition spmc_avail :: "spmc_queue \<Rightarrow> size_t \<Rightarrow> size_t \<Rightarrow> bool" where
  "spmc_avail q ticket n \<longleftrightarrow> \<not> mq_tail_idx q - ticket < n"

definition spmc_rewind :: "spmc_queue \<Rightarrow> size_t \<Rightarrow> spmc_queue" where
  "spmc_rewind q n = q\<lparr>mq_head_idx := mq_head_idx q - n\<rparr>"

text \<open>One compare-and-exchange of the commit index.\<close>

definition spmc_try_commit :: "spmc_queue \<Rightarrow> size_t \<Rightarrow> size_t \<Rightarrow> spmc_queue option" where
  "spmc_try_commit q ticket n =
     (if mq_commit_idx q = ticket then Some (q\<lparr>mq_commit_idx := ticket + n\<rparr>) else None)"

text \<open>
  In a call that nothing interleaves with, the loop around the compare-and-exchange ends in
  its first round or never: \<open>None\<close> is a call that leaves its memory or does not return.
\<close>

definition spmc_dequeue_bytes ::
  "spmc_queue \<Rightarrow> byte list \<Rightarrow> size_t \<Rightarrow> (spmc_status \<times> spmc_queue \<times> byte list) option" where
  "spmc_dequeue_bytes q dst data_size =
     (case mq_buffer q of
        None \<Rightarrow> Some (Spmc_kUninitialized, q, dst)
      | Some buf \<Rightarrow>
          if data_size = 0 then Some (Spmc_kSizeIsZero, q, dst)
          else let (ticket, q1) = spmc_draw_ticket q data_size in
          if \<not> spmc_avail q1 ticket data_size
          then Some (Spmc_kUnderflow, spmc_rewind q1 data_size, dst)
          else do {
            dst' \<leftarrow> ring_load buf (mq_mask q1) ticket dst data_size;
            q2 \<leftarrow> spmc_try_commit q1 ticket data_size;
            Some (Spmc_kOk, q2, dst')
          })"

definition spmc_peek_bytes ::
  "spmc_queue \<Rightarrow> byte list \<Rightarrow> size_t \<Rightarrow> (spmc_status \<times> byte list) option" where
  "spmc_peek_bytes q dst data_size =
     (case mq_buffer q of
        None \<Rightarrow> Some (Spmc_kUninitialized, dst)
      | Some buf \<Rightarrow>
          if data_size = 0 then Some (Spmc_kSizeIsZero, dst)
          else let current_commit = mq_commit_idx q; current_tail = mq_tail_idx q in
          if current_tail - current_commit < data_size then Some (Spmc_kUnderflow, dst)
          else do {
            dst' \<leftarrow> ring_load buf (mq_mask q) current_commit dst data_size;
            Some (Spmc_kOk, dst')
          })"

definition spmc_empty :: "spmc_queue \<Rightarrow> bool" where
  "spmc_empty q \<longleftrightarrow> mq_head_idx q = mq_tail_idx q"

definition spmc_size :: "spmc_queue \<Rightarrow> size_t" where
  "spmc_size q = mq_tail_idx q - mq_head_idx q"

definition spmc_available_space :: "spmc_queue \<Rightarrow> size_t" where
  "spmc_available_space q = mq_capacity q - spmc_size q"

definition spmc_enqueue_bulk ::
  "spmc_queue \<Rightarrow> byte list list \<Rightarrow> (spmc_status \<times> spmc_queue) option" where
  "spmc_enqueue_bulk q datas =
     (case mq_buffer q of
        None \<Rightarrow> Some (Spmc_kUninitialized, q)
      | Some buf \<Rightarrow>
          if datas = [] then Some (Spmc_kSizeIsZero, q)
          else let total_sz = total_size (map (\<lambda>d. of_nat (length d)) datas) 0 in
          if total_sz = 0 then Some (Spmc_kSizeIsZero, q)
          else if \<not> spmc_admit q total_sz then Some (Spmc_kOverflow, q)
          else do {
            buf' \<leftarrow> store_all buf (mq_mask q) (mq_tail_idx q) 0 datas;
            Some (Spmc_kOk, spmc_publish (q\<lparr>mq_buffer := Some buf'\<rparr>) total_sz)
          })"

definition spmc_dequeue_bulk ::
  "spmc_queue \<Rightarrow> (byte list \<times> size_t) list \<Rightarrow>
   (spmc_status \<times> spmc_queue \<times> byte list list) option" where
  "spmc_dequeue_bulk q dsts =
     (case mq_buffer q of
        None \<Rightarrow> Some (Spmc_kUninitialized, q, map fst dsts)
      | Some buf \<Rightarrow>
          if dsts = [] then Some (Spmc_kSizeIsZero, q, map fst dsts)
          else let total_sz = total_size (map snd dsts) 0 in
          if total_sz = 0 then Some (Spmc_kSizeIsZero, q, map fst dsts)
          else let (ticket, q1) = spmc_draw_ticket q total_sz in
          if \<not> spmc_avail q1 ticket total_sz
          then Some (Spmc_kUnderflow, spmc_rewind q1 total_sz, map fst dsts)
          else do {
            dsts' \<leftarrow> load_all buf (mq_mask q1) ticket 0 dsts;
            q2 \<leftarrow> spmc_try_commit q1 ticket total_sz;
            Some (Spmc_kOk, q2, dsts')
          })"

subsection \<open>Quiescent queues: calls that do not interleave\<close>

text \<open>Between calls every ticket has been committed or given back.\<close>

definition spmc_inv :: "spmc_queue \<Rightarrow> bool" where
  "spmc_inv q \<longleftrightarrow>
     (case mq_buffer q of None \<Rightarrow> False | Some buf \<Rightarrow> unat (mq_capacity q) \<le> length buf) \<and>
     ring_capacity (mq_capacity q) \<and> mq_mask q = mq_capacity q - 1 \<and>
     mq_commit_idx q = mq_head_idx q \<and> mq_tail_idx q - mq_head_idx q \<le> mq_capacity q"

definition spmc_contents :: "spmc_queue \<Rightarrow> byte list" where
  "spmc_contents q =
     (case mq_buffer q of None \<Rightarrow> []
      | Some buf \<Rightarrow> ring_read buf (unat (mq_capacity q)) (unat (mq_head_idx q))
                     (unat (mq_tail_idx q - mq_head_idx q)))"

definition spmc_cap :: "spmc_queue \<Rightarrow> nat" where
  "spmc_cap q = unat (mq_capacity q)"

text \<open>A queue of four bytes whose tail has wrapped around \<open>2 ^ 64\<close> and whose head has not.\<close>

definition wrapped_spmc :: spmc_queue where
  "wrapped_spmc = \<lparr>mq_buffer = Some ''bxya'', mq_capacity = 4, mq_mask = 3, mq_tail_idx = 1,
     mq_head_idx = 0xFFFFFFFFFFFFFFFF, mq_commit_idx = 0xFFFFFFFFFFFFFFFF, mq_allocation_size = 68\<rparr>"

lemma wrapped_spmc_inv: "spmc_inv wrapped_spmc"
  by (auto simp: spmc_inv_def wrapped_spmc_def ring_capacity_def intro!: bexI [of _ 2])

lemma wrapped_spmc_contents: "spmc_contents wrapped_spmc = ''ab''" "spmc_cap wrapped_spmc = 4"
  by (simp_all add: spmc_contents_def spmc_cap_def wrapped_spmc_def ring_read_def upt_conv_Cons)

lemma spmc_invE:
  assumes "spmc_inv q"
  obtains buf k where "mq_buffer q = Some buf" "1 \<le> k" "k < 64" "mq_capacity q = 2 ^ k"
    "unat (mq_capacity q) = 2 ^ k" "spmc_cap q = 2 ^ k" "mq_mask q = 2 ^ k - 1" "2 ^ k \<le> length buf"
    "unat (mq_tail_idx q - mq_head_idx q) \<le> 2 ^ k" "mq_commit_idx q = mq_head_idx q"
proof -
  from assms obtain k where k: "1 \<le> k" "k < 64" "mq_capacity q = 2 ^ k" "unat (mq_capacity q) = 2 ^ k"
    by (auto simp: spmc_inv_def elim: ring_capacityE)
  with assms show thesis
    by (auto simp: spmc_inv_def spmc_cap_def word_le_nat_alt ring_simps split: option.splits intro: that [of _ k])
qed

lemma spmc_length_contents:
  "spmc_inv q \<Longrightarrow> length (spmc_contents q) = unat (mq_tail_idx q - mq_head_idx q)"
  by (auto simp: spmc_contents_def spmc_inv_def split: option.splits)

lemma spmc_contents_bound: "spmc_inv q \<Longrightarrow> length (spmc_contents q) \<le> spmc_cap q"
  by (auto simp: spmc_length_contents elim!: spmc_invE)

lemma spmc_cap_bound: "spmc_inv q \<Longrightarrow> spmc_cap q \<le> 2 ^ 63"
  using ring_capacity_bound [of "mq_capacity q"] by (simp add: spmc_inv_def spmc_cap_def)

lemma spmc_admit_iff:
  assumes inv: "spmc_inv q"
  shows "spmc_admit q n \<longleftrightarrow> length (spmc_contents q) + unat n \<le> spmc_cap q"
proof -
  have u: "unat (mq_tail_idx q - mq_head_idx q) \<le> unat (mq_capacity q)"
    and c: "mq_commit_idx q = mq_head_idx q"
    using inv by (auto simp: spmc_inv_def word_le_nat_alt)
  show ?thesis using free_less_iff [OF u, of n] c
    by (auto simp: spmc_admit_def Let_def spmc_length_contents [OF inv] spmc_cap_def)
qed

lemma spmc_avail_iff:
  "spmc_inv q \<Longrightarrow> spmc_avail q (mq_head_idx q) n \<longleftrightarrow> unat n \<le> length (spmc_contents q)"
  by (auto simp: spmc_avail_def spmc_length_contents word_less_nat_alt)

lemma spmc_publish_spec:
  assumes inv: "spmc_inv q" and buf: "mq_buffer q = Some buf"
    and st: "stored_at buf buf' (spmc_cap q) (unat (mq_tail_idx q)) d"
    and n: "unat n = length d" and fits: "length (spmc_contents q) + length d \<le> spmc_cap q"
  defines "q' \<equiv> spmc_publish (q\<lparr>mq_buffer := Some buf'\<rparr>) n"
  shows "spmc_inv q'" "spmc_contents q' = spmc_contents q @ d" "spmc_cap q' = spmc_cap q"
proof -
  from inv obtain k where k: "k < 64" "unat (mq_capacity q) = 2 ^ k" "spmc_cap q = 2 ^ k" "2 ^ k \<le> length buf"
    using buf by (elim spmc_invE) auto
  have cap: "spmc_cap q < 2 ^ 64" using spmc_cap_bound [OF inv] by (rule le_less_trans) simp
  note len = spmc_length_contents [OF inv]
  have sh: "unat (mq_tail_idx q + n - mq_head_idx q) = unat (mq_tail_idx q - mq_head_idx q) + length d"
    using fits cap len n by (subst unat_diff_shift; simp)
  show "spmc_inv q'" using inv buf k sh fits len st
    by (simp add: spmc_inv_def q'_def spmc_publish_def word_le_nat_alt stored_at_def)
  have "unat (mq_tail_idx q) mod 2 ^ k = (unat (mq_head_idx q) + unat (mq_tail_idx q - mq_head_idx q)) mod 2 ^ k"
    using unat_plus_mod_cap [OF k(1), of "mq_head_idx q" "mq_tail_idx q - mq_head_idx q"] by simp
  then have "stored_at buf buf' (2 ^ k) (unat (mq_head_idx q) + unat (mq_tail_idx q - mq_head_idx q)) d"
    using st k stored_at_mod by metis
  from ring_read_stored [OF this] show "spmc_contents q' = spmc_contents q @ d"
    using buf k sh fits len by (simp add: spmc_contents_def q'_def spmc_publish_def)
  show "spmc_cap q' = spmc_cap q" by (simp add: q'_def spmc_publish_def spmc_cap_def)
qed

lemma spmc_load_eq:
  assumes inv: "spmc_inv q" and buf: "mq_buffer q = Some buf" and n: "unat n \<le> length (spmc_contents q)"
  shows "ring_load buf (mq_mask q) (mq_head_idx q) dst n = memcpy dst 0 (take (unat n) (spmc_contents q))"
proof -
  from inv buf obtain k where k: "k < 64" "unat (mq_capacity q) = 2 ^ k" "mq_mask q = 2 ^ k - 1" "2 ^ k \<le> length buf"
    "spmc_cap q = 2 ^ k" by (elim spmc_invE) auto
  have "unat n \<le> 2 ^ k" using n spmc_contents_bound [OF inv] k(5) by linarith
  moreover have "ring_read buf (2 ^ k) (unat (mq_head_idx q)) (unat n) = take (unat n) (spmc_contents q)"
    using n k(2) ring_read_prefix [of "unat n" "length (spmc_contents q)" buf]
    by (simp add: spmc_contents_def buf)
  ultimately show ?thesis using k by (simp add: ring_load_eq)
qed

text \<open>A ticket that is drawn and committed removes the oldest bytes; one that is drawn and given
  back leaves the queue as it was.\<close>

lemma spmc_commit_spec:
  assumes inv: "spmc_inv q" and n: "unat n \<le> length (spmc_contents q)"
  shows "\<exists>q'. spmc_try_commit (snd (spmc_draw_ticket q n)) (mq_head_idx q) n = Some q' \<and> spmc_inv q' \<and>
           spmc_contents q' = drop (unat n) (spmc_contents q) \<and> spmc_cap q' = spmc_cap q"
proof -
  from inv obtain buf k where k: "mq_buffer q = Some buf" "k < 64" "unat (mq_capacity q) = 2 ^ k"
    "mq_commit_idx q = mq_head_idx q" by (elim spmc_invE) auto
  have le: "unat n \<le> unat (mq_tail_idx q - mq_head_idx q)" using n spmc_length_contents [OF inv] by simp
  note dr = unat_diff_drop [OF le]
  let ?q = "q\<lparr>mq_head_idx := mq_head_idx q + n, mq_commit_idx := mq_head_idx q + n\<rparr>"
  have "spmc_inv ?q" using inv k dr by (auto simp: spmc_inv_def word_le_nat_alt)
  moreover have "ring_read buf (2 ^ k) (unat (mq_head_idx q + n)) (unat (mq_tail_idx q - mq_head_idx q) - unat n) =
        ring_read buf (2 ^ k) (unat (mq_head_idx q) + unat n) (unat (mq_tail_idx q - mq_head_idx q) - unat n)"
    using k(2) by (intro ring_read_cong_pos unat_plus_mod_cap)
  then have "spmc_contents ?q = drop (unat n) (spmc_contents q)"
    using k dr le by (simp add: spmc_contents_def ring_read_drop)
  ultimately show ?thesis using k by (simp add: spmc_try_commit_def spmc_draw_ticket_def spmc_cap_def)
qed

lemma spmc_rewind_draw: "spmc_rewind (snd (spmc_draw_ticket q n)) n = q"
  by (simp add: spmc_rewind_def spmc_draw_ticket_def)

lemma spmc_draw_simps [simp]:
  "spmc_avail (snd (spmc_draw_ticket q n)) t m = spmc_avail q t m"
  "mq_mask (snd (spmc_draw_ticket q n)) = mq_mask q"
  by (simp_all add: spmc_avail_def spmc_draw_ticket_def)

lemma fst_spmc_draw [simp]: "fst (spmc_draw_ticket q n) = mq_head_idx q"
  by (simp add: spmc_draw_ticket_def)

lemma spmc_enqueue_fits:
  assumes inv: "spmc_inv q" and d: "d \<noteq> []" "length (spmc_contents q) + length d \<le> spmc_cap q"
  shows "\<exists>q'. spmc_enqueue_bytes q d = Some (Spmc_kOk, q') \<and> spmc_inv q' \<and>
           spmc_contents q' = spmc_contents q @ d \<and> spmc_cap q' = spmc_cap q"
proof -
  from inv obtain buf k where buf: "mq_buffer q = Some buf"
    and k: "k < 64" "mq_mask q = 2 ^ k - 1" "2 ^ k \<le> length buf" "spmc_cap q = 2 ^ k" by (elim spmc_invE)
  have "length d < 2 ^ 64" using d(2) spmc_cap_bound [OF inv] by simp
  note sz = unat_of_length [OF this] of_length_eq_0 [OF this]
  obtain buf' where st: "ring_store buf (mq_mask q) (mq_tail_idx q) d = Some buf'"
    "stored_at buf buf' (spmc_cap q) (unat (mq_tail_idx q)) d"
    using ring_store_spec [OF k(1,3), of d "mq_tail_idx q"] k d(2) by auto
  note p = spmc_publish_spec [OF inv buf st(2) sz(1) d(2)]
  show ?thesis using p buf d sz st spmc_admit_iff [OF inv] by (simp add: spmc_enqueue_bytes_def)
qed

lemma spmc_enqueue_full:
  assumes inv: "spmc_inv q" and d: "length d < 2 ^ 64" "spmc_cap q < length (spmc_contents q) + length d"
  shows "spmc_enqueue_bytes q d = Some (Spmc_kOverflow, q)"
proof -
  from inv obtain buf where "mq_buffer q = Some buf" by (elim spmc_invE)
  moreover have "d \<noteq> []" using d(2) spmc_contents_bound [OF inv] by auto
  ultimately show ?thesis
    using d unat_of_length [OF d(1)] of_length_eq_0 [OF d(1)] spmc_admit_iff [OF inv]
    by (simp add: spmc_enqueue_bytes_def)
qed

lemma spmc_dequeue_cases:
  assumes inv: "spmc_inv q" and n: "n \<noteq> 0" and len: "unat n \<le> length (spmc_contents q)"
  shows "\<exists>q'. spmc_dequeue_bytes q dst n =
             map_option (\<lambda>dst'. (Spmc_kOk, q', dst')) (memcpy dst 0 (take (unat n) (spmc_contents q))) \<and>
           spmc_inv q' \<and> spmc_contents q' = drop (unat n) (spmc_contents q) \<and> spmc_cap q' = spmc_cap q"
proof -
  from inv obtain buf where buf: "mq_buffer q = Some buf" by (elim spmc_invE)
  obtain q1 where q1: "spmc_draw_ticket q n = (mq_head_idx q, q1)" by (simp add: spmc_draw_ticket_def)
  from spmc_commit_spec [OF inv len] q1 obtain q' where
    "spmc_try_commit q1 (mq_head_idx q) n = Some q'" "spmc_inv q'"
    "spmc_contents q' = drop (unat n) (spmc_contents q)" "spmc_cap q' = spmc_cap q" by auto
  moreover have "spmc_avail q1 (mq_head_idx q) n" "mq_mask q1 = mq_mask q"
    using spmc_draw_simps [of q n] q1 spmc_avail_iff [OF inv] len by simp_all
  ultimately show ?thesis using buf n spmc_load_eq [OF inv buf len] q1
    by (intro exI [of _ q']) (simp add: spmc_dequeue_bytes_def map_conv_bind_option comp_def)
qed

lemma spmc_dequeue_short:
  assumes inv: "spmc_inv q" and len: "length (spmc_contents q) < unat n"
  shows "spmc_dequeue_bytes q dst n = Some (Spmc_kUnderflow, q, dst)"
proof -
  from inv obtain buf where buf: "mq_buffer q = Some buf" by (elim spmc_invE)
  have n: "n \<noteq> 0" using len by auto
  obtain q1 where q1: "spmc_draw_ticket q n = (mq_head_idx q, q1)" by (simp add: spmc_draw_ticket_def)
  then have "\<not> spmc_avail q1 (mq_head_idx q) n" "spmc_rewind q1 n = q"
    using spmc_draw_simps [of q n] spmc_rewind_draw [of q n] spmc_avail_iff [OF inv] len by simp_all
  then show ?thesis using buf n q1 by (simp add: spmc_dequeue_bytes_def)
qed

lemma spmc_peek_eq:
  assumes inv: "spmc_inv q" and n: "n \<noteq> 0"
  shows "spmc_peek_bytes q dst n =
           (if unat n \<le> length (spmc_contents q)
            then map_option (Pair Spmc_kOk) (memcpy dst 0 (take (unat n) (spmc_contents q)))
            else Some (Spmc_kUnderflow, dst))"
proof -
  from inv obtain buf where buf: "mq_buffer q = Some buf" and c: "mq_commit_idx q = mq_head_idx q"
    by (elim spmc_invE)
  have "mq_tail_idx q - mq_head_idx q < n \<longleftrightarrow> \<not> unat n \<le> length (spmc_contents q)"
    by (auto simp: spmc_length_contents [OF inv] word_less_nat_alt)
  then show ?thesis using buf c n spmc_load_eq [OF inv buf, of n dst]
    by (auto simp: spmc_peek_bytes_def map_conv_bind_option comp_def)
qed

interpretation spmc: byte_queue spmc_enqueue_bytes spmc_dequeue_bytes spmc_peek_bytes
  Spmc_kOk Spmc_kUnderflow Spmc_kOverflow spmc_inv spmc_contents spmc_cap
proof
  fix q d dst and n :: size_t
  show "spmc_inv q \<Longrightarrow> length (spmc_contents q) \<le> spmc_cap q \<and> spmc_cap q < 2 ^ 64"
    using spmc_contents_bound [of q] spmc_cap_bound [of q] by auto
  show "spmc_inv q \<Longrightarrow> length (spmc_contents q) < unat n \<Longrightarrow>
      spmc_peek_bytes q dst n = Some (Spmc_kUnderflow, dst)"
    using spmc_peek_eq [of q n dst] by (cases "n = 0") auto
  assume inv: "spmc_inv q" and n: "n \<noteq> 0" "unat n \<le> length (spmc_contents q)"
  note deq = spmc_dequeue_cases [OF inv n, of dst] and peek = spmc_peek_eq [OF inv n(1), of dst]
  have min: "min (length (spmc_contents q)) (unat n) = unat n" using n(2) by simp
  show "\<exists>q'. spmc_dequeue_bytes q dst n = Some (Spmc_kOk, q', take (unat n) (spmc_contents q) @ drop (unat n) dst) \<and>
          spmc_inv q' \<and> spmc_contents q' = drop (unat n) (spmc_contents q) \<and> spmc_cap q' = spmc_cap q"
    if "unat n \<le> length dst" using deq that min by (auto simp: memcpy_def)
  show "spmc_dequeue_bytes q dst n = None" if "length dst < unat n"
    using deq that min by (auto simp: memcpy_def)
  show "spmc_peek_bytes q dst n = Some (Spmc_kOk, take (unat n) (spmc_contents q) @ drop (unat n) dst)"
    if "unat n \<le> length dst" using peek n that min by (auto simp: memcpy_def)
qed (use spmc_enqueue_fits spmc_enqueue_full spmc_dequeue_short in auto)

lemma spmc_enqueue_bulk_eq:
  assumes inv: "spmc_inv q" and len: "length (concat ds) < 2 ^ 64"
  shows "spmc_enqueue_bulk q ds = spmc_enqueue_bytes q (concat ds)"
proof (cases "concat ds = []")
  case True
  then have "total_size (map (\<lambda>d. of_nat (length d)) ds) 0 = 0"
    unfolding total_size_lengths True by simp
  then show ?thesis unfolding True
    by (simp add: spmc_enqueue_bulk_def spmc_enqueue_bytes_def split: option.splits)
next
  case False
  from inv obtain buf k where buf: "mq_buffer q = Some buf"
    and k: "k < 64" "spmc_cap q = 2 ^ k" "2 ^ k \<le> length buf" "mq_mask q = 2 ^ k - 1"
    by (elim spmc_invE)
  let ?n = "of_nat (length (concat ds)) :: size_t"
  have n: "?n \<noteq> 0" "unat ?n = length (concat ds)" using of_length_eq_0 [OF len] unat_of_length [OF len] False by auto
  have "store_all buf (mq_mask q) (mq_tail_idx q) 0 ds = ring_store buf (mq_mask q) (mq_tail_idx q) (concat ds)"
    if "spmc_admit q ?n"
  proof -
    have fit: "length (concat ds) \<le> 2 ^ k" using that spmc_admit_iff [OF inv] n k by simp
    show ?thesis
      using store_all_spec [OF k(1,3) fit, of "mq_tail_idx q" 0] ring_store_spec [OF k(1,3) fit, of "mq_tail_idx q"] k(4)
      by (auto dest: stored_at_unique)
  qed
  moreover have "ds \<noteq> []" using False by auto
  ultimately show ?thesis using buf n total_size_lengths [of ds 0]
    by (auto simp: spmc_enqueue_bulk_def spmc_enqueue_bytes_def Let_def)
qed

lemma spmc_dequeue_bulk_spec:
  assumes inv: "spmc_inv q" and sum: "sum_list (map (\<lambda>x. unat (snd x)) ds) = n" "0 < n" "n \<le> length (spmc_contents q)"
    and fits: "list_all (\<lambda>(dst, n). unat n \<le> length dst) ds"
  shows "\<exists>q' outs. spmc_dequeue_bulk q ds = Some (Spmc_kOk, q', outs) \<and> length outs = length ds \<and>
           concat (map2 (\<lambda>(dst, n) out. take (unat n) out) ds outs) = take n (spmc_contents q) \<and>
           spmc_inv q' \<and> spmc_contents q' = drop n (spmc_contents q) \<and> spmc_cap q' = spmc_cap q"
proof -
  from inv obtain buf k where buf: "mq_buffer q = Some buf" and
    k: "k < 64" "unat (mq_capacity q) = 2 ^ k" "mq_mask q = 2 ^ k - 1" "2 ^ k \<le> length buf" "spmc_cap q = 2 ^ k"
    by (elim spmc_invE)
  have n64: "n < 2 ^ 64" using sum spmc_contents_bound [OF inv] spmc_cap_bound [OF inv] by simp
  let ?t = "total_size (map snd ds) 0"
  have t: "unat ?t = n" using total_size_nat [of 0 "map snd ds"] sum n64 by (simp add: comp_def)
  then have t0: "?t \<noteq> 0" using sum(2) by (metis less_irrefl unat_0)
  obtain q1 where q1: "spmc_draw_ticket q ?t = (mq_head_idx q, q1)" by (simp add: spmc_draw_ticket_def)
  have len: "unat ?t \<le> length (spmc_contents q)" using t sum by simp
  from spmc_commit_spec [OF inv len] q1 obtain q' where q':
    "spmc_try_commit q1 (mq_head_idx q) ?t = Some q'" "spmc_inv q'"
    "spmc_contents q' = drop n (spmc_contents q)" "spmc_cap q' = spmc_cap q" using t by auto
  have av: "spmc_avail q1 (mq_head_idx q) ?t" "mq_mask q1 = mq_mask q"
    using spmc_draw_simps [of q ?t] q1 spmc_avail_iff [OF inv] len by simp_all
  have "sum_list (map (\<lambda>x. unat (snd x)) ds) \<le> 2 ^ k"
    using sum spmc_contents_bound [OF inv] k(5) by simp
  from load_all_spec [OF k(1,4) this fits, of "mq_head_idx q" 0] obtain outs where outs:
    "load_all buf (mq_mask q) (mq_head_idx q) 0 ds = Some outs" "length outs = length ds"
    "concat (map2 (\<lambda>(dst, n) out. take (unat n) out) ds outs) =
       ring_read buf (2 ^ k) (unat (mq_head_idx q)) n" using k(3) sum by auto
  have "ring_read buf (2 ^ k) (unat (mq_head_idx q)) n = take n (spmc_contents q)"
    using ring_read_prefix [of n "length (spmc_contents q)" buf] buf sum(3) k(2)
      spmc_length_contents [OF inv] by (simp add: spmc_contents_def)
  moreover have "ds \<noteq> []" using sum(1,2) by auto
  ultimately show ?thesis using buf outs q' q1 av t0 by (auto simp: spmc_dequeue_bulk_def)
qed

lemma spmc_reserve_spec:
  assumes pm: "memalign_contract pm" and n: "unat n \<le> 2 ^ 63"
  shows "\<exists>q'. spmc_reserve pm q n = Some q' \<and> spmc_contents q' = [] \<and>
           (case mq_buffer q' of None \<Rightarrow> mq_capacity q' = 0
            | Some _ \<Rightarrow> spmc_inv q' \<and> unat n \<le> spmc_cap q')"
proof -
  obtain c where c: "next_power_of_2 n = Some c" "ring_capacity c" "unat n \<le> unat c"
    using next_power_of_2_spec [OF n] by blast
  show ?thesis
  proof (cases "aligned_alloc_wrapper pm kCacheSize (c + kCacheSize)")
    case None
    then show ?thesis using c by (simp add: spmc_reserve_def spmc_contents_def)
  next
    case (Some b)
    then have "unat c \<le> length b" using aligned_alloc_room [OF pm c(2)] by simp
    then show ?thesis using Some c
      by (simp add: spmc_reserve_def spmc_contents_def spmc_inv_def spmc_cap_def)
  qed
qed

lemma spmc_size_spec:
  assumes inv: "spmc_inv q"
  shows "unat (spmc_size q) = length (spmc_contents q)" "spmc_empty q \<longleftrightarrow> spmc_contents q = []"
    "unat (spmc_available_space q) = spmc_cap q - length (spmc_contents q)"
proof -
  show size: "unat (spmc_size q) = length (spmc_contents q)"
    by (simp add: spmc_size_def spmc_length_contents [OF inv])
  have "spmc_empty q \<longleftrightarrow> spmc_size q = 0" by (auto simp: spmc_empty_def spmc_size_def)
  also have "\<dots> \<longleftrightarrow> spmc_contents q = []" using size by (simp add: unat_eq_zero [symmetric])
  finally show "spmc_empty q \<longleftrightarrow> spmc_contents q = []" .
  show "unat (spmc_available_space q) = spmc_cap q - length (spmc_contents q)"
    using size spmc_contents_bound [OF inv]
    by (simp add: spmc_available_space_def unat_sub word_le_nat_alt spmc_cap_def)
qed

end
