(* ===== verification/Queue_Storage.thy ===== *)
theory Queue_Storage
  imports Spsc_Queue Spmc_Queue
begin

text \<open>
  The memory behind the queues: allocation and release of \<^verbatim>\<open>core/base/memory_util.h\<close>, and the two
  members of \<^verbatim>\<open>SpscQueue\<close> and \<^verbatim>\<open>SpmcQueue\<close> that hold an address, \<^verbatim>\<open>buffer_\<close>, through which the bytes are
  accessed, and \<^verbatim>\<open>buffer_deleter_\<close>, which owns them. A heap maps the addresses of live blocks to their
  bytes; 0 is the null pointer. Releasing a block that is not live, or accessing a queue whose
  buffer is not, has no value.
\<close>

type_synonym heap = "size_t \<Rightarrow> byte list option"

text \<open>\<^verbatim>\<open>posix_memalign\<close>: a return code, the address it stores, and the heap afterwards.\<close>

type_synonym heap_memalign = "heap \<Rightarrow> size_t \<Rightarrow> size_t \<Rightarrow> int \<times> size_t \<times> heap"

definition aligned_alloc_at :: "heap_memalign \<Rightarrow> heap \<Rightarrow> size_t \<Rightarrow> size_t \<Rightarrow> size_t \<times> heap" where
  "aligned_alloc_at pm h alignment sz =
     (let (rc, ptr, h) = pm h alignment sz in if rc \<noteq> 0 then (0, h) else (ptr, h))"

definition aligned_free_wrapper :: "heap \<Rightarrow> size_t \<Rightarrow> heap option" where
  "aligned_free_wrapper h ptr =
     (if ptr = 0 then Some h else if h ptr = None then None else Some (h(ptr := None)))"

definition aligned_deleter :: "heap \<Rightarrow> size_t \<Rightarrow> heap option" where
  "aligned_deleter h ptr = aligned_free_wrapper h ptr"

text \<open>
  A queue object in memory: the two addresses and the other members, in which the block itself is
  not stored. \<^verbatim>\<open>std::unique_ptr\<close>: \<^verbatim>\<open>reset\<close> stores the new pointer and calls the deleter on the old one
  unless it is null; so does the destructor without a new one.
\<close>

record 'q placed =
  pl_heap :: heap
  pl_buffer :: size_t
  pl_deleter :: size_t
  pl_queue :: 'q

definition deleter_reset :: "'q placed \<Rightarrow> size_t \<Rightarrow> 'q placed option" where
  "deleter_reset x p = do {
     let old = pl_deleter x;
     let x = x\<lparr>pl_deleter := p\<rparr>;
     (if old \<noteq> 0 then do { h \<leftarrow> aligned_deleter (pl_heap x) old; Some (x\<lparr>pl_heap := h\<rparr>) } else Some x)
   }"

definition placed_new :: "'q \<Rightarrow> heap \<Rightarrow> 'q placed" where
  "placed_new q h = \<lparr>pl_heap = h, pl_buffer = 0, pl_deleter = 0, pl_queue = q\<rparr>"

definition placed_destroy :: "'q placed \<Rightarrow> heap option" where
  "placed_destroy x = do { x \<leftarrow> deleter_reset x 0; Some (pl_heap x) }"

definition spsc_reserve_placed :: "heap_memalign \<Rightarrow> spsc_queue placed \<Rightarrow> size_t \<Rightarrow> spsc_queue placed option" where
  "spsc_reserve_placed pm x capacity_bytes = do {
     capacity \<leftarrow> next_power_of_2 capacity_bytes;
     let alloc_size = capacity + kCacheSize;
     let (new_buffer, h) = aligned_alloc_at pm (pl_heap x) kCacheSize alloc_size;
     let x = x\<lparr>pl_heap := h\<rparr>;
     (if new_buffer = 0 then do {
        x \<leftarrow> deleter_reset x 0;
        Some (x\<lparr>pl_buffer := 0, pl_queue := (pl_queue x)\<lparr>sq_capacity := 0, sq_mask := 0, sq_allocation_size := 0,
          sq_head_idx := 0, sq_tail_idx := 0, sq_head_cached := 0, sq_tail_cached := 0,
          sq_head_cached_snapshot := 0, sq_tail_cached_snapshot := 0\<rparr>\<rparr>)
      } else do {
        let x = x\<lparr>pl_buffer := new_buffer\<rparr>;
        x \<leftarrow> deleter_reset x new_buffer;
        Some (x\<lparr>pl_queue := (pl_queue x)\<lparr>sq_capacity := capacity, sq_mask := capacity - 1,
          sq_allocation_size := alloc_size,
          sq_head_idx := 0, sq_tail_idx := 0, sq_head_cached := 0, sq_tail_cached := 0,
          sq_head_cached_snapshot := 0, sq_tail_cached_snapshot := 0\<rparr>\<rparr>)
      })
   }"

definition spmc_reserve_placed :: "heap_memalign \<Rightarrow> spmc_queue placed \<Rightarrow> size_t \<Rightarrow> spmc_queue placed option" where
  "spmc_reserve_placed pm x capacity_bytes = do {
     capacity \<leftarrow> next_power_of_2 capacity_bytes;
     let alloc_size = capacity + kCacheSize;
     let (new_buffer, h) = aligned_alloc_at pm (pl_heap x) kCacheSize alloc_size;
     let x = x\<lparr>pl_heap := h\<rparr>;
     (if new_buffer = 0 then do {
        x \<leftarrow> deleter_reset x 0;
        Some (x\<lparr>pl_buffer := 0, pl_queue := (pl_queue x)\<lparr>mq_capacity := 0, mq_mask := 0, mq_allocation_size := 0,
          mq_head_idx := 0, mq_tail_idx := 0, mq_commit_idx := 0\<rparr>\<rparr>)
      } else do {
        let x = x\<lparr>pl_buffer := new_buffer\<rparr>;
        x \<leftarrow> deleter_reset x new_buffer;
        Some (x\<lparr>pl_queue := (pl_queue x)\<lparr>mq_capacity := capacity, mq_mask := capacity - 1,
          mq_allocation_size := alloc_size, mq_head_idx := 0, mq_tail_idx := 0, mq_commit_idx := 0\<rparr>\<rparr>)
      })
   }"

subsection \<open>Operations through the pointer\<close>

text \<open>
  An operation of a queue sees the block its buffer points to and leaves its result there.
  \<open>block\<close> and \<open>set_block\<close> read and replace the block in the record of the queue.
\<close>

definition dangling :: "'q placed \<Rightarrow> bool" where
  "dangling x \<longleftrightarrow> pl_buffer x \<noteq> 0 \<and> pl_heap x (pl_buffer x) = None"

definition placed_view :: "(byte list option \<Rightarrow> 'q \<Rightarrow> 'q) \<Rightarrow> 'q placed \<Rightarrow> 'q" where
  "placed_view set_block x =
     set_block (if pl_buffer x = 0 then None else pl_heap x (pl_buffer x)) (pl_queue x)"

definition placed_back :: "('q \<Rightarrow> byte list option) \<Rightarrow> 'q placed \<Rightarrow> 'q \<Rightarrow> 'q placed" where
  "placed_back block x q =
     x\<lparr>pl_heap := (if pl_buffer x = 0 then pl_heap x else (pl_heap x)(pl_buffer x := block q)), pl_queue := q\<rparr>"

definition placed_enqueue ::
  "('q \<Rightarrow> byte list option) \<Rightarrow> (byte list option \<Rightarrow> 'q \<Rightarrow> 'q) \<Rightarrow> ('q \<Rightarrow> byte list \<Rightarrow> ('s \<times> 'q) option) \<Rightarrow>
   'q placed \<Rightarrow> byte list \<Rightarrow> ('s \<times> 'q placed) option" where
  "placed_enqueue block set_block enq x d =
     (if dangling x then None
      else do { (st, q) \<leftarrow> enq (placed_view set_block x) d; Some (st, placed_back block x q) })"

definition placed_dequeue ::
  "('q \<Rightarrow> byte list option) \<Rightarrow> (byte list option \<Rightarrow> 'q \<Rightarrow> 'q) \<Rightarrow>
   ('q \<Rightarrow> byte list \<Rightarrow> size_t \<Rightarrow> ('s \<times> 'q \<times> byte list) option) \<Rightarrow>
   'q placed \<Rightarrow> byte list \<Rightarrow> size_t \<Rightarrow> ('s \<times> 'q placed \<times> byte list) option" where
  "placed_dequeue block set_block deq x dst n =
     (if dangling x then None
      else do { (st, q, out) \<leftarrow> deq (placed_view set_block x) dst n; Some (st, placed_back block x q, out) })"

definition placed_peek ::
  "(byte list option \<Rightarrow> 'q \<Rightarrow> 'q) \<Rightarrow> ('q \<Rightarrow> byte list \<Rightarrow> size_t \<Rightarrow> ('s \<times> byte list) option) \<Rightarrow>
   'q placed \<Rightarrow> byte list \<Rightarrow> size_t \<Rightarrow> ('s \<times> byte list) option" where
  "placed_peek set_block peek x dst n =
     (if dangling x then None else peek (placed_view set_block x) dst n)"

text \<open>The life of a queue object.\<close>

datatype storage_op = Reserve size_t | Queue_op queue_op

fun storage_op_ok :: "storage_op \<Rightarrow> bool" where
  "storage_op_ok (Reserve n) \<longleftrightarrow> unat n \<le> 2 ^ 63"
| "storage_op_ok (Queue_op op) \<longleftrightarrow> queue_op_ok op"

fun placed_step ::
  "('x \<Rightarrow> size_t \<Rightarrow> 'x option) \<Rightarrow> ('x \<Rightarrow> byte list \<Rightarrow> ('s \<times> 'x) option) \<Rightarrow>
   ('x \<Rightarrow> byte list \<Rightarrow> size_t \<Rightarrow> ('s \<times> 'x \<times> byte list) option) \<Rightarrow> 'x \<Rightarrow> storage_op \<Rightarrow> 'x option" where
  "placed_step res enq deq x (Reserve n) = res x n"
| "placed_step res enq deq x (Queue_op (Put d)) = map_option snd (enq x d)"
| "placed_step res enq deq x (Queue_op (Take n)) =
     map_option (\<lambda>(st, x, out). x) (deq x (replicate n (CHR 0x00)) (of_nat n))"

fun placed_run :: "('x \<Rightarrow> storage_op \<Rightarrow> 'x option) \<Rightarrow> 'x \<Rightarrow> storage_op list \<Rightarrow> 'x option" where
  "placed_run step x [] = Some x"
| "placed_run step x (op # ops) = do { x \<leftarrow> step x op; placed_run step x ops }"

definition spsc_life :: "heap_memalign \<Rightarrow> heap \<Rightarrow> storage_op list \<Rightarrow> spsc_queue placed option" where
  "spsc_life pm h = placed_run (placed_step (spsc_reserve_placed pm)
     (placed_enqueue sq_buffer (\<lambda>b. sq_buffer_update (\<lambda>_. b)) spsc_enqueue_bytes)
     (placed_dequeue sq_buffer (\<lambda>b. sq_buffer_update (\<lambda>_. b)) spsc_dequeue_bytes)) (placed_new spsc_new h)"

definition spmc_life :: "heap_memalign \<Rightarrow> heap \<Rightarrow> storage_op list \<Rightarrow> spmc_queue placed option" where
  "spmc_life pm h = placed_run (placed_step (spmc_reserve_placed pm)
     (placed_enqueue mq_buffer (\<lambda>b. mq_buffer_update (\<lambda>_. b)) spmc_enqueue_bytes)
     (placed_dequeue mq_buffer (\<lambda>b. mq_buffer_update (\<lambda>_. b)) spmc_dequeue_bytes)) (placed_new spmc_new h)"

subsection \<open>What the allocator promises\<close>

text \<open>
  A successful call gives an aligned address that is not null and not live and a block of the
  requested size there; a failed call changes nothing.
\<close>

definition alloc_contract :: "heap_memalign \<Rightarrow> bool" where
  "alloc_contract pm \<longleftrightarrow> (\<forall>h a s rc p h'. pm h a s = (rc, p, h') \<longrightarrow>
     (if rc = 0 then p \<noteq> 0 \<and> h p = None \<and> unat p mod unat a = 0 \<and> (\<exists>b. length b = unat s \<and> h' = h(p \<mapsto> b))
      else h' = h))"

text \<open>An allocator with one place, at address 4096.\<close>

definition one_block :: heap_memalign where
  "one_block h a s =
     (if h 4096 = None \<and> 4096 mod unat a = (0 :: nat) then (0, 4096, h(4096 \<mapsto> replicate (unat s) (CHR 0x00)))
      else (12, 0, h))"

lemma one_block_contract: "alloc_contract one_block"
  by (auto simp: alloc_contract_def one_block_def intro: exI [of _ "replicate _ _"] split: if_splits)

subsection \<open>Ownership\<close>

text \<open>The object owns the block its buffer points to and nothing else; \<open>rest\<close> is the heap without it.\<close>

definition owned :: "heap \<Rightarrow> 'q placed \<Rightarrow> bool" where
  "owned rest x \<longleftrightarrow> pl_deleter x = pl_buffer x \<and> unat (pl_buffer x) mod unat kCacheSize = 0 \<and>
     (if pl_buffer x = 0 then pl_heap x = rest
      else rest (pl_buffer x) = None \<and> (\<exists>b. pl_heap x = rest(pl_buffer x \<mapsto> b)))"

lemmas release_defs = deleter_reset_def aligned_deleter_def aligned_free_wrapper_def Let_def fun_upd_idem

lemma owned_new: "owned rest (placed_new q rest)"
  by (simp add: owned_def placed_new_def)

lemma owned_live: "owned rest x \<Longrightarrow> \<not> dangling x"
  by (auto simp: owned_def dangling_def split: if_splits)

lemma owned_destroy: "owned rest x \<Longrightarrow> placed_destroy x = Some rest"
  by (auto simp: owned_def placed_destroy_def release_defs split: if_splits)

text \<open>What the two \<^verbatim>\<open>reserve\<close> share: allocate, then hand the new address to the owner.\<close>

lemma owned_replace:
  assumes "alloc_contract pm" "owned rest x" "aligned_alloc_at pm (pl_heap x) kCacheSize n = (p, h)"
  shows "p = 0 \<Longrightarrow> \<exists>x'. deleter_reset (x\<lparr>pl_heap := h\<rparr>) 0 = Some x' \<and> pl_queue x' = pl_queue x \<and>
           owned rest (x'\<lparr>pl_buffer := 0, pl_queue := q\<rparr>)"
    and "p \<noteq> 0 \<Longrightarrow> \<exists>x' b. deleter_reset (x\<lparr>pl_heap := h, pl_buffer := p\<rparr>) p = Some x' \<and> pl_queue x' = pl_queue x \<and>
           pl_buffer x' = p \<and> pl_heap x' p = Some b \<and> h p = Some b \<and> length b = unat n \<and>
           owned rest (x'\<lparr>pl_queue := q\<rparr>)"
proof -
  obtain rc ptr h' where pm: "pm (pl_heap x) kCacheSize n = (rc, ptr, h')" by (metis prod_cases3)
  with assms(1) have c: "if rc = 0 then ptr \<noteq> 0 \<and> pl_heap x ptr = None \<and> unat ptr mod unat kCacheSize = 0 \<and>
      (\<exists>b. length b = unat n \<and> h' = (pl_heap x)(ptr \<mapsto> b)) else h' = pl_heap x"
    unfolding alloc_contract_def by blast
  have a: "p = (if rc = 0 then ptr else 0)" "h = h'" using assms(3) pm
    by (auto simp: aligned_alloc_at_def split: if_splits)
  show "\<exists>x'. deleter_reset (x\<lparr>pl_heap := h\<rparr>) 0 = Some x' \<and> pl_queue x' = pl_queue x \<and>
           owned rest (x'\<lparr>pl_buffer := 0, pl_queue := q\<rparr>)" if "p = 0"
    using that assms(2) a c by (auto simp: owned_def release_defs split: if_splits)
  show "\<exists>x' b. deleter_reset (x\<lparr>pl_heap := h, pl_buffer := p\<rparr>) p = Some x' \<and> pl_queue x' = pl_queue x \<and>
           pl_buffer x' = p \<and> pl_heap x' p = Some b \<and> h p = Some b \<and> length b = unat n \<and>
           owned rest (x'\<lparr>pl_queue := q\<rparr>)" if "p \<noteq> 0"
    using that assms(2) a c by (auto simp: owned_def release_defs fun_upd_twist split: if_splits)
qed

subsection \<open>A queue whose block is on the heap\<close>

locale block_queue = byte_queue enq deq peek ok underflow overflow invar contents cap
  for enq :: "'q \<Rightarrow> byte list \<Rightarrow> ('s \<times> 'q) option"
    and deq :: "'q \<Rightarrow> byte list \<Rightarrow> size_t \<Rightarrow> ('s \<times> 'q \<times> byte list) option"
    and peek :: "'q \<Rightarrow> byte list \<Rightarrow> size_t \<Rightarrow> ('s \<times> byte list) option"
    and ok underflow overflow :: 's
    and invar :: "'q \<Rightarrow> bool"
    and contents :: "'q \<Rightarrow> byte list"
    and cap :: "'q \<Rightarrow> nat" +
  fixes block :: "'q \<Rightarrow> byte list option"
    and set_block :: "byte list option \<Rightarrow> 'q \<Rightarrow> 'q"
    and reserve :: "heap_memalign \<Rightarrow> 'q placed \<Rightarrow> size_t \<Rightarrow> 'q placed option"
  assumes block_set: "block (set_block b q) = b"
    and set_same: "block q = b \<Longrightarrow> set_block b q = q"
    and invar_block: "invar q \<Longrightarrow> block q \<noteq> None"
    and enq_none: "block q = None \<Longrightarrow> \<exists>st. enq q d = Some (st, q)"
    and deq_none: "block q = None \<Longrightarrow> \<exists>st. deq q dst n = Some (st, q, dst)"
    and reserve_ok: "alloc_contract pm \<Longrightarrow> owned rest x \<Longrightarrow> unat n \<le> 2 ^ 63 \<Longrightarrow>
      \<exists>x'. reserve pm x n = Some x' \<and> owned rest x' \<and>
        (pl_buffer x' \<noteq> 0 \<longrightarrow> invar (placed_view set_block x') \<and> contents (placed_view set_block x') = [] \<and>
           unat n \<le> cap (placed_view set_block x'))"
begin

lemma back_owned:
  assumes "owned rest x" "block q = None \<longleftrightarrow> pl_buffer x = 0"
  shows "owned rest (placed_back block x q)" "placed_view set_block (placed_back block x q) = q"
    "pl_buffer (placed_back block x q) = pl_buffer x"
  using assms set_same [of q] by (auto simp: owned_def placed_back_def placed_view_def split: if_splits)

text \<open>Through its pointer the queue is still the FIFO it was, whatever else the heap holds.\<close>

sublocale placed: byte_queue "placed_enqueue block set_block enq" "placed_dequeue block set_block deq"
  "placed_peek set_block peek" ok underflow overflow
  "\<lambda>x. owned rest x \<and> pl_buffer x \<noteq> 0 \<and> invar (placed_view set_block x)"
  "\<lambda>x. contents (placed_view set_block x)" "\<lambda>x. cap (placed_view set_block x)" for rest
proof
  fix x d dst and n :: size_t
  let ?v = "placed_view set_block x"
  assume "owned rest x \<and> pl_buffer x \<noteq> 0 \<and> invar ?v"
  then have x: "owned rest x" "pl_buffer x \<noteq> 0" "invar ?v" "\<not> dangling x" using owned_live [of rest x] by simp_all
  have stored: "owned rest (placed_back block x q)" "placed_view set_block (placed_back block x q) = q"
    "pl_buffer (placed_back block x q) \<noteq> 0" if "invar q" for q
    using back_owned [OF x(1), of q] invar_block [OF that] x(2) by auto
  show "length (contents ?v) \<le> cap ?v \<and> cap ?v < 2 ^ 64" using contents_bound x(3) .
  show "\<exists>x'. placed_enqueue block set_block enq x d = Some (ok, x') \<and>
       (owned rest x' \<and> pl_buffer x' \<noteq> 0 \<and> invar (placed_view set_block x')) \<and>
       contents (placed_view set_block x') = contents ?v @ d \<and> cap (placed_view set_block x') = cap ?v"
    if "d \<noteq> []" "length (contents ?v) + length d \<le> cap ?v"
    using enq_fits [OF x(3) that] x(4) stored by (auto simp: placed_enqueue_def)
  show "\<exists>x'. placed_enqueue block set_block enq x d = Some (overflow, x') \<and>
       (owned rest x' \<and> pl_buffer x' \<noteq> 0 \<and> invar (placed_view set_block x')) \<and>
       contents (placed_view set_block x') = contents ?v \<and> cap (placed_view set_block x') = cap ?v"
    if "length d < 2 ^ 64" "cap ?v < length (contents ?v) + length d"
    using enq_full [OF x(3) that] x(4) stored by (auto simp: placed_enqueue_def)
  show "\<exists>x'. placed_dequeue block set_block deq x dst n = Some (ok, x', take (unat n) (contents ?v) @ drop (unat n) dst) \<and>
       (owned rest x' \<and> pl_buffer x' \<noteq> 0 \<and> invar (placed_view set_block x')) \<and>
       contents (placed_view set_block x') = drop (unat n) (contents ?v) \<and> cap (placed_view set_block x') = cap ?v"
    if "n \<noteq> 0" "unat n \<le> length (contents ?v)" "unat n \<le> length dst"
    using deq_avail [OF x(3) that] x(4) stored by (auto simp: placed_dequeue_def)
  show "placed_dequeue block set_block deq x dst n = None"
    if "n \<noteq> 0" "unat n \<le> length (contents ?v)" "length dst < unat n"
    using deq_overrun [OF x(3) that] by (simp add: placed_dequeue_def)
  show "\<exists>x'. placed_dequeue block set_block deq x dst n = Some (underflow, x', dst) \<and>
       (owned rest x' \<and> pl_buffer x' \<noteq> 0 \<and> invar (placed_view set_block x')) \<and>
       contents (placed_view set_block x') = contents ?v \<and> cap (placed_view set_block x') = cap ?v"
    if "length (contents ?v) < unat n"
    using deq_short [OF x(3) that, of dst] x(4) stored by (auto simp: placed_dequeue_def)
  show "placed_peek set_block peek x dst n = Some (ok, take (unat n) (contents ?v) @ drop (unat n) dst)"
    if "n \<noteq> 0" "unat n \<le> length (contents ?v)" "unat n \<le> length dst"
    using peek_avail [OF x(3) that] x(4) by (simp add: placed_peek_def)
  show "placed_peek set_block peek x dst n = Some (underflow, dst)" if "length (contents ?v) < unat n"
    using peek_short [OF x(3) that] x(4) by (simp add: placed_peek_def)
qed (use status_distinct in simp_all)

text \<open>The state between two operations, with storage or, after a failed \<^verbatim>\<open>reserve\<close>, without.\<close>

lemma life_step:
  assumes "alloc_contract pm" "owned rest x \<and> (pl_buffer x \<noteq> 0 \<longrightarrow> invar (placed_view set_block x))"
    and "storage_op_ok op"
  shows "\<exists>x'. placed_step (reserve pm) (placed_enqueue block set_block enq) (placed_dequeue block set_block deq) x op =
      Some x' \<and> owned rest x' \<and> (pl_buffer x' \<noteq> 0 \<longrightarrow> invar (placed_view set_block x'))"
proof (cases op)
  case (Reserve n)
  then show ?thesis using reserve_ok [OF assms(1), of rest x n] assms(2,3) by auto
next
  case (Queue_op qop)
  show ?thesis
  proof (cases "pl_buffer x = 0")
    case True
    then have n: "block (placed_view set_block x) = None" "\<not> dangling x"
      by (simp_all add: placed_view_def block_set dangling_def)
    have b: "owned rest (placed_back block x (placed_view set_block x))"
      "pl_buffer (placed_back block x (placed_view set_block x)) = 0"
      using back_owned [OF conjunct1 [OF assms(2)], of "placed_view set_block x"] n(1) True by simp_all
    show ?thesis
    proof (cases qop)
      case (Put d)
      from enq_none [OF n(1), of d] obtain st where "enq (placed_view set_block x) d = Some (st, placed_view set_block x)" by blast
      then show ?thesis using n(2) b Queue_op Put by (simp add: placed_enqueue_def)
    next
      case (Take m)
      from deq_none [OF n(1), of "replicate m (CHR 0x00)" "of_nat m"] obtain st where
        "deq (placed_view set_block x) (replicate m (CHR 0x00)) (of_nat m) =
           Some (st, placed_view set_block x, replicate m (CHR 0x00))" by blast
      then show ?thesis using n(2) b Queue_op Take by (simp add: placed_dequeue_def)
    qed
  next
    case False
    then have v: "owned rest x \<and> pl_buffer x \<noteq> 0 \<and> invar (placed_view set_block x)" using assms(2) by simp
    show ?thesis
    proof (cases qop)
      case (Put d)
      then show ?thesis using placed.enq_total [OF v, of d] assms(3) Queue_op by auto
    next
      case (Take n)
      then show ?thesis using placed.deq_fresh [OF v, of n] assms(3) Queue_op by auto
    qed
  qed
qed

lemma life_run:
  assumes "alloc_contract pm" "owned rest x \<and> (pl_buffer x \<noteq> 0 \<longrightarrow> invar (placed_view set_block x))"
    and "list_all storage_op_ok ops"
  shows "\<exists>x'. placed_run (placed_step (reserve pm) (placed_enqueue block set_block enq)
        (placed_dequeue block set_block deq)) x ops = Some x' \<and> owned rest x' \<and>
      (pl_buffer x' \<noteq> 0 \<longrightarrow> invar (placed_view set_block x'))"
  using assms(2,3)
proof (induction ops arbitrary: x)
  case (Cons op ops)
  from life_step [OF assms(1) Cons.prems(1), of op] Cons.prems(2) obtain x' where
    "placed_step (reserve pm) (placed_enqueue block set_block enq) (placed_dequeue block set_block deq) x op = Some x'"
    "owned rest x' \<and> (pl_buffer x' \<noteq> 0 \<longrightarrow> invar (placed_view set_block x'))" by auto
  with Cons.IH [OF this(2)] Cons.prems(2) show ?case by simp
qed simp

end

subsection \<open>The two queues\<close>

lemma alloc_size: "ring_capacity c \<Longrightarrow> unat (c + kCacheSize) = unat c + 64"
  using ring_capacity_bound [of c] by (simp add: kCacheSize_def unat_word_ariths)

lemma spsc_reserve_placed_ok:
  assumes "alloc_contract pm" "owned rest x" "unat n \<le> 2 ^ 63"
  defines "v \<equiv> placed_view (\<lambda>b. sq_buffer_update (\<lambda>_. b))"
  shows "\<exists>x'. spsc_reserve_placed pm x n = Some x' \<and> owned rest x' \<and>
    (pl_buffer x' \<noteq> 0 \<longrightarrow> spsc_inv (v x') \<and> spsc_contents (v x') = [] \<and> unat n \<le> spsc_cap (v x'))"
proof -
  obtain c where c: "next_power_of_2 n = Some c" "ring_capacity c" "unat n \<le> unat c"
    using next_power_of_2_spec [OF assms(3)] by blast
  obtain p h where a: "aligned_alloc_at pm (pl_heap x) kCacheSize (c + kCacheSize) = (p, h)" by fastforce
  show ?thesis
  proof (cases "p = 0")
    case True
    from owned_replace(1) [OF assms(1,2) a True] show ?thesis using c(1) a True
      by (fastforce simp: spsc_reserve_placed_def)
  next
    case False
    let ?q = "(pl_queue x)\<lparr>sq_capacity := c, sq_mask := c - 1, sq_allocation_size := c + kCacheSize,
        sq_head_idx := 0, sq_tail_idx := 0, sq_head_cached := 0, sq_tail_cached := 0,
        sq_head_cached_snapshot := 0, sq_tail_cached_snapshot := 0\<rparr>"
    from owned_replace(2) [OF assms(1,2) a False, of ?q] obtain x' b where x':
      "deleter_reset (x\<lparr>pl_heap := h, pl_buffer := p\<rparr>) p = Some x'" "pl_queue x' = pl_queue x" "pl_buffer x' = p"
      "pl_heap x' p = Some b" "length b = unat c + 64" "owned rest (x'\<lparr>pl_queue := ?q\<rparr>)"
      using alloc_size [OF c(2)] by metis
    then have "spsc_reserve_placed pm x n = Some (x'\<lparr>pl_queue := ?q\<rparr>)" using c(1) a False
      by (simp add: spsc_reserve_placed_def)
    then show ?thesis using x' c(2,3) False
      by (simp add: v_def placed_view_def spsc_inv_def spsc_contents_def spsc_cap_def)
  qed
qed

lemma spmc_reserve_placed_ok:
  assumes "alloc_contract pm" "owned rest x" "unat n \<le> 2 ^ 63"
  defines "v \<equiv> placed_view (\<lambda>b. mq_buffer_update (\<lambda>_. b))"
  shows "\<exists>x'. spmc_reserve_placed pm x n = Some x' \<and> owned rest x' \<and>
    (pl_buffer x' \<noteq> 0 \<longrightarrow> spmc_inv (v x') \<and> spmc_contents (v x') = [] \<and> unat n \<le> spmc_cap (v x'))"
proof -
  obtain c where c: "next_power_of_2 n = Some c" "ring_capacity c" "unat n \<le> unat c"
    using next_power_of_2_spec [OF assms(3)] by blast
  obtain p h where a: "aligned_alloc_at pm (pl_heap x) kCacheSize (c + kCacheSize) = (p, h)" by fastforce
  show ?thesis
  proof (cases "p = 0")
    case True
    from owned_replace(1) [OF assms(1,2) a True] show ?thesis using c(1) a True
      by (fastforce simp: spmc_reserve_placed_def)
  next
    case False
    let ?q = "(pl_queue x)\<lparr>mq_capacity := c, mq_mask := c - 1, mq_allocation_size := c + kCacheSize,
        mq_head_idx := 0, mq_tail_idx := 0, mq_commit_idx := 0\<rparr>"
    from owned_replace(2) [OF assms(1,2) a False, of ?q] obtain x' b where x':
      "deleter_reset (x\<lparr>pl_heap := h, pl_buffer := p\<rparr>) p = Some x'" "pl_queue x' = pl_queue x" "pl_buffer x' = p"
      "pl_heap x' p = Some b" "length b = unat c + 64" "owned rest (x'\<lparr>pl_queue := ?q\<rparr>)"
      using alloc_size [OF c(2)] by metis
    then have "spmc_reserve_placed pm x n = Some (x'\<lparr>pl_queue := ?q\<rparr>)" using c(1) a False
      by (simp add: spmc_reserve_placed_def)
    then show ?thesis using x' c(2,3) False
      by (simp add: v_def placed_view_def spmc_inv_def spmc_contents_def spmc_cap_def)
  qed
qed

text \<open>
  On what the queue sees of its block, \<^verbatim>\<open>reserve\<close> is the operation of \<^theory_text>\<open>Spsc_Queue\<close>, for the allocator
  that this heap makes of \<^verbatim>\<open>posix_memalign\<close>.
\<close>

lemma spsc_reserve_refines:
  assumes "alloc_contract pm" "owned rest x"
  defines "v \<equiv> placed_view (\<lambda>b. sq_buffer_update (\<lambda>_. b))"
  shows "\<exists>pm'. memalign_contract pm' \<and> map_option v (spsc_reserve_placed pm x n) = spsc_reserve pm' (v x) n"
proof -
  let ?pm = "\<lambda>a s. case pm (pl_heap x) a s of (rc, p, h) \<Rightarrow> (rc, if rc = 0 then the (h p) else [])"
  have con: "memalign_contract ?pm" unfolding memalign_contract_def
  proof (intro allI impI)
    fix a s :: size_t and b
    assume b: "?pm a s = (0, b)"
    obtain rc p h where pm: "pm (pl_heap x) a s = (rc, p, h)" by (metis prod_cases3)
    with b have "rc = 0" "b = the (h p)" by auto
    moreover have "rc = 0 \<longrightarrow> (\<exists>b. length b = unat s \<and> h = (pl_heap x)(p \<mapsto> b))"
      using assms(1) [unfolded alloc_contract_def, rule_format, OF pm] by auto
    ultimately show "length b = unat s" by auto
  qed
  show ?thesis
  proof (cases "next_power_of_2 n")
    case None
    with con show ?thesis by (intro exI [of _ ?pm]) (simp add: spsc_reserve_placed_def spsc_reserve_def)
  next
    case (Some c)
    obtain rc p h where pm: "pm (pl_heap x) kCacheSize (c + kCacheSize) = (rc, p, h)" by (metis prod_cases3)
    have w: "aligned_alloc_wrapper ?pm kCacheSize (c + kCacheSize) = (if rc \<noteq> 0 then None else Some (the (h p)))"
      by (simp add: aligned_alloc_wrapper_def pm)
    show ?thesis
    proof (cases "rc = 0")
      case True
      then have a: "aligned_alloc_at pm (pl_heap x) kCacheSize (c + kCacheSize) = (p, h)" "p \<noteq> 0"
        using assms(1) [unfolded alloc_contract_def, rule_format, OF pm] by (simp_all add: aligned_alloc_at_def pm)
      from owned_replace(2) [OF assms(1,2) a] obtain x' b where x':
        "deleter_reset (x\<lparr>pl_heap := h, pl_buffer := p\<rparr>) p = Some x'" "pl_queue x' = pl_queue x" "pl_buffer x' = p"
        "pl_heap x' p = Some b" "h p = Some b" by blast
      then show ?thesis using con w a Some True
        by (intro exI [of _ ?pm]) (simp add: spsc_reserve_placed_def spsc_reserve_def v_def placed_view_def)
    next
      case False
      then have a: "aligned_alloc_at pm (pl_heap x) kCacheSize (c + kCacheSize) = (0, h)"
        by (simp add: aligned_alloc_at_def pm)
      from owned_replace(1) [OF assms(1,2) a] obtain x' where
        "deleter_reset (x\<lparr>pl_heap := h\<rparr>) 0 = Some x'" "pl_queue x' = pl_queue x" by blast
      then show ?thesis using con w a Some False
        by (intro exI [of _ ?pm]) (simp add: spsc_reserve_placed_def spsc_reserve_def v_def placed_view_def)
    qed
  qed
qed

interpretation spsc_block: block_queue spsc_enqueue_bytes spsc_dequeue_bytes spsc_peek_bytes
  Spsc_kOk Spsc_kUnderflow Spsc_kOverflow spsc_inv spsc_contents spsc_cap sq_buffer
  "\<lambda>b. sq_buffer_update (\<lambda>_. b)" spsc_reserve_placed
proof
  show "spsc_inv q \<Longrightarrow> sq_buffer q \<noteq> None" for q by (auto simp: spsc_inv_def split: option.splits)
qed (use spsc_reserve_placed_ok in \<open>auto simp: spsc_enqueue_bytes_def spsc_dequeue_bytes_def\<close>)

interpretation spmc_block: block_queue spmc_enqueue_bytes spmc_dequeue_bytes spmc_peek_bytes
  Spmc_kOk Spmc_kUnderflow Spmc_kOverflow spmc_inv spmc_contents spmc_cap mq_buffer
  "\<lambda>b. mq_buffer_update (\<lambda>_. b)" spmc_reserve_placed
proof
  show "spmc_inv q \<Longrightarrow> mq_buffer q \<noteq> None" for q by (auto simp: spmc_inv_def split: option.splits)
qed (use spmc_reserve_placed_ok in \<open>auto simp: spmc_enqueue_bytes_def spmc_dequeue_bytes_def\<close>)

text \<open>
  A single-consumer queue on the heap, beside whatever else lives there, hands out in order the bytes it
  accepted and leaves the other blocks alone.
\<close>

lemma spsc_heap_fifo:
  assumes "owned rest x \<and> pl_buffer x \<noteq> 0 \<and> spsc_inv (placed_view (\<lambda>b. sq_buffer_update (\<lambda>_. b)) x)"
    and "list_all queue_op_ok ops"
  defines "contents \<equiv> \<lambda>x. spsc_contents (placed_view (\<lambda>b. sq_buffer_update (\<lambda>_. b)) x)"
  shows "\<exists>acc del x'. queue_run
      (placed_enqueue sq_buffer (\<lambda>b. sq_buffer_update (\<lambda>_. b)) spsc_enqueue_bytes)
      (placed_dequeue sq_buffer (\<lambda>b. sq_buffer_update (\<lambda>_. b)) spsc_dequeue_bytes) Spsc_kOk x ops = Some (acc, del, x') \<and>
    owned rest x' \<and> contents x @ acc = del @ contents x'"
  using spsc_block.placed.queue_run_fifo [OF assms(1,2)] unfolding contents_def by blast

subsection \<open>Properties\<close>

text \<open>C16: A queue gives back what it took. Whatever sequence of \<^verbatim>\<open>reserve\<close> (up to 2^63 bytes, and whether
  or not the allocator has memory), \<^verbatim>\<open>enqueue_bytes\<close> and \<^verbatim>\<open>dequeue_bytes\<close> is called on a new queue, no call
  touches a block that is not live, the queue owns at most one block, aligned to the cache line and
  apart from the rest of the heap, which stays as it was; and the destructor leaves exactly that rest,
  so every block is released once. This holds of both queues.\<close>

theorem queue_storage_balanced:
  assumes "alloc_contract pm" "list_all storage_op_ok ops"
  shows "(\<exists>x. spsc_life pm rest ops = Some x \<and> owned rest x \<and> placed_destroy x = Some rest) \<and>
         (\<exists>x. spmc_life pm rest ops = Some x \<and> owned rest x \<and> placed_destroy x = Some rest)"
proof -
  have n: "owned rest (placed_new q rest) \<and> (pl_buffer (placed_new q rest) \<noteq> 0 \<longrightarrow> P)" for q :: 'q and P
    using owned_new [of rest q] by (simp add: placed_new_def)
  show ?thesis
    using spsc_block.life_run [OF assms(1) n assms(2), of spsc_new] owned_destroy [where ?'a = spsc_queue]
      spmc_block.life_run [OF assms(1) n assms(2), of spmc_new] owned_destroy [where ?'a = spmc_queue]
    unfolding spsc_life_def spmc_life_def by blast
qed

theorem queue_storage_balanced_witness:
  "let ops = [Reserve 100, Queue_op (Put ''abc''), Reserve 200, Queue_op (Take 2)];
       rest = [8192 \<mapsto> ''other'']
   in (\<exists>x. spsc_life one_block rest ops = Some x \<and> placed_destroy x = Some rest) \<and>
      (\<exists>x. spmc_life one_block rest ops = Some x \<and> placed_destroy x = Some rest)"
  using queue_storage_balanced [OF one_block_contract,
      of "[Reserve 100, Queue_op (Put ''abc''), Reserve 200, Queue_op (Take 2)]" "[8192 \<mapsto> ''other'']"]
  unfolding Let_def by (auto simp: unat_numeral)

end
