(* ===== verification/Log_Level.thy ===== *)
theory Log_Level
  imports Prelude "HOL-Library.Sublist"
begin

text \<open>
  Log levels and their names, \<^verbatim>\<open>src/src/include/femtolog/base/log_level.h\<close>, with the ANSI
  sequences of \<^verbatim>\<open>core/base/string_util.h\<close>. A C string is the list of its characters without
  the terminating NUL.
\<close>

datatype log_level =
  kRaw | kFatal | kError | kWarn | kInfo | kDebug | kTrace | kUnknownLevel

fun level_value :: "log_level \<Rightarrow> nat" where
  "level_value kRaw = 0"
| "level_value kFatal = 1"
| "level_value kError = 2"
| "level_value kWarn = 3"
| "level_value kInfo = 4"
| "level_value kDebug = 5"
| "level_value kTrace = 6"
| "level_value kUnknownLevel = 8"

text \<open>
  The level a stored byte denotes; every \<^verbatim>\<open>switch\<close> on a level sends the values without an
  enumerator to the same default branch as \<^verbatim>\<open>kUnknown\<close>.
\<close>

definition level_of_value :: "nat \<Rightarrow> log_level" where
  "level_of_value v =
     (if v = 0 then kRaw else if v = 1 then kFatal else if v = 2 then kError
      else if v = 3 then kWarn else if v = 4 then kInfo else if v = 5 then kDebug
      else if v = 6 then kTrace else kUnknownLevel)"

text \<open>Enumerators compare by their underlying values.\<close>

instantiation log_level :: linorder
begin

definition less_eq_log_level :: "log_level \<Rightarrow> log_level \<Rightarrow> bool" where
  "less_eq_log_level a b \<longleftrightarrow> level_value a \<le> level_value b"

definition less_log_level :: "log_level \<Rightarrow> log_level \<Rightarrow> bool" where
  "less_log_level a b \<longleftrightarrow> level_value a < level_value b"

instance
proof
  fix a b c :: log_level
  show "a < b \<longleftrightarrow> a \<le> b \<and> \<not> b \<le> a" by (auto simp: less_eq_log_level_def less_log_level_def)
  show "a \<le> a" by (simp add: less_eq_log_level_def)
  show "a \<le> b \<Longrightarrow> b \<le> c \<Longrightarrow> a \<le> c" by (simp add: less_eq_log_level_def)
  show "a \<le> b \<Longrightarrow> b \<le> a \<Longrightarrow> a = b" by (cases a; cases b) (simp_all add: less_eq_log_level_def)
  show "a \<le> b \<or> b \<le> a" by (auto simp: less_eq_log_level_def)
qed

end

fun log_level_to_lower_str :: "log_level \<Rightarrow> string" where
  "log_level_to_lower_str kRaw = ''raw''"
| "log_level_to_lower_str kFatal = ''fatal''"
| "log_level_to_lower_str kError = ''error''"
| "log_level_to_lower_str kWarn = ''warn''"
| "log_level_to_lower_str kInfo = ''info''"
| "log_level_to_lower_str kDebug = ''debug''"
| "log_level_to_lower_str kTrace = ''trace''"
| "log_level_to_lower_str kUnknownLevel = ''unknown''"

fun log_level_to_upper_str :: "log_level \<Rightarrow> string" where
  "log_level_to_upper_str kRaw = ''RAW''"
| "log_level_to_upper_str kFatal = ''FATAL''"
| "log_level_to_upper_str kError = ''ERROR''"
| "log_level_to_upper_str kWarn = ''WARN''"
| "log_level_to_upper_str kInfo = ''INFO''"
| "log_level_to_upper_str kDebug = ''DEBUG''"
| "log_level_to_upper_str kTrace = ''TRACE''"
| "log_level_to_upper_str kUnknownLevel = ''UNKNOWN''"

text \<open>A sequence \<^verbatim>\<open>"\033[...m"\<close>.\<close>

definition ansi :: "string \<Rightarrow> string" where
  "ansi code = CHR 0x1B # CHR ''['' # code @ ''m''"

fun log_level_to_ansi_color :: "log_level \<Rightarrow> string" where
  "log_level_to_ansi_color kRaw = ansi ''0''"
| "log_level_to_ansi_color kFatal = ansi ''35''"
| "log_level_to_ansi_color kError = ansi ''31''"
| "log_level_to_ansi_color kWarn = ansi ''33''"
| "log_level_to_ansi_color kInfo = ansi ''32''"
| "log_level_to_ansi_color kDebug = ansi ''36''"
| "log_level_to_ansi_color kTrace = ansi ''90''"
| "log_level_to_ansi_color kUnknownLevel = []"

text \<open>
  \<^verbatim>\<open>cmpstr\<close> compares the first \<open>length b\<close> characters of \<open>a\<close>, its terminating NUL included,
  with those of \<open>b\<close>.
\<close>

definition cmpstr :: "string \<Rightarrow> string \<Rightarrow> bool" where
  "cmpstr a b \<longleftrightarrow> take (length b) (a @ [CHR 0x00]) = b"

text \<open>
  \<^verbatim>\<open>compare_array_and_cstring\<close>: the characters of the array against those of a C string in its block;
  a character outside the block is undefined.
\<close>

fun compare_array_from :: "char list \<Rightarrow> nat \<Rightarrow> byte list \<Rightarrow> bool option" where
  "compare_array_from [] i cstr = do { c \<leftarrow> mem_read cstr i 1; Some (c = [CHR 0x00]) }"
| "compare_array_from (a # arr) i cstr = do {
     c \<leftarrow> mem_read cstr i 1;
     if [a] \<noteq> c then Some False else compare_array_from arr (Suc i) cstr
   }"

definition compare_array_and_cstring :: "char list \<Rightarrow> byte list \<Rightarrow> bool option" where
  "compare_array_and_cstring arr cstr = compare_array_from arr 0 cstr"

text \<open>On an array without NULs it decides equality with the string, whatever lies behind its NUL.\<close>

lemma compare_array_from_eq:
  assumes "CHR 0x00 \<notin> set arr" "CHR 0x00 \<notin> set s"
  shows "compare_array_from arr (length pre) (pre @ s @ CHR 0x00 # rest) = Some (arr = s)"
  using assms
proof (induction arr arbitrary: pre s)
  case Nil
  then show ?case by (cases s) (auto simp: mem_read_def)
next
  case (Cons a arr)
  show ?case
  proof (cases s)
    case Nil
    then show ?thesis using Cons.prems by (auto simp: mem_read_def)
  next
    case (Cons c t)
    then show ?thesis using Cons.prems Cons.IH [of t "pre @ [c]"] by (auto simp: mem_read_def)
  qed
qed

lemma compare_array_and_cstring_eq:
  assumes "CHR 0x00 \<notin> set arr" "CHR 0x00 \<notin> set s"
  shows "compare_array_and_cstring arr (s @ CHR 0x00 # rest) = Some (arr = s)"
  using compare_array_from_eq [OF assms, of "[]" rest] by (simp add: compare_array_and_cstring_def)

definition log_level_from_string :: "string \<Rightarrow> log_level" where
  "log_level_from_string str =
     (if cmpstr str ''raw'' then kRaw
      else if cmpstr str ''fatal'' then kFatal
      else if cmpstr str ''error'' then kError
      else if cmpstr str ''warn'' then kWarn
      else if cmpstr str ''info'' then kInfo
      else if cmpstr str ''debug'' then kDebug
      else if cmpstr str ''trace'' then kTrace
      else kUnknownLevel)"

definition level_len :: "log_level \<Rightarrow> nat" where
  "level_len lvl = length (log_level_to_lower_str lvl)"

definition level_ansi_len :: "log_level \<Rightarrow> nat" where
  "level_ansi_len lvl = length (log_level_to_ansi_color lvl)"

subsection \<open>Lemmas\<close>

lemma level_of_value_inverse [simp]: "level_of_value (level_value l) = l"
  by (cases l) (simp_all add: level_of_value_def)

lemma level_value_bound: "level_value l \<le> 8"
  by (cases l) simp_all

lemma level_len_bound: "3 \<le> level_len l \<and> level_len l \<le> 7"
  by (cases l) (simp_all add: level_len_def)

lemma cmpstr_prefix: "CHR 0x00 \<notin> set b \<Longrightarrow> cmpstr a b \<longleftrightarrow> prefix b a"
proof
  assume nul: "CHR 0x00 \<notin> set b" and "cmpstr a b"
  then have b: "take (length b) (a @ [CHR 0x00]) = b" by (simp add: cmpstr_def)
  have "length b \<le> length a"
  proof (rule ccontr)
    assume "\<not> length b \<le> length a"
    then have "take (length b) (a @ [CHR 0x00]) = a @ [CHR 0x00]" by simp
    then have "CHR 0x00 \<in> set b" unfolding b by (metis in_set_conv_decomp)
    with nul show False ..
  qed
  then show "prefix b a" using b by (metis take_append diff_is_0_eq take_0 append_Nil2 take_is_prefix)
next
  assume "prefix b a"
  then show "cmpstr a b" by (auto simp: cmpstr_def prefix_def)
qed

lemma level_name_nul: "CHR 0x00 \<notin> set (log_level_to_lower_str l)"
  by (cases l) simp_all

subsection \<open>Properties\<close>

text \<open>the level parser recognises a level exactly when the level's lower-case name is a prefix
  of the string (trailing characters are ignored), answers \<^verbatim>\<open>kUnknown\<close> exactly when no name is,
  and inverts the printer.\<close>

theorem log_level_from_string_correct:
  "(l \<noteq> kUnknownLevel \<longrightarrow>
      (log_level_from_string s = l \<longleftrightarrow> prefix (log_level_to_lower_str l) s)) \<and>
   (log_level_from_string s = kUnknownLevel \<longleftrightarrow>
      (\<nexists>l'. l' \<noteq> kUnknownLevel \<and> prefix (log_level_to_lower_str l') s)) \<and>
   log_level_from_string (log_level_to_lower_str l) = l"
proof (intro conjI impI)
  have ex: "(\<exists>l'. l' \<noteq> kUnknownLevel \<and> P l') \<longleftrightarrow>
      P kRaw \<or> P kFatal \<or> P kError \<or> P kWarn \<or> P kInfo \<or> P kDebug \<or> P kTrace" for P
    by (metis log_level.distinct(13,25,35,43,49,53,55) log_level.exhaust)
  show "log_level_from_string s = kUnknownLevel \<longleftrightarrow>
      (\<nexists>l'. l' \<noteq> kUnknownLevel \<and> prefix (log_level_to_lower_str l') s)"
    unfolding ex by (simp add: log_level_from_string_def cmpstr_prefix)
  show "log_level_from_string (log_level_to_lower_str l) = l"
    by (cases l) (simp_all add: log_level_from_string_def cmpstr_def)
  assume "l \<noteq> kUnknownLevel"
  then show "log_level_from_string s = l \<longleftrightarrow> prefix (log_level_to_lower_str l) s"
    by (cases l; cases s) (auto simp: log_level_from_string_def cmpstr_prefix split: if_splits)
qed

theorem log_level_from_string_correct_witness:
  "log_level_from_string ''information'' = kInfo \<and> log_level_from_string ''INFO'' = kUnknownLevel"
  using log_level_from_string_correct [of kInfo "''information''"]
    log_level_from_string_correct [of kInfo "''INFO''"]
  by (auto simp: log_level_from_string_def cmpstr_def)

end
