(* ===== verification/Log_Entry.thy ===== *)
theory Log_Entry
  imports Log_Level
begin

text \<open>
  The log record of \<^verbatim>\<open>src/src/include/femtolog/base/log_entry.h\<close> as it lies in memory on the
  x86-64 ABI: \<^verbatim>\<open>payload_len\<close> at offset 0, \<^verbatim>\<open>format_id\<close> at 2, \<^verbatim>\<open>thread_id\<close> at 4,
  \<^verbatim>\<open>timestamp_ns\<close> at 8, \<^verbatim>\<open>level\<close> at 16, seven bytes of padding, payload at 24. A function that
  gets a \<^verbatim>\<open>LogEntry*\<close> gets the block of bytes the pointer points to.
\<close>

record log_entry =
  e_payload_len :: u16
  e_format_id :: u16
  e_thread_id :: u32
  e_timestamp_ns :: u64
  e_level :: log_level

definition sizeof_LogEntry :: nat where
  "sizeof_LogEntry = 24"

definition entry_create ::
  "byte list \<Rightarrow> u32 \<Rightarrow> u16 \<Rightarrow> log_level \<Rightarrow> u64 \<Rightarrow> byte list \<Rightarrow> byte list option" where
  "entry_create buffer thread_id format_id level timestamp_ns payload = do {
     b \<leftarrow> memcpy buffer 8 (le_enc 8 (unat timestamp_ns));
     b \<leftarrow> memcpy b 4 (le_enc 4 (unat thread_id));
     b \<leftarrow> memcpy b 2 (le_enc 2 (unat format_id));
     b \<leftarrow> memcpy b 0 (le_enc 2 (unat (of_nat (length payload) :: u16)));
     b \<leftarrow> memcpy b 16 [char_of (level_value level)];
     memcpy b sizeof_LogEntry payload
   }"

definition set_timestamp_ns :: "byte list \<Rightarrow> u64 \<Rightarrow> byte list option" where
  "set_timestamp_ns entry ts = memcpy entry 8 (le_enc 8 (unat ts))"

text \<open>The fields of the record at the start of a block.\<close>

definition entry_fields :: "byte list \<Rightarrow> log_entry option" where
  "entry_fields entry = do {
     len \<leftarrow> mem_read entry 0 2;
     fid \<leftarrow> mem_read entry 2 2;
     tid \<leftarrow> mem_read entry 4 4;
     ts \<leftarrow> mem_read entry 8 8;
     lvl \<leftarrow> mem_read entry 16 1;
     Some \<lparr>e_payload_len = of_nat (le_dec len), e_format_id = of_nat (le_dec fid),
       e_thread_id = of_nat (le_dec tid), e_timestamp_ns = of_nat (le_dec ts),
       e_level = level_of_value (le_dec lvl)\<rparr>
   }"

definition entry_total_size :: "log_entry \<Rightarrow> size_t" where
  "entry_total_size e = of_nat sizeof_LogEntry + of_nat (unat (e_payload_len e))"

definition message_view :: "byte list \<Rightarrow> byte list option" where
  "message_view entry = do {
     e \<leftarrow> entry_fields entry;
     mem_read entry sizeof_LogEntry (unat (e_payload_len e))
   }"

definition copy_raw_payload :: "byte list \<Rightarrow> byte list \<Rightarrow> nat \<Rightarrow> (byte list \<times> nat) option" where
  "copy_raw_payload entry dst_buf dst_size = do {
     e \<leftarrow> entry_fields entry;
     let to_copy = min dst_size (unat (e_payload_len e));
     src \<leftarrow> mem_read entry sizeof_LogEntry to_copy;
     dst \<leftarrow> memcpy dst_buf 0 src;
     Some (dst, to_copy)
   }"

text \<open>
  The image of a record: header fields, whatever the seven padding bytes hold, payload.
\<close>

definition entry_image :: "u32 \<Rightarrow> u16 \<Rightarrow> log_level \<Rightarrow> u64 \<Rightarrow> byte list \<Rightarrow> byte list \<Rightarrow> byte list" where
  "entry_image thread_id format_id level timestamp_ns padding payload =
     le_enc 2 (length payload) @ le_enc 2 (unat format_id) @ le_enc 4 (unat thread_id) @
     le_enc 8 (unat timestamp_ns) @ [char_of (level_value level)] @ padding @ payload"

subsection \<open>Lemmas\<close>

lemma length_entry_image [simp]:
  "length (entry_image tid fid l ts pad p) = 17 + length pad + length p"
  by (simp add: entry_image_def)

lemma memcpy_mid:
  "length pre = off \<Longrightarrow> length old = length new \<Longrightarrow>
   memcpy (pre @ old @ post) off new = Some (pre @ new @ post)"
  by (simp add: memcpy_def)

lemma drop_split: "drop n xs = take k (drop n xs) @ drop (n + k) xs"
  by (simp add: add.commute flip: drop_drop)

lemma entry_create_split:
  assumes l: "length a = 2" "length b = 2" "length c = 4" "length d = 8" "length e = 1"
      "length pad = 7" "length q = length p"
    and p: "length p < 2 ^ 16"
  shows "entry_create (a @ b @ c @ d @ e @ pad @ q @ r) tid fid l ts p =
           Some (entry_image tid fid l ts pad p @ r)"
proof -
  have n: "unat (of_nat (length p) :: u16) = length p" using p by (simp add: unat_of_nat)
  let ?ts = "le_enc 8 (unat ts)" and ?tid = "le_enc 4 (unat tid)" and ?fid = "le_enc 2 (unat fid)"
  let ?len = "le_enc 2 (length p)" and ?l = "[char_of (level_value l)]"
  have 1: "memcpy (a @ b @ c @ d @ e @ pad @ q @ r) 8 ?ts = Some (a @ b @ c @ ?ts @ e @ pad @ q @ r)"
    using memcpy_mid [of "a @ b @ c" 8 d ?ts "e @ pad @ q @ r"] l by simp
  have 2: "memcpy (a @ b @ c @ ?ts @ e @ pad @ q @ r) 4 ?tid = Some (a @ b @ ?tid @ ?ts @ e @ pad @ q @ r)"
    using memcpy_mid [of "a @ b" 4 c ?tid "?ts @ e @ pad @ q @ r"] l by simp
  have 3: "memcpy (a @ b @ ?tid @ ?ts @ e @ pad @ q @ r) 2 ?fid = Some (a @ ?fid @ ?tid @ ?ts @ e @ pad @ q @ r)"
    using memcpy_mid [of a 2 b ?fid "?tid @ ?ts @ e @ pad @ q @ r"] l by simp
  have 4: "memcpy (a @ ?fid @ ?tid @ ?ts @ e @ pad @ q @ r) 0 ?len = Some (?len @ ?fid @ ?tid @ ?ts @ e @ pad @ q @ r)"
    using memcpy_mid [of "[]" 0 a ?len "?fid @ ?tid @ ?ts @ e @ pad @ q @ r"] l by simp
  have 5: "memcpy (?len @ ?fid @ ?tid @ ?ts @ e @ pad @ q @ r) 16 ?l =
             Some (?len @ ?fid @ ?tid @ ?ts @ ?l @ pad @ q @ r)"
    using memcpy_mid [of "?len @ ?fid @ ?tid @ ?ts" 16 e ?l "pad @ q @ r"] l by simp
  have 6: "memcpy (?len @ ?fid @ ?tid @ ?ts @ ?l @ pad @ q @ r) 24 p =
             Some (?len @ ?fid @ ?tid @ ?ts @ ?l @ pad @ p @ r)"
    using memcpy_mid [of "?len @ ?fid @ ?tid @ ?ts @ ?l @ pad" 24 q p r] l by simp
  show ?thesis
    unfolding entry_create_def n 1 2 3 4 5 sizeof_LogEntry_def bind.bind_lunit 6 entry_image_def
    by simp
qed

lemma entry_create_image:
  assumes len: "sizeof_LogEntry + length p \<le> length buffer" "length p < 2 ^ 16"
  shows "entry_create buffer tid fid l ts p =
           Some (entry_image tid fid l ts (take 7 (drop 17 buffer)) p @ drop (24 + length p) buffer)"
proof -
  let ?b = "\<lambda>n k. take k (drop n buffer)"
  have n: "24 + length p \<le> length buffer" using len(1) by (simp add: sizeof_LogEntry_def)
  have "buffer = drop 0 buffer" by simp
  also have "\<dots> = ?b 0 2 @ drop 2 buffer" using drop_split [of 0 buffer 2] by simp
  also have "drop 2 buffer = ?b 2 2 @ drop 4 buffer" using drop_split [of 2 buffer 2] by simp
  also have "drop 4 buffer = ?b 4 4 @ drop 8 buffer" using drop_split [of 4 buffer 4] by simp
  also have "drop 8 buffer = ?b 8 8 @ drop 16 buffer" using drop_split [of 8 buffer 8] by simp
  also have "drop 16 buffer = ?b 16 1 @ drop 17 buffer" using drop_split [of 16 buffer 1] by simp
  also have "drop 17 buffer = ?b 17 7 @ drop 24 buffer" using drop_split [of 17 buffer 7] by simp
  also have "drop 24 buffer = ?b 24 (length p) @ drop (24 + length p) buffer" by (rule drop_split)
  finally have b: "?b 0 2 @ ?b 2 2 @ ?b 4 4 @ ?b 8 8 @ ?b 16 1 @ ?b 17 7 @ ?b 24 (length p) @
      drop (24 + length p) buffer = buffer" by (rule sym)
  have "entry_create (?b 0 2 @ ?b 2 2 @ ?b 4 4 @ ?b 8 8 @ ?b 16 1 @ ?b 17 7 @ ?b 24 (length p) @
          drop (24 + length p) buffer) tid fid l ts p =
        Some (entry_image tid fid l ts (?b 17 7) p @ drop (24 + length p) buffer)"
    by (rule entry_create_split) (use n len(2) in simp_all)
  then show ?thesis unfolding b .
qed

lemma entry_fields_image:
  assumes "length p < 2 ^ 16"
  shows "entry_fields (entry_image tid fid l ts pad p @ rest) =
           Some \<lparr>e_payload_len = of_nat (length p), e_format_id = fid, e_thread_id = tid,
                 e_timestamp_ns = ts, e_level = l\<rparr>"
proof -
  have "unat fid < 256 ^ 2" "unat tid < 256 ^ 4" "unat ts < 256 ^ 8" "length p < 256 ^ 2"
    using assms unsigned_less [of fid, where 'a = nat] unsigned_less [of tid, where 'a = nat]
      unsigned_less [of ts, where 'a = nat] by simp_all
  moreover have "level_value l < 256" using level_value_bound [of l] by simp
  ultimately show ?thesis
    by (simp add: entry_fields_def mem_read_def entry_image_def le_dec_le_enc_id)
qed

lemma message_view_image:
  assumes "length pad = 7" "length p < 2 ^ 16"
  shows "message_view (entry_image tid fid l ts pad p @ rest) = Some p"
proof -
  have "unat (of_nat (length p) :: u16) = length p" using assms(2) by (simp add: unat_of_nat)
  moreover have "mem_read (entry_image tid fid l ts pad p @ rest) 24 (length p) = Some p"
    using assms(1) by (simp add: mem_read_def entry_image_def)
  ultimately show ?thesis
    by (simp add: message_view_def entry_fields_image [OF assms(2)] sizeof_LogEntry_def)
qed

lemma entry_total_size_image:
  "length p < 2 ^ 16 \<Longrightarrow>
   entry_total_size \<lparr>e_payload_len = of_nat (length p), e_format_id = fid, e_thread_id = tid,
     e_timestamp_ns = ts, e_level = l\<rparr> = of_nat (24 + length p)"
  by (simp add: entry_total_size_def sizeof_LogEntry_def unat_of_nat)

lemma set_timestamp_image:
  "set_timestamp_ns (entry_image tid fid l ts pad p @ rest) ts' =
     Some (entry_image tid fid l ts' pad p @ rest)"
proof -
  let ?pre = "le_enc 2 (length p) @ le_enc 2 (unat fid) @ le_enc 4 (unat tid)"
  let ?post = "[char_of (level_value l)] @ pad @ p @ rest"
  have "memcpy (?pre @ le_enc 8 (unat ts) @ ?post) 8 (le_enc 8 (unat ts')) =
          Some (?pre @ le_enc 8 (unat ts') @ ?post)"
    by (rule memcpy_mid) simp_all
  then show ?thesis by (simp add: set_timestamp_ns_def entry_image_def)
qed

subsection \<open>Properties\<close>

text \<open>C26: \<^verbatim>\<open>LogEntry::create\<close> on a block with room for header and payload writes only the header
  fields and the payload, and every accessor then reads back what was given: the five fields,
  the payload as \<^verbatim>\<open>message_view\<close>, and \<^verbatim>\<open>total_size\<close> is 24 plus the payload length. The seven padding
  bytes and everything after the record keep their values.\<close>

theorem entry_create_roundtrip:
  assumes "sizeof_LogEntry + length p \<le> length buffer" and "length p < 2 ^ 16"
  shows "\<exists>b e. entry_create buffer tid fid l ts p = Some b \<and> length b = length buffer \<and>
           entry_fields b = Some e \<and> e_thread_id e = tid \<and> e_format_id e = fid \<and>
           e_level e = l \<and> e_timestamp_ns e = ts \<and> unat (e_payload_len e) = length p \<and>
           message_view b = Some p \<and> unat (entry_total_size e) = 24 + length p \<and>
           take 7 (drop 17 b) = take 7 (drop 17 buffer) \<and>
           drop (24 + length p) b = drop (24 + length p) buffer"
proof -
  have n: "24 + length p \<le> length buffer" using assms(1) by (simp add: sizeof_LogEntry_def)
  let ?pad = "take 7 (drop 17 buffer)"
  let ?b = "entry_image tid fid l ts ?pad p @ drop (24 + length p) buffer"
  have pad: "length ?pad = 7" using n by simp
  have u: "unat (of_nat (length p) :: u16) = length p" using assms(2) by (simp add: unat_of_nat)
  have v: "unat (of_nat (24 + length p) :: size_t) = 24 + length p"
    using assms(2) by (simp add: unat_of_nat del: of_nat_add)
  have "drop 17 ?b = ?pad @ p @ drop (24 + length p) buffer" by (simp add: entry_image_def)
  then have d: "take 7 (drop 17 ?b) = ?pad" using pad by simp
  have "length (entry_image tid fid l ts ?pad p) = 24 + length p" using pad by simp
  then have d': "drop (24 + length p) ?b = drop (24 + length p) buffer" by simp
  have m: "message_view ?b = Some p" using pad assms(2) by (rule message_view_image)
  show ?thesis
    unfolding entry_create_image [OF assms]
    by (intro exI conjI, rule refl, use n in simp, rule entry_fields_image [OF assms(2)])
      (use u v d d' m in \<open>simp_all add: entry_total_size_image [OF assms(2)] del: of_nat_add\<close>)
qed

theorem entry_create_roundtrip_witness:
  "\<exists>b e. entry_create (replicate 30 CHR ''.'') 7 3 kWarn 9 ''abc'' = Some b \<and>
     length b = length (replicate 30 CHR ''.'') \<and>
     entry_fields b = Some e \<and> e_thread_id e = 7 \<and> e_format_id e = 3 \<and>
     e_level e = kWarn \<and> e_timestamp_ns e = 9 \<and> unat (e_payload_len e) = length ''abc'' \<and>
     message_view b = Some ''abc'' \<and> unat (entry_total_size e) = 24 + length ''abc'' \<and>
     take 7 (drop 17 b) = take 7 (drop 17 (replicate 30 CHR ''.'')) \<and>
     drop (24 + length ''abc'') b = drop (24 + length ''abc'') (replicate 30 CHR ''.'')"
  by (rule entry_create_roundtrip) (simp_all add: sizeof_LogEntry_def)

end
