(* ===== verification/Sink_Interface.thy ===== *)
theory Sink_Interface
  imports Log_Entry
begin

text \<open>
  What the backend relies on of a sink (\<^verbatim>\<open>SinkBase::on_log\<close> in
  \<^verbatim>\<open>src/src/include/femtolog/sinks/sink_base.h\<close>): a sink gets the record, a pointer to a block
  and the number of characters of the message at its start. The contract speaks of the text a
  sink has produced so far, whether already written or still in its own buffer, and of the text
  it produces for one message. \<open>accepts\<close> is the set of messages the contract is given for and \<open>target\<close> where a sink
  writes to, which no message changes.
\<close>

type_synonym 's on_log = "'s \<Rightarrow> log_entry \<Rightarrow> byte list \<Rightarrow> nat \<Rightarrow> 's option"

fun dispatch_sinks :: "'s on_log \<Rightarrow> log_entry \<Rightarrow> byte list \<Rightarrow> nat \<Rightarrow> 's list \<Rightarrow> 's list option" where
  "dispatch_sinks on_log entry content len [] = Some []"
| "dispatch_sinks on_log entry content len (s # sinks) = do {
     s' \<leftarrow> on_log s entry content len;
     sinks' \<leftarrow> dispatch_sinks on_log entry content len sinks;
     Some (s' # sinks')
   }"

locale log_sink =
  fixes on_log :: "'s on_log"
    and sink_inv :: "'s \<Rightarrow> bool"
    and out :: "'s \<Rightarrow> string"
    and render :: "'s \<Rightarrow> log_entry \<Rightarrow> string \<Rightarrow> string"
    and accepts :: "'s \<Rightarrow> log_entry \<Rightarrow> string \<Rightarrow> bool"
    and target :: "'s \<Rightarrow> 'd"
  assumes on_log_ok: "sink_inv s \<Longrightarrow> n \<le> length content \<Longrightarrow> accepts s e (take n content) \<Longrightarrow>
      \<exists>s'. on_log s e content n = Some s' \<and> sink_inv s' \<and> render s' = render s \<and>
           accepts s' = accepts s \<and> target s' = target s \<and> out s' = out s @ render s e (take n content)"
begin

text \<open>The text of a sink after a sequence of messages.\<close>

definition produced :: "'s \<Rightarrow> (log_entry \<times> string) list \<Rightarrow> string" where
  "produced s ms = out s @ concat (map (\<lambda>(e, t). render s e t) ms)"

definition all_accept :: "'s list \<Rightarrow> (log_entry \<times> string) list \<Rightarrow> bool" where
  "all_accept sinks ms \<longleftrightarrow> (\<forall>s \<in> set sinks. sink_inv s \<and> (\<forall>(e, t) \<in> set ms. accepts s e t))"

text \<open>\<open>sinks'\<close> is what \<open>sinks\<close> become when each is given the messages \<open>ms\<close> in order.\<close>

definition fed :: "'s list \<Rightarrow> (log_entry \<times> string) list \<Rightarrow> 's list \<Rightarrow> bool" where
  "fed sinks ms sinks' \<longleftrightarrow> list_all2 (\<lambda>s s'. sink_inv s' \<and> render s' = render s \<and>
     accepts s' = accepts s \<and> target s' = target s \<and> out s' = produced s ms) sinks sinks'"

lemma fed_refl: "all_accept sinks ms \<Longrightarrow> fed sinks [] sinks"
  by (auto simp: fed_def produced_def all_accept_def list_all2_same)

lemma dispatch_fed:
  assumes "n \<le> length content" "all_accept sinks ((e, take n content) # ms)"
  shows "\<exists>sinks'. dispatch_sinks on_log e content n sinks = Some sinks' \<and>
           fed sinks [(e, take n content)] sinks' \<and> all_accept sinks' ms"
  using assms
proof (induction sinks)
  case (Cons s sinks)
  have s: "sink_inv s" "accepts s e (take n content)" "\<forall>(e, t) \<in> set ms. accepts s e t"
    and rest: "all_accept sinks ((e, take n content) # ms)"
    using Cons.prems(2) by (auto simp: all_accept_def)
  obtain s' where s': "on_log s e content n = Some s'" "sink_inv s'" "render s' = render s"
      "accepts s' = accepts s" "target s' = target s" "out s' = out s @ render s e (take n content)"
    using on_log_ok [OF s(1) Cons.prems(1) s(2)] by blast
  from Cons.IH [OF Cons.prems(1) rest] s s' show ?case
    by (auto simp: fed_def produced_def all_accept_def)
qed (simp add: fed_def all_accept_def)

lemma fed_append:
  assumes "fed s1 ms s2" "fed s2 ns s3"
  shows "fed s1 (ms @ ns) s3"
  using assms by (auto simp: fed_def list_all2_conv_all_nth produced_def)

lemma all_accept_append: "all_accept sinks (ms @ ns) \<longleftrightarrow> all_accept sinks ms \<and> all_accept sinks ns"
  by (auto simp: all_accept_def)

lemma fed_accept: "fed s1 ms s2 \<Longrightarrow> all_accept s1 ns \<Longrightarrow> all_accept s2 ns"
  unfolding fed_def by (induction rule: list_all2_induct) (auto simp: all_accept_def)

end

end
