(* ===== verification/Args_Codec.thy ===== *)
theory Args_Codec
  imports Prelude
begin

text \<open>
  The argument codec: the traits of \<^verbatim>\<open>src/src/include/femtolog/base/serialize_util.h\<close>, the writer
  of \<^verbatim>\<open>args_serializer.h\<close> and the reader of \<^verbatim>\<open>args_deserializer.h\<close> under
  \<^verbatim>\<open>src/src/include/femtolog/logging/impl/\<close>, and \<^verbatim>\<open>FormatDispatcher\<close> of \<^verbatim>\<open>base/format_util.h\<close>.

  The templates are functions of the C++ types they are instantiated with. A value of a
  trivially copyable type is its object representation, a string-like value its address and
  text, an object of another class its address and representation. The text the fmt library
  produces for a format string and arguments is the parameter \<open>vformat\<close>; the memory a
  pointer is read from after the call is the parameter \<open>mem\<close>.
\<close>

subsection \<open>Types and traits\<close>

datatype cxx_type =
    T_char_array nat
  | T_const_char_array_ref nat
  | T_char_ptr
  | T_string
  | T_string_view
  | T_trivial nat
  | T_class bool nat

fun decay :: "cxx_type \<Rightarrow> cxx_type" where
  "decay (T_char_array n) = T_char_ptr"
| "decay (T_const_char_array_ref n) = T_char_ptr"
| "decay T = T"

fun is_array :: "cxx_type \<Rightarrow> bool" where
  "is_array (T_char_array n) = True"
| "is_array _ = False"

fun is_fixed_string_trait :: "cxx_type \<Rightarrow> bool" where
  "is_fixed_string_trait (T_const_char_array_ref n) = True"
| "is_fixed_string_trait _ = False"

fun convertible_to_string_view :: "cxx_type \<Rightarrow> bool" where
  "convertible_to_string_view T_char_ptr = True"
| "convertible_to_string_view T_string = True"
| "convertible_to_string_view T_string_view = True"
| "convertible_to_string_view (T_class c n) = c"
| "convertible_to_string_view (T_char_array n) = True"
| "convertible_to_string_view (T_const_char_array_ref n) = True"
| "convertible_to_string_view (T_trivial n) = False"

fun trivially_copyable :: "cxx_type \<Rightarrow> bool" where
  "trivially_copyable T_string = False"
| "trivially_copyable (T_class c n) = False"
| "trivially_copyable _ = True"

fun sizeof :: "cxx_type \<Rightarrow> nat" where
  "sizeof (T_char_array n) = n"
| "sizeof (T_const_char_array_ref n) = n"
| "sizeof T_char_ptr = 8"
| "sizeof T_string = 32"
| "sizeof T_string_view = 16"
| "sizeof (T_trivial n) = n"
| "sizeof (T_class c n) = n"

definition is_char_array :: "cxx_type \<Rightarrow> bool" where
  "is_char_array T = is_array (decay T)"

definition is_static_string :: "cxx_type \<Rightarrow> bool" where
  "is_static_string T = is_fixed_string_trait (decay T)"

definition is_dynamic_string :: "cxx_type \<Rightarrow> bool" where
  "is_dynamic_string T \<longleftrightarrow>
     (convertible_to_string_view (decay T) \<or> decay T = T_string \<or> decay T = T_string_view \<or>
      is_char_array T) \<and> \<not> is_static_string T"

definition is_string_like :: "cxx_type \<Rightarrow> bool" where
  "is_string_like T \<longleftrightarrow> is_dynamic_string T \<or> is_static_string T"

definition is_serializeable :: "cxx_type \<Rightarrow> bool" where
  "is_serializeable T \<longleftrightarrow> is_string_like T \<or> trivially_copyable (decay T)"

subsection \<open>Values\<close>

datatype arg_value =
    V_text u64 string
  | V_null
  | V_bytes "byte list"
  | V_object u64 "byte list"

fun has_type :: "arg_value \<Rightarrow> cxx_type \<Rightarrow> bool" where
  "has_type (V_text p s) T = (is_string_like T \<and> length s < 2 ^ 64)"
| "has_type V_null T = (decay T = T_char_ptr)"
| "has_type (V_bytes bs) T = (T = T_trivial (length bs))"
| "has_type (V_object p bs) T = (T = T_class False (length bs))"

text \<open>
  \<^verbatim>\<open>to_string_view\<close>: the conversion of a null \<^verbatim>\<open>char\<close> pointer reads through it and is undefined.
\<close>

fun string_view_of :: "arg_value \<Rightarrow> (u64 \<times> string) option" where
  "string_view_of (V_text p s) = Some (p, s)"
| "string_view_of _ = None"

definition to_string_view :: "cxx_type \<Rightarrow> arg_value \<Rightarrow> (u64 \<times> string) option" where
  "to_string_view T value =
     (if is_char_array (decay T)
      then (if value = V_null then Some (0, ''(nullptr)'') else string_view_of value)
      else string_view_of value)"

subsection \<open>Sizes\<close>

definition sizeof_SerializedArgsHeader :: nat where
  "sizeof_SerializedArgsHeader = 16"

definition add_arg_size :: "bool \<Rightarrow> cxx_type \<Rightarrow> nat" where
  "add_arg_size ref_mode T =
     (if is_string_like (decay T) then (if ref_mode then 8 + 8 else 0)
      else if trivially_copyable (decay T) then sizeof (decay T)
      else if ref_mode then 8 else 0)"

text \<open>The \<^verbatim>\<open>static_assert\<close>s of the last branches: what may be logged at all.\<close>

definition arg_compiles :: "bool \<Rightarrow> cxx_type \<Rightarrow> bool" where
  "arg_compiles ref_mode T \<longleftrightarrow>
     is_string_like (decay T) \<or> trivially_copyable (decay T) \<or> ref_mode"

definition calculate_min_serialized_size :: "bool \<Rightarrow> cxx_type list \<Rightarrow> nat" where
  "calculate_min_serialized_size ref_mode Ts =
     foldl (\<lambda>n T. n + add_arg_size ref_mode T) sizeof_SerializedArgsHeader Ts"

definition add_dynamic_string_length :: "size_t \<Rightarrow> cxx_type \<times> arg_value \<Rightarrow> size_t option" where
  "add_dynamic_string_length dest a = (case a of (T, value) \<Rightarrow>
     if is_string_like (decay T)
     then do { (p, s) \<leftarrow> to_string_view T value; Some (dest + (8 + of_nat (length s))) }
     else Some dest)"

fun dynamic_strings_length :: "size_t \<Rightarrow> (cxx_type \<times> arg_value) list \<Rightarrow> size_t option" where
  "dynamic_strings_length dest [] = Some dest"
| "dynamic_strings_length dest (a # as) =
     do { d \<leftarrow> add_dynamic_string_length dest a; dynamic_strings_length d as }"

subsection \<open>Writing\<close>

definition write_arg ::
  "bool \<Rightarrow> cxx_type \<times> arg_value \<Rightarrow> byte list \<times> nat \<Rightarrow> (byte list \<times> nat) option" where
  "write_arg ref_mode a bp = (case (a, bp) of ((T, value), (buf, pos)) \<Rightarrow>
     if is_string_like (decay T) then
       (if ref_mode then do {
          (raw, s) \<leftarrow> to_string_view T value;
          buf \<leftarrow> memcpy buf pos (le_enc 8 (unat raw));
          buf \<leftarrow> memcpy buf (pos + 8) (le_enc 8 (length s));
          Some (buf, pos + 8 + 8)
        } else do {
          (raw, s) \<leftarrow> to_string_view T value;
          buf \<leftarrow> memcpy buf pos (le_enc 8 (length s));
          if 0 < length s
          then do { buf \<leftarrow> memcpy buf (pos + 8) s; Some (buf, pos + 8 + length s) }
          else Some (buf, pos + 8)
        })
     else if trivially_copyable (decay T) then
       (case value of V_bytes bs \<Rightarrow> do { buf \<leftarrow> memcpy buf pos bs; Some (buf, pos + sizeof (decay T)) }
        | _ \<Rightarrow> None)
     else if ref_mode then
       (case value of V_object addr bs \<Rightarrow> do {
          bytes \<leftarrow> mem_read bs 0 8;
          buf \<leftarrow> memcpy buf pos bytes;
          Some (buf, pos + 8)
        } | _ \<Rightarrow> None)
     else None)"

fun write_args ::
  "bool \<Rightarrow> (cxx_type \<times> arg_value) list \<Rightarrow> byte list \<times> nat \<Rightarrow> (byte list \<times> nat) option" where
  "write_args ref_mode [] bp = Some bp"
| "write_args ref_mode (a # as) bp = do { bp \<leftarrow> write_arg ref_mode a bp; write_args ref_mode as bp }"

record serialized_args =
  sa_buffer :: "byte list"
  sa_size :: size_t

definition sa_resize :: "serialized_args \<Rightarrow> size_t \<Rightarrow> serialized_args" where
  "sa_resize sa n = sa\<lparr>sa_size := n\<rparr>"

definition sa_clear :: "serialized_args \<Rightarrow> serialized_args" where
  "sa_clear sa = sa\<lparr>sa_size := 0\<rparr>"

text \<open>\<^verbatim>\<open>kCapacity\<close> is the length of the buffer.\<close>

definition serialize ::
  "bool \<Rightarrow> u64 \<Rightarrow> u64 \<Rightarrow> (cxx_type \<times> arg_value) list \<Rightarrow> serialized_args \<Rightarrow> serialized_args option" where
  "serialize ref_mode format_func deserialize_func args sa =
     (let kTotalSizeExcludingDynStr = calculate_min_serialized_size ref_mode (map fst args);
          header = le_enc 8 (unat format_func) @ le_enc 8 (unat deserialize_func)
      in if ref_mode then do {
           buf \<leftarrow> memcpy (sa_buffer sa) 0 header;
           (buf, pos) \<leftarrow> write_args True args (buf, sizeof_SerializedArgsHeader);
           Some (sa_resize (sa\<lparr>sa_buffer := buf\<rparr>) (of_nat kTotalSizeExcludingDynStr))
         } else do {
           dyn \<leftarrow> dynamic_strings_length 0 args;
           let total_serialized_size = of_nat kTotalSizeExcludingDynStr + dyn;
           if total_serialized_size \<ge> of_nat (length (sa_buffer sa)) then Some (sa_resize sa 0)
           else do {
             buf \<leftarrow> memcpy (sa_buffer sa) 0 header;
             (buf, pos) \<leftarrow> write_args False args (buf, sizeof_SerializedArgsHeader);
             Some (sa_resize (sa\<lparr>sa_buffer := buf\<rparr>) (of_nat kTotalSizeExcludingDynStr + dyn))
           }
         })"

subsection \<open>Reading\<close>

text \<open>
  What the reader hands to \<^verbatim>\<open>fmt::make_format_args\<close>: an owned string, a view that still has to be
  read through, the bytes of a trivially copyable value, or a copy of the object found at an
  address.
\<close>

datatype read_value =
    R_string string
  | R_view u64 nat
  | R_bytes "byte list"
  | R_copy u64 nat

definition read_arg :: "bool \<Rightarrow> cxx_type \<Rightarrow> byte list \<Rightarrow> nat \<Rightarrow> (read_value \<times> nat) option" where
  "read_arg ref_mode T data offset =
     (if is_string_like (decay T) then
        (if ref_mode then do {
           raw_ptr \<leftarrow> mem_read data offset 8;
           str_len \<leftarrow> mem_read data (offset + 8) 8;
           Some (R_view (of_nat (le_dec raw_ptr)) (le_dec str_len), offset + 8 + 8)
         } else do {
           str_len \<leftarrow> mem_read data offset 8;
           (if 0 < le_dec str_len then do {
              str \<leftarrow> mem_read data (offset + 8) (le_dec str_len);
              Some (R_string str, offset + 8 + le_dec str_len)
            } else Some (R_string [], offset + 8 + le_dec str_len))
         })
      else if trivially_copyable (decay T) then do {
        value \<leftarrow> mem_read data offset (sizeof (decay T));
        Some (R_bytes value, offset + sizeof (decay T))
      }
      else if ref_mode then do {
        raw_addr \<leftarrow> mem_read data offset 8;
        Some (R_copy (of_nat (le_dec raw_addr)) (sizeof (decay T)), offset + 8)
      }
      else None)"

fun read_args_seq :: "bool \<Rightarrow> cxx_type list \<Rightarrow> byte list \<Rightarrow> nat \<Rightarrow> read_value list option" where
  "read_args_seq ref_mode [] data offset = Some []"
| "read_args_seq ref_mode (T # Ts) data offset = do {
     (v, o') \<leftarrow> read_arg ref_mode T data offset;
     vs \<leftarrow> read_args_seq ref_mode Ts data o';
     Some (v # vs)
   }"

text \<open>
  Five and more arguments: the lambdas that read and advance \<^verbatim>\<open>offset\<close> are arguments of one call
  of \<^verbatim>\<open>std::make_tuple\<close>, which C++ evaluates in an unspecified order. The order is a parameter:
  the list of argument positions as the compiler runs them.
\<close>

fun read_args_in_order ::
  "nat list \<Rightarrow> bool \<Rightarrow> cxx_type list \<Rightarrow> byte list \<Rightarrow> nat \<Rightarrow> read_value list \<Rightarrow> read_value list option" where
  "read_args_in_order [] ref_mode Ts data offset vs = Some vs"
| "read_args_in_order (i # is) ref_mode Ts data offset vs = do {
     (v, o') \<leftarrow> read_arg ref_mode (Ts ! i) data offset;
     read_args_in_order is ref_mode Ts data o' (vs[i := v])
   }"

definition format_directly ::
  "nat list \<Rightarrow> bool \<Rightarrow> cxx_type list \<Rightarrow> byte list \<Rightarrow> read_value list option" where
  "format_directly order ref_mode Ts data =
     (if length Ts \<in> {1, 2, 3, 4} then read_args_seq ref_mode Ts data 0
      else read_args_in_order order ref_mode Ts data 0 (replicate (length Ts) (R_bytes [])))"

definition deserialize_args ::
  "nat list \<Rightarrow> bool \<Rightarrow> cxx_type list \<Rightarrow> byte list \<Rightarrow> read_value list option" where
  "deserialize_args order ref_mode Ts data =
     (case Ts of
        [T] \<Rightarrow>
          if trivially_copyable (decay T) \<and> \<not> is_string_like (decay T) \<and> sizeof (decay T) \<le> 8
          then do { value \<leftarrow> mem_read data 0 (sizeof (decay T)); Some [R_bytes value] }
          else format_directly order ref_mode Ts data
      | _ \<Rightarrow> format_directly order ref_mode Ts data)"

subsection \<open>Formatting\<close>

datatype fmt_arg = F_text string | F_value cxx_type "byte list"

fun fmt_arg_of :: "(u64 \<Rightarrow> nat \<Rightarrow> byte list option) \<Rightarrow> cxx_type \<Rightarrow> read_value \<Rightarrow> fmt_arg option" where
  "fmt_arg_of mem T (R_string s) = Some (F_text s)"
| "fmt_arg_of mem T (R_view p n) = map_option F_text (mem p n)"
| "fmt_arg_of mem T (R_bytes bs) = Some (F_value T bs)"
| "fmt_arg_of mem T (R_copy p n) = map_option (F_value T) (mem p n)"

fun make_format_args ::
  "(u64 \<Rightarrow> nat \<Rightarrow> byte list option) \<Rightarrow> cxx_type list \<Rightarrow> read_value list \<Rightarrow> fmt_arg list option" where
  "make_format_args mem (T # Ts) (v # vs) = do {
     a \<leftarrow> fmt_arg_of mem T v; as \<leftarrow> make_format_args mem Ts vs; Some (a # as) }"
| "make_format_args mem [] [] = Some []"
| "make_format_args mem _ _ = None"

text \<open>
  \<^verbatim>\<open>FormatDispatcher::format\<close>: \<^verbatim>\<open>vformat_to_n\<close> stores at most \<^verbatim>\<open>capacity()\<close> characters and reports the
  size of the untruncated output.
\<close>

definition dispatcher_format ::
  "(string \<Rightarrow> fmt_arg list \<Rightarrow> string) \<Rightarrow> string \<Rightarrow> fmt_arg list \<Rightarrow> byte list \<Rightarrow> byte list \<times> nat" where
  "dispatcher_format vformat fmt args buf =
     (let out = vformat fmt args
      in (take (length buf) out @ drop (length out) buf, length out))"

text \<open>
  \<^verbatim>\<open>FixedString<N>\<close>, built from an array of \<open>N + 1\<close> characters whose last one the constructor replaces by
  a NUL; \<^verbatim>\<open>c_str()\<close> is \<open>fx_data\<close>. An array of another length does not compile.
\<close>

record fixed_string =
  fx_data :: "byte list"
  fx_size :: nat

primrec fixed_copy :: "nat \<Rightarrow> byte list \<Rightarrow> byte list \<Rightarrow> byte list" where
  "fixed_copy 0 str data = data"
| "fixed_copy (Suc i) str data = (fixed_copy i str data)[i := str ! i]"

definition fixed_string_new :: "nat \<Rightarrow> byte list \<Rightarrow> fixed_string option" where
  "fixed_string_new N str =
     (if length str = N + 1 then
        let data = fixed_copy N str (replicate (N + 1) (CHR 0x00))
        in Some \<lparr>fx_data = data[N := CHR 0x00], fx_size = N\<rparr>
      else None)"

definition fixed_view :: "fixed_string \<Rightarrow> byte list" where
  "fixed_view f = take (fx_size f) (fx_data f)"

lemma fixed_copy_take:
  "n < length str \<Longrightarrow> length data = length str \<Longrightarrow> fixed_copy n str data = take n str @ drop n data"
  by (induction n) (auto simp: list_update_append take_Suc_conv_app_nth Cons_nth_drop_Suc [symmetric] min_def)

text \<open>The view of a string literal, an array that ends in a NUL, is its text without the NUL.\<close>

lemma fixed_view_literal:
  "\<exists>f. fixed_string_new (length s) (s @ [CHR 0x00]) = Some f \<and> fixed_view f = s \<and> fx_data f = s @ [CHR 0x00]"
proof -
  have "drop (length s) (CHR 0x00 # replicate (length s) (CHR 0x00)) = [CHR 0x00]"
    unfolding replicate_Suc [symmetric] drop_replicate by simp
  then show ?thesis
    by (simp add: fixed_string_new_def fixed_view_def fixed_copy_take list_update_append)
qed

text \<open>\<^verbatim>\<open>timestamp_ns\<close>: the seconds and nanoseconds of the real-time clock, in unsigned arithmetic.\<close>

definition timestamp_ns :: "int \<times> int \<Rightarrow> u64" where
  "timestamp_ns ts = word_of_int (fst ts) * 1000000000 + word_of_int (snd ts)"

definition deserialize_and_format ::
  "(u64 \<Rightarrow> nat \<Rightarrow> byte list option) \<Rightarrow> (string \<Rightarrow> fmt_arg list \<Rightarrow> string) \<Rightarrow> nat list \<Rightarrow>
   bool \<Rightarrow> cxx_type list \<Rightarrow> string \<Rightarrow> byte list \<Rightarrow> byte list \<Rightarrow> (byte list \<times> nat) option" where
  "deserialize_and_format mem vformat order ref_mode Ts fmt buf data = do {
     vs \<leftarrow> deserialize_args order ref_mode Ts data;
     args \<leftarrow> make_format_args mem (map decay Ts) vs;
     Some (dispatcher_format vformat fmt args buf)
   }"

subsection \<open>The image of an argument list\<close>

definition enc_arg :: "bool \<Rightarrow> cxx_type \<times> arg_value \<Rightarrow> byte list" where
  "enc_arg ref_mode a = (case a of
     (T, V_text p s) \<Rightarrow> (if ref_mode then le_enc 8 (unat p) @ le_enc 8 (length s)
                        else le_enc 8 (length s) @ s)
   | (T, V_bytes bs) \<Rightarrow> bs
   | (T, V_object p bs) \<Rightarrow> take 8 bs
   | (T, V_null) \<Rightarrow> [])"

definition enc_args :: "bool \<Rightarrow> (cxx_type \<times> arg_value) list \<Rightarrow> byte list" where
  "enc_args ref_mode args = concat (map (enc_arg ref_mode) args)"

text \<open>An argument the codec carries by value or, in reference mode, a string by address.\<close>

fun plain_arg :: "cxx_type \<times> arg_value \<Rightarrow> bool" where
  "plain_arg (T, V_text p s) = has_type (V_text p s) T"
| "plain_arg (T, V_bytes bs) = has_type (V_bytes bs) T"
| "plain_arg _ = False"

fun delivered :: "bool \<Rightarrow> arg_value \<Rightarrow> read_value" where
  "delivered ref_mode (V_text p s) = (if ref_mode then R_view p (length s) else R_string s)"
| "delivered ref_mode (V_bytes bs) = R_bytes bs"
| "delivered ref_mode (V_object p bs) = R_copy p (length bs)"
| "delivered ref_mode V_null = R_string []"

fun fmt_value :: "cxx_type \<times> arg_value \<Rightarrow> fmt_arg" where
  "fmt_value (T, V_text p s) = F_text s"
| "fmt_value (T, V_bytes bs) = F_value T bs"
| "fmt_value (T, V_object p bs) = F_value T bs"
| "fmt_value (T, V_null) = F_text []"

definition args_header :: "u64 \<Rightarrow> u64 \<Rightarrow> byte list" where
  "args_header f d = le_enc 8 (unat f) @ le_enc 8 (unat d)"

fun text_size :: "arg_value \<Rightarrow> nat" where
  "text_size (V_text p s) = 8 + length s"
| "text_size _ = 0"

subsection \<open>Lemmas\<close>

lemma decay_idem [simp]: "decay (decay T) = decay T"
  by (cases T) auto

lemma not_char_array [simp]: "\<not> is_char_array T"
  by (cases T) (simp_all add: is_char_array_def)

lemma not_static_string [simp]: "\<not> is_static_string T"
  by (cases T) (simp_all add: is_static_string_def)

lemma is_string_like_iff: "is_string_like T \<longleftrightarrow> convertible_to_string_view (decay T)"
  by (cases T) (simp_all add: is_string_like_def is_dynamic_string_def)

lemma is_string_like_decay [simp]: "is_string_like (decay T) = is_string_like T"
  by (simp add: is_string_like_iff)

lemma to_string_view_eq [simp]: "to_string_view T v = string_view_of v"
  by (simp add: to_string_view_def)

lemma not_string_like_trivial [simp]: "\<not> is_string_like (T_trivial n)"
  by (simp add: is_string_like_iff)

lemma not_string_like_class [simp]: "is_string_like (T_class c n) = c"
  by (simp add: is_string_like_iff)

lemma write_arg_plain:
  assumes "plain_arg a"
  shows "write_arg m a (buf, pos) =
           do { b \<leftarrow> memcpy buf pos (enc_arg m a); Some (b, pos + length (enc_arg m a)) }"
  using assms
proof (cases a rule: plain_arg.cases)
  case (1 T p s)
  show ?thesis
  proof (cases m)
    case True
    then show ?thesis using 1 assms
      by (simp add: write_arg_def enc_arg_def memcpy_append add.commute)
  next
    case False
    then show ?thesis using 1 assms
      by (cases "s = []") (simp_all add: write_arg_def enc_arg_def memcpy_append add.assoc)
  qed
next
  case (2 T bs)
  then show ?thesis using assms by (simp add: write_arg_def enc_arg_def)
qed auto

lemma write_args_plain:
  assumes "list_all plain_arg as"
  shows "pos \<le> length buf \<Longrightarrow> write_args m as (buf, pos) =
           do { b \<leftarrow> memcpy buf pos (enc_args m as); Some (b, pos + length (enc_args m as)) }"
  using assms
proof (induction as arbitrary: buf pos)
  case Nil
  then show ?case by (simp add: enc_args_def mem_simps)
next
  case (Cons a as)
  show ?case
  proof (cases "memcpy buf pos (enc_arg m a)")
    case None
    then show ?thesis using Cons.prems by (simp add: enc_args_def memcpy_append write_arg_plain)
  next
    case (Some b)
    have "pos + length (enc_arg m a) \<le> length b"
      using Some memcpy_length [OF Some] by (simp add: memcpy_def split: if_splits)
    from Cons.IH [OF this] Cons.prems show ?thesis
      using Some by (simp add: enc_args_def memcpy_append write_arg_plain add.assoc)
  qed
qed

lemma enc_arg_size:
  assumes "plain_arg a"
  shows "length (enc_arg m a) = add_arg_size m (fst a) +
           (if m then 0 else case snd a of V_text p s \<Rightarrow> 8 + length s | _ \<Rightarrow> 0)"
  using assms by (cases a rule: plain_arg.cases) (auto simp: enc_arg_def add_arg_size_def)

lemma min_size_Cons:
  "calculate_min_serialized_size m (T # Ts) = add_arg_size m T + calculate_min_serialized_size m Ts"
proof -
  have "foldl (\<lambda>n T. n + add_arg_size m T) k Ts = k + foldl (\<lambda>n T. n + add_arg_size m T) 0 Ts" for k
    by (induction Ts arbitrary: k) (simp, metis (no_types, lifting) add.assoc add_0 foldl_Cons)
  from this [of "16 + add_arg_size m T"] this [of 16] show ?thesis
    by (simp add: calculate_min_serialized_size_def sizeof_SerializedArgsHeader_def)
qed

lemma min_size_ref:
  "list_all plain_arg as \<Longrightarrow>
   calculate_min_serialized_size True (map fst as) = 16 + length (enc_args True as)"
  by (induction as)
    (simp_all add: min_size_Cons enc_args_def enc_arg_size,
     simp add: calculate_min_serialized_size_def sizeof_SerializedArgsHeader_def)

lemma dynamic_strings_length_eq:
  "list_all plain_arg as \<Longrightarrow>
   dynamic_strings_length d as = Some (d + of_nat (sum_list (map (text_size \<circ> snd) as)))"
proof (induction as arbitrary: d)
  case (Cons a as)
  then show ?case
    by (cases a rule: plain_arg.cases)
      (simp_all add: add_dynamic_string_length_def algebra_simps)
qed simp

lemma min_size_value:
  "list_all plain_arg as \<Longrightarrow>
   calculate_min_serialized_size False (map fst as) + sum_list (map (text_size \<circ> snd) as) =
     16 + length (enc_args False as)"
proof (induction as)
  case Nil
  then show ?case
    by (simp add: calculate_min_serialized_size_def sizeof_SerializedArgsHeader_def enc_args_def)
next
  case (Cons a as)
  then show ?case
    by (cases a rule: plain_arg.cases) (simp_all add: min_size_Cons enc_args_def enc_arg_size)
qed

lemma read_arg_plain:
  assumes "plain_arg a" "length pre = k"
  shows "read_arg m (fst a) (pre @ enc_arg m a @ post) k =
           Some (delivered m (snd a), k + length (enc_arg m a))"
  using assms(1)
proof (cases a rule: plain_arg.cases)
  case (1 T p s)
  have p: "unat p < 256 ^ 8" using unsigned_less [of p, where 'a = nat] by simp
  have s: "length s < 256 ^ 8" using 1 assms(1) by simp
  have a: "mem_read (pre @ le_enc 8 x @ s' @ post') k 8 = Some (le_enc 8 x)"
          "mem_read (pre @ le_enc 8 x @ s' @ post') (k + 8) (length s') = Some s'" for x s' post'
    using assms(2) by (simp_all add: mem_read_def)
  show ?thesis
  proof (cases m)
    case True
    then show ?thesis using 1 assms a(1) [of "unat p" "le_enc 8 (length s)" post]
        a(2) [of "unat p" "le_enc 8 (length s)" post]
      by (simp add: read_arg_def enc_arg_def le_dec_le_enc_id [OF p] le_dec_le_enc_id [OF s])
  next
    case False
    then show ?thesis using 1 assms a [of "length s" s post]
      by (cases "s = []") (simp_all add: read_arg_def enc_arg_def le_dec_le_enc_id [OF s] le_dec_le_enc)
  qed
next
  case (2 T bs)
  then show ?thesis using assms by (simp add: read_arg_def enc_arg_def mem_simps)
qed auto

lemma read_byte:
  "read_arg m (T_trivial 1) data k = (if k < length data then Some (R_bytes [data ! k], Suc k) else None)"
  by (simp add: read_arg_def mem_read_def take_Suc Cons_nth_drop_Suc [symmetric] hd_drop_conv_nth)

lemma read_args_seq_plain:
  "list_all plain_arg as \<Longrightarrow> length pre = k \<Longrightarrow>
   read_args_seq m (map fst as) (pre @ enc_args m as @ post) k = Some (map (delivered m \<circ> snd) as)"
proof (induction as arbitrary: pre k)
  case (Cons a as)
  have "read_args_seq m (map fst as) ((pre @ enc_arg m a) @ enc_args m as @ post)
          (k + length (enc_arg m a)) = Some (map (delivered m \<circ> snd) as)"
    using Cons.prems by (intro Cons.IH) auto
  then show ?case
    using Cons.prems read_arg_plain [of a pre k m "enc_args m as @ post"] by (simp add: enc_args_def)
qed simp

text \<open>Left to right, the tuple branch reads what the sequential branches read.\<close>

lemma read_args_in_order_seq:
  "length vs = length Us + length Ts \<Longrightarrow>
   read_args_in_order [length Us..<length Us + length Ts] m (Us @ Ts) data off vs =
     map_option (\<lambda>ws. take (length Us) vs @ ws) (read_args_seq m Ts data off)"
proof (induction Ts arbitrary: Us off vs)
  case (Cons T Ts)
  have l: "[length Us..<length Us + length (T # Ts)] =
             length Us # [length (Us @ [T])..<length (Us @ [T]) + length Ts]"
    by (simp add: upt_conv_Cons del: upt_Suc)
  have s: "Us @ T # Ts = (Us @ [T]) @ Ts" by simp
  show ?case
  proof (cases "read_arg m T data off")
    case (Some vo)
    obtain v o' where vo: "vo = (v, o')" by (cases vo)
    have t: "take (length (Us @ [T])) (vs[length Us := v]) = take (length Us) vs @ [v]"
      using Cons.prems by (simp add: take_Suc_conv_app_nth)
    have "read_args_in_order [length (Us @ [T])..<length (Us @ [T]) + length Ts] m ((Us @ [T]) @ Ts)
            data o' (vs[length Us := v]) =
          map_option (\<lambda>ws. take (length (Us @ [T])) (vs[length Us := v]) @ ws) (read_args_seq m Ts data o')"
      by (rule Cons.IH) (use Cons.prems in simp)
    then show ?thesis
      unfolding t l by (cases "read_args_seq m Ts data o'") (simp_all add: Some vo)
  qed (unfold l, simp)
qed simp

lemma deserialize_args_seq:
  assumes "list_all plain_arg as" "as \<noteq> []" "length as < 5 \<or> order = [0..<length as]"
  shows "deserialize_args order m (map fst as) (enc_args m as @ post) =
           Some (map (delivered m \<circ> snd) as)"
proof -
  have r: "read_args_seq m (map fst as) (enc_args m as @ post) 0 = Some (map (delivered m \<circ> snd) as)"
    using read_args_seq_plain [OF assms(1), of "[]" 0 m post] by simp
  have "length as = 1 \<or> length as = 2 \<or> length as = 3 \<or> length as = 4 \<or> 5 \<le> length as"
    using length_greater_0_conv [of as] assms(2) by arith
  then have f: "format_directly order m (map fst as) (enc_args m as @ post) =
      Some (map (delivered m \<circ> snd) as)"
    using r assms(3) read_args_in_order_seq [of "replicate (length as) (R_bytes [])" "[]" "map fst as" m
        "enc_args m as @ post" 0]
    by (auto simp: format_directly_def)
  show ?thesis
  proof (cases "map fst as" rule: remdups_adj.cases)
    case (2 T)
    then obtain a where a: "as = [a]" "fst a = T" by (cases as) auto
    show ?thesis
    proof (cases a rule: plain_arg.cases)
      case (2 T bs)
      then show ?thesis using a assms f
        by (auto simp: deserialize_args_def enc_args_def enc_arg_def mem_read_def)
    qed (use a assms f in \<open>auto simp: deserialize_args_def\<close>)
  qed (use f in \<open>auto simp: deserialize_args_def\<close>)
qed

lemma length_args_header [simp]: "length (args_header f d) = 16"
  by (simp add: args_header_def)

lemma write_header_args:
  assumes "list_all plain_arg as" "16 + length (enc_args m as) \<le> length buf"
  shows "(do { b \<leftarrow> memcpy buf 0 (args_header f d); write_args m as (b, 16) }) =
           Some (args_header f d @ enc_args m as @ drop (16 + length (enc_args m as)) buf,
                 16 + length (enc_args m as))"
proof -
  obtain b where b: "memcpy buf 0 (args_header f d) = Some b" using assms(2) by (simp add: mem_simps)
  have "16 \<le> length b" using assms(2) memcpy_length [OF b] by simp
  moreover have "memcpy b 16 (enc_args m as) = memcpy buf 0 (args_header f d @ enc_args m as)"
    using b by (simp add: memcpy_append)
  ultimately show ?thesis
    using b assms by (simp add: write_args_plain mem_simps)
qed

lemma serialize_value_cases:
  assumes p: "list_all plain_arg as" and bnd: "16 + length (enc_args False as) < 2 ^ 64"
    and cap: "length (sa_buffer sa) < 2 ^ 64"
  shows "serialize False f d as sa =
     (if 16 + length (enc_args False as) \<ge> length (sa_buffer sa) then Some (sa\<lparr>sa_size := 0\<rparr>)
      else Some (sa\<lparr>sa_buffer := args_header f d @ enc_args False as @
                     drop (16 + length (enc_args False as)) (sa_buffer sa),
                   sa_size := of_nat (16 + length (enc_args False as))\<rparr>))"
proof -
  let ?n = "16 + length (enc_args False as)" and ?c = "length (sa_buffer sa)"
  let ?dyn = "of_nat (sum_list (map (text_size \<circ> snd) as)) :: size_t"
  have dyn: "dynamic_strings_length 0 as = Some ?dyn" using dynamic_strings_length_eq [OF p, of 0] by simp
  have tot: "of_nat (calculate_min_serialized_size False (map fst as)) + ?dyn = (of_nat ?n :: size_t)"
    using min_size_value [OF p] by (metis of_nat_add)
  have le: "(of_nat ?c :: size_t) \<le> of_nat ?n \<longleftrightarrow> ?c \<le> ?n"
    using bnd cap by (simp add: word_le_nat_alt unat_of_nat del: of_nat_add)
  show ?thesis
  proof (cases "?c \<le> ?n")
    case True
    then show ?thesis unfolding serialize_def Let_def dyn
      by (simp add: tot le sa_resize_def del: of_nat_add)
  next
    case False
    then have fits: "?n \<le> ?c" by simp
    from write_header_args [OF p fits, of f d] False show ?thesis
      unfolding serialize_def Let_def dyn args_header_def [symmetric] sizeof_SerializedArgsHeader_def
      by (auto simp: tot le sa_resize_def bind_eq_Some_conv simp del: of_nat_add)
  qed
qed

lemma serialize_ref_plain:
  assumes p: "list_all plain_arg as" and fits: "16 + length (enc_args True as) \<le> length (sa_buffer sa)"
  shows "serialize True f d as sa =
     Some (sa\<lparr>sa_buffer := args_header f d @ enc_args True as @
                drop (16 + length (enc_args True as)) (sa_buffer sa),
              sa_size := of_nat (16 + length (enc_args True as))\<rparr>)"
  using write_header_args [OF p fits, of f d]
  unfolding serialize_def Let_def args_header_def [symmetric] sizeof_SerializedArgsHeader_def
    min_size_ref [OF p]
  by (auto simp: sa_resize_def bind_eq_Some_conv simp del: of_nat_add)

lemma make_format_args_plain:
  assumes "list_all plain_arg as"
    and "\<And>T p s. m \<Longrightarrow> (T, V_text p s) \<in> set as \<Longrightarrow> mem p (length s) = Some s"
  shows "make_format_args mem (map decay (map fst as)) (map (delivered m \<circ> snd) as) =
           Some (map fmt_value as)"
  using assms
proof (induction as)
  case (Cons a as)
  have IH: "make_format_args mem (map decay (map fst as)) (map (delivered m \<circ> snd) as) =
           Some (map fmt_value as)" by (rule Cons.IH) (use Cons.prems in auto)
  have p: "plain_arg a" using Cons.prems(1) by simp
  have m: "mem p (length s) = Some s" if "m" "a = (T, V_text p s)" for T p s
    using Cons.prems(2) [of T p s] that by simp
  show ?case using IH p m
    by (cases a rule: plain_arg.cases) (auto simp: comp_def)
qed simp

text \<open>Bytes behind an encoding never matter.\<close>

lemma read_arg_mono: "read_arg m T data k = Some x \<Longrightarrow> read_arg m T (data @ rest) k = Some x"
  by (auto simp: read_arg_def bind_eq_Some_conv mem_read_mono split: if_splits)

lemma read_args_seq_mono:
  "read_args_seq m Ts data k = Some vs \<Longrightarrow> read_args_seq m Ts (data @ rest) k = Some vs"
  by (induction Ts arbitrary: k vs) (auto simp: bind_eq_Some_conv read_arg_mono)

lemma read_args_in_order_mono:
  "read_args_in_order js m Ts data k ws = Some vs \<Longrightarrow>
   read_args_in_order js m Ts (data @ rest) k ws = Some vs"
  by (induction js arbitrary: k ws) (auto simp: bind_eq_Some_conv read_arg_mono)

lemma deserialize_args_mono:
  assumes "deserialize_args order m Ts data = Some vs"
  shows "deserialize_args order m Ts (data @ rest) = Some vs"
proof -
  have "format_directly order m Ts (data @ rest) = Some vs" if "format_directly order m Ts data = Some vs"
    using that by (auto simp: format_directly_def read_args_seq_mono read_args_in_order_mono split: if_splits)
  then show ?thesis using assms
    by (auto simp: deserialize_args_def mem_read_mono bind_eq_Some_conv split: list.splits if_splits)
qed

subsection \<open>Typing of what is read\<close>

fun well_read :: "bool \<Rightarrow> cxx_type \<Rightarrow> read_value \<Rightarrow> bool" where
  "well_read m T (R_string s) \<longleftrightarrow> is_string_like T \<and> \<not> m"
| "well_read m T (R_view p n) \<longleftrightarrow> is_string_like T \<and> m \<and> n < 2 ^ 64"
| "well_read m T (R_bytes bs) \<longleftrightarrow>
     \<not> is_string_like T \<and> trivially_copyable (decay T) \<and> length bs = sizeof (decay T)"
| "well_read m T (R_copy p n) \<longleftrightarrow>
     \<not> is_string_like T \<and> \<not> trivially_copyable (decay T) \<and> m \<and> n = sizeof (decay T)"

fun fmt_typed :: "cxx_type \<Rightarrow> fmt_arg \<Rightarrow> bool" where
  "fmt_typed T (F_text s) \<longleftrightarrow> is_string_like T"
| "fmt_typed T (F_value U bs) \<longleftrightarrow> U = decay T \<and> \<not> is_string_like T \<and> length bs = sizeof (decay T)"

lemma read_arg_typed:
  assumes "read_arg m T data k = Some (v, k')"
  shows "well_read m T v \<and> k \<le> k' \<and> k' \<le> length data"
proof -
  have "le_dec bs < 2 ^ 64" if "length bs = 8" for bs using le_dec_bound [of bs] that by simp
  then show ?thesis using assms
    by (auto simp: read_arg_def mem_read_def bind_eq_Some_conv split: if_splits)
qed

lemma read_args_seq_typed:
  "read_args_seq m Ts data k = Some vs \<Longrightarrow> list_all2 (well_read m) Ts vs"
  by (induction Ts arbitrary: k vs) (auto simp: bind_eq_Some_conv dest: read_arg_typed)

lemma read_args_in_order_typed:
  assumes "read_args_in_order js m Ts data k vs = Some ws" "length vs = length Ts" "set js \<subseteq> {0..<length Ts}"
  shows "length ws = length Ts \<and> (\<forall>i < length Ts. if i \<in> set js then well_read m (Ts ! i) (ws ! i) else ws ! i = vs ! i)"
  using assms
proof (induction js arbitrary: k vs)
  case Nil
  then show ?case by simp
next
  case (Cons j js)
  then obtain v k' where r: "read_arg m (Ts ! j) data k = Some (v, k')"
    "read_args_in_order js m Ts data k' (vs[j := v]) = Some ws" by (auto simp: bind_eq_Some_conv)
  from Cons.IH [OF r(2)] Cons.prems(2,3) read_arg_typed [OF r(1)] show ?case
    by (auto simp: nth_list_update split: if_splits)
qed

lemma deserialize_args_typed:
  assumes "deserialize_args order m Ts data = Some vs" "set order = {0..<length Ts}"
  shows "list_all2 (well_read m) Ts vs"
proof -
  have "list_all2 (well_read m) Ts vs" if "format_directly order m Ts data = Some vs"
  proof (cases "length Ts \<in> {1, 2, 3, 4}")
    case True
    then show ?thesis using that read_args_seq_typed by (simp add: format_directly_def)
  next
    case False
    with that have "read_args_in_order order m Ts data 0 (replicate (length Ts) (R_bytes [])) = Some vs"
      by (simp add: format_directly_def)
    from read_args_in_order_typed [OF this] assms(2) show ?thesis by (simp add: list_all2_conv_all_nth)
  qed
  then show ?thesis using assms(1)
    by (auto simp: deserialize_args_def mem_read_def bind_eq_Some_conv split: list.splits if_splits)
qed

lemma make_format_args_typed:
  assumes "\<And>p n bs. mem p n = Some bs \<Longrightarrow> length bs = n"
  shows "list_all2 (well_read m) Ts vs \<Longrightarrow> make_format_args mem (map decay Ts) vs = Some as \<Longrightarrow>
    list_all2 fmt_typed Ts as"
proof (induction Ts vs arbitrary: as rule: list_all2_induct)
  case Nil
  then show ?case by simp
next
  case (Cons T Ts v vs)
  then show ?case using assms by (cases v) (auto simp: bind_eq_Some_conv)
qed

subsection \<open>Properties\<close>

text \<open>C7: By-value serialization and formatting are inverse. For strings and trivially copyable
  arguments whose encoding is smaller than the buffer, \<^verbatim>\<open>serialize\<close> is defined, stores the two
  function pointers and reports exactly the bytes it wrote; reading the payload behind the
  header (whatever follows it) and formatting it gives what formatting the original arguments
  gives. With five or more arguments this needs the compiler to evaluate the calls that read
  them from left to right.\<close>

theorem serialize_value_roundtrip:
  assumes "list_all plain_arg as" "as \<noteq> []" "length as < 5 \<or> order = [0..<length as]"
    and "16 + length (enc_args False as) < length (sa_buffer sa)" "length (sa_buffer sa) < 2 ^ 64"
  shows "\<exists>sa'. serialize False f d as sa = Some sa' \<and>
           unat (sa_size sa') = 16 + length (enc_args False as) \<and>
           length (sa_buffer sa') = length (sa_buffer sa) \<and>
           mem_read (sa_buffer sa') 0 8 = Some (le_enc 8 (unat f)) \<and>
           mem_read (sa_buffer sa') 8 8 = Some (le_enc 8 (unat d)) \<and>
           (\<forall>rest. deserialize_and_format mem vformat order False (map fst as) fmt buf
              (drop 16 (take (unat (sa_size sa')) (sa_buffer sa')) @ rest) =
            Some (dispatcher_format vformat fmt (map fmt_value as) buf))"
proof -
  let ?n = "16 + length (enc_args False as)"
  let ?b = "args_header f d @ enc_args False as @ drop ?n (sa_buffer sa)"
  let ?sa = "sa\<lparr>sa_buffer := ?b, sa_size := of_nat ?n\<rparr>"
  have s: "serialize False f d as sa = Some ?sa"
    using serialize_value_cases [OF assms(1), of sa f d] assms(4,5) by simp
  have u: "unat (of_nat ?n :: size_t) = ?n" using assms(4,5) by (simp add: unat_of_nat del: of_nat_add)
  have t: "drop 16 (take ?n ?b) = enc_args False as" by simp
  have "deserialize_and_format mem vformat order False (map fst as) fmt buf (enc_args False as @ rest) =
          Some (dispatcher_format vformat fmt (map fmt_value as) buf)" for rest
    using deserialize_args_seq [OF assms(1-3), of False rest] make_format_args_plain [OF assms(1), of False mem]
    by (simp add: deserialize_and_format_def)
  then show ?thesis
    using assms(4) s u t by (intro exI [of _ ?sa]) (simp add: args_header_def mem_read_def)
qed

theorem serialize_value_roundtrip_witness:
  "let sa = \<lparr>sa_buffer = replicate 64 CHR ''.'', sa_size = 0\<rparr>;
       as = [(T_string, V_text 0 ''ab''), (T_trivial 2, V_bytes ''xy'')]
   in \<exists>sa'. serialize False 1 2 as sa = Some sa' \<and> unat (sa_size sa') = 28 \<and>
        deserialize_and_format (\<lambda>_ _. None) (\<lambda>s _. s) [] False (map fst as) ''{}{}'' (replicate 4 CHR ''-'')
          (drop 16 (take (unat (sa_size sa')) (sa_buffer sa')) @ []) = Some (''{}{}'', 4)"
proof -
  let ?sa = "\<lparr>sa_buffer = replicate 64 CHR ''.'', sa_size = 0\<rparr>"
  let ?as = "[(T_string, V_text 0 ''ab''), (T_trivial 2, V_bytes ''xy'')]"
  have l: "length (enc_args False ?as) = 12" by (simp add: enc_args_def enc_arg_def)
  have p: "list_all plain_arg ?as" by (simp add: is_string_like_iff)
  have d: "dispatcher_format (\<lambda>s _. s) ''{}{}'' (map fmt_value ?as) (replicate 4 CHR ''-'') = (''{}{}'', 4)"
    by (simp add: dispatcher_format_def)
  obtain sa' where "serialize False 1 2 ?as ?sa = Some sa'" "unat (sa_size sa') = 28"
    "\<forall>rest. deserialize_and_format (\<lambda>_ _. None) (\<lambda>s _. s) [] False (map fst ?as) ''{}{}''
       (replicate 4 CHR ''-'') (drop 16 (take (unat (sa_size sa')) (sa_buffer sa')) @ rest) =
       Some (''{}{}'', 4)"
    using serialize_value_roundtrip [OF p, of "[]" ?sa 1 2 "\<lambda>_ _. None" "\<lambda>s _. s" "''{}{}''"
        "replicate 4 CHR ''-''"] unfolding l d by auto
  then show ?thesis unfolding Let_def by blast
qed



text \<open>C27: By-value serialization never writes outside the buffer: an argument list whose encoding,
  header included, does not stay below the capacity is refused with size zero and an untouched
  buffer, any other is accepted with the exact size of its encoding.\<close>

theorem serialize_value_capacity:
  assumes "list_all plain_arg as" "16 + length (enc_args False as) < 2 ^ 64"
    and "length (sa_buffer sa) < 2 ^ 64"
  shows "\<exists>sa'. serialize False f d as sa = Some sa' \<and>
     length (sa_buffer sa') = length (sa_buffer sa) \<and>
     (if length (sa_buffer sa) \<le> 16 + length (enc_args False as)
      then sa_size sa' = 0 \<and> sa_buffer sa' = sa_buffer sa
      else unat (sa_size sa') = 16 + length (enc_args False as) \<and>
           drop (unat (sa_size sa')) (sa_buffer sa') = drop (unat (sa_size sa')) (sa_buffer sa))"
proof -
  let ?n = "16 + length (enc_args False as)"
  have u: "unat (of_nat ?n :: size_t) = ?n" using assms(2) by (simp add: unat_of_nat del: of_nat_add)
  show ?thesis
    using serialize_value_cases [OF assms, of f d] u by (cases "length (sa_buffer sa) \<le> ?n") simp_all
qed

theorem serialize_value_capacity_witness:
  "\<exists>sa'. serialize False 1 2 [(T_char_array 5, V_text 9 ''abcd'')]
     \<lparr>sa_buffer = replicate 28 CHR ''.'', sa_size = 7\<rparr> = Some sa' \<and>
     sa_size sa' = 0 \<and> sa_buffer sa' = replicate 28 CHR ''.''"
proof -
  have l: "length (enc_args False [(T_char_array 5, V_text 9 ''abcd'')]) = 12"
    by (simp add: enc_args_def enc_arg_def)
  have p: "list_all plain_arg [(T_char_array 5, V_text 9 ''abcd'')]" by (simp add: is_string_like_iff)
  show ?thesis
    using serialize_value_capacity [OF p, of "\<lparr>sa_buffer = replicate 28 CHR ''.'', sa_size = 7\<rparr>" 1 2]
    unfolding l by auto
qed

text \<open>C28: Reference mode stores addresses and lengths. If the encoding fits the buffer (which the
  template checks at compile time) and every string still holds its text at its address when the
  entry is formatted, the formatted result is that of the original arguments.\<close>

theorem serialize_ref_roundtrip:
  assumes "list_all plain_arg as" "as \<noteq> []" "length as < 5 \<or> order = [0..<length as]"
    and "calculate_min_serialized_size True (map fst as) \<le> length (sa_buffer sa)"
    and "length (sa_buffer sa) < 2 ^ 64"
    and "\<And>T p s. (T, V_text p s) \<in> set as \<Longrightarrow> mem p (length s) = Some s"
  shows "\<exists>sa'. serialize True f d as sa = Some sa' \<and>
           unat (sa_size sa') = calculate_min_serialized_size True (map fst as) \<and>
           deserialize_and_format mem vformat order True (map fst as) fmt buf
              (drop 16 (take (unat (sa_size sa')) (sa_buffer sa'))) =
            Some (dispatcher_format vformat fmt (map fmt_value as) buf)"
proof -
  let ?n = "16 + length (enc_args True as)"
  have n: "calculate_min_serialized_size True (map fst as) = ?n" by (rule min_size_ref [OF assms(1)])
  let ?b = "args_header f d @ enc_args True as @ drop ?n (sa_buffer sa)"
  let ?sa = "sa\<lparr>sa_buffer := ?b, sa_size := of_nat ?n\<rparr>"
  have s: "serialize True f d as sa = Some ?sa"
    using serialize_ref_plain [OF assms(1), of sa f d] assms(4) n by simp
  have u: "unat (of_nat ?n :: size_t) = ?n" using assms(4,5) n by (simp add: unat_of_nat del: of_nat_add)
  have t: "drop 16 (take ?n ?b) = enc_args True as" by simp
  have "deserialize_and_format mem vformat order True (map fst as) fmt buf (enc_args True as) =
          Some (dispatcher_format vformat fmt (map fmt_value as) buf)"
    using deserialize_args_seq [OF assms(1-3), of True "[]"] make_format_args_plain [OF assms(1,6), of True]
    by (simp add: deserialize_and_format_def)
  then show ?thesis using s u t n by (intro exI [of _ ?sa]) simp
qed

theorem serialize_ref_roundtrip_witness:
  "\<exists>sa'. serialize True 1 2 [(T_string_view, V_text 100 ''abc'')]
       \<lparr>sa_buffer = replicate 40 CHR ''.'', sa_size = 0\<rparr> = Some sa' \<and>
     unat (sa_size sa') = calculate_min_serialized_size True (map fst [(T_string_view, V_text 100 ''abc'')]) \<and>
     deserialize_and_format (\<lambda>p n. if p = 100 \<and> n = 3 then Some ''abc'' else None)
       (\<lambda>s as. case as of [F_text t] \<Rightarrow> t | _ \<Rightarrow> s) [] True (map fst [(T_string_view, V_text 100 ''abc'')])
       ''{}'' (replicate 8 CHR ''.'') (drop 16 (take (unat (sa_size sa')) (sa_buffer sa'))) =
     Some (dispatcher_format (\<lambda>s as. case as of [F_text t] \<Rightarrow> t | _ \<Rightarrow> s) ''{}''
            (map fmt_value [(T_string_view, V_text 100 ''abc'')]) (replicate 8 CHR ''.''))"
  by (rule serialize_ref_roundtrip)
    (auto simp: is_string_like_iff calculate_min_serialized_size_def add_arg_size_def
       sizeof_SerializedArgsHeader_def)

text \<open>In reference mode an object that is neither string-like nor trivially copyable is not
  passed by address: the writer stores the first eight bytes of the object itself, and the reader
  takes them for its address.\<close>

theorem serialize_ref_object_address:
  assumes "8 \<le> length bs" "24 \<le> length (sa_buffer sa)"
  shows "\<exists>sa'. serialize True f d [(T_class False (length bs), V_object p bs)] sa = Some sa' \<and>
           deserialize_args order True [T_class False (length bs)]
             (drop 16 (take (unat (sa_size sa')) (sa_buffer sa'))) =
           Some [R_copy (of_nat (le_dec (take 8 bs))) (length bs)]"
proof -
  let ?T = "T_class False (length bs)"
  have n: "calculate_min_serialized_size True [?T] = 24"
    by (simp add: calculate_min_serialized_size_def add_arg_size_def sizeof_SerializedArgsHeader_def)
  obtain b where b: "memcpy (sa_buffer sa) 0 (args_header f d) = Some b" using assms(2) by (simp add: mem_simps)
  let ?b = "args_header f d @ take 8 bs @ drop 24 (sa_buffer sa)"
  have "memcpy b 16 (take 8 bs) = memcpy (sa_buffer sa) 0 (args_header f d @ take 8 bs)"
    using b by (simp add: memcpy_append)
  then have w: "memcpy b 16 (take 8 bs) = Some ?b" using assms by (simp add: mem_simps min_def)
  have "serialize True f d [(?T, V_object p bs)] sa = Some (sa\<lparr>sa_buffer := ?b, sa_size := 24\<rparr>)"
    using b w n assms(1)
    by (simp add: serialize_def args_header_def write_arg_def sizeof_SerializedArgsHeader_def
          sa_resize_def mem_read_def)
  moreover have "drop 16 (take 24 ?b) = take 8 bs" using assms(1) by simp
  moreover have "deserialize_args order True [?T] (take 8 bs) =
      Some [R_copy (of_nat (le_dec (take 8 bs))) (length bs)]"
    using assms(1) by (simp add: deserialize_args_def format_directly_def read_arg_def mem_read_def)
  ultimately show ?thesis using assms(1)
    by (intro exI [of _ "sa\<lparr>sa_buffer := ?b, sa_size := 24\<rparr>"]) (simp add: min_def)
qed

theorem serialize_ref_object_address_witness:
  "\<exists>sa'. serialize True 1 2 [(T_class False (length ''AAAAAAAAzz''), V_object 4096 ''AAAAAAAAzz'')]
       \<lparr>sa_buffer = replicate 40 CHR ''.'', sa_size = 0\<rparr> = Some sa' \<and>
     deserialize_args [] True [T_class False (length ''AAAAAAAAzz'')]
       (drop 16 (take (unat (sa_size sa')) (sa_buffer sa'))) =
     Some [R_copy (of_nat (le_dec (take 8 ''AAAAAAAAzz''))) (length ''AAAAAAAAzz'')]"
  by (rule serialize_ref_object_address) simp_all

text \<open>A null \<^verbatim>\<open>char\<close> pointer has no serialization: the test meant to replace it by the text
  \<^verbatim>\<open>(nullptr)\<close> asks whether the decayed type is an array, which no decayed type is, so the null
  pointer is read.\<close>

theorem serialize_null_undefined:
  "\<not> is_char_array T \<and> (has_type V_null T \<longrightarrow> serialize False f d ((T, V_null) # as) sa = None)"
proof -
  have "is_string_like T" if "has_type V_null T" using that by (simp add: is_string_like_iff)
  then show ?thesis by (simp add: serialize_def add_dynamic_string_length_def)
qed

theorem serialize_null_undefined_witness:
  "serialize False 1 2 [(T_char_array 4, V_null)] \<lparr>sa_buffer = replicate 64 CHR ''.'', sa_size = 0\<rparr> = None"
  using serialize_null_undefined [of "T_char_array 4" 1 2 "[]"
      "\<lparr>sa_buffer = replicate 64 CHR ''.'', sa_size = 0\<rparr>"] by simp

text \<open>For five arguments the evaluation order matters: a compiler that runs the reading calls
  from right to left, which C++ allows, hands every position the bytes of another argument.\<close>

theorem deserialize_order_matters:
  "let as = map (\<lambda>c. (T_trivial 1, V_bytes [c])) ''abcde''
   in list_all plain_arg as \<and>
      deserialize_args [0, 1, 2, 3, 4] False (map fst as) (enc_args False as) =
        Some (map (\<lambda>c. R_bytes [c]) ''abcde'') \<and>
      deserialize_args [4, 3, 2, 1, 0] False (map fst as) (enc_args False as) =
        Some (map (\<lambda>c. R_bytes [c]) ''edcba'')"
proof -
  let ?as = "map (\<lambda>c. (T_trivial 1, V_bytes [c])) ''abcde''"
  have e: "enc_args False ?as = ''abcde''" by (simp add: enc_args_def enc_arg_def)
  have t: "map fst ?as = replicate 5 (T_trivial 1)" by (simp add: numeral_eq_Suc)
  have d: "deserialize_args js False (replicate 5 (T_trivial 1)) data =
      read_args_in_order js False (replicate 5 (T_trivial 1)) data 0 (replicate 5 (R_bytes []))" for js data
    by (simp add: deserialize_args_def format_directly_def numeral_eq_Suc)
  show ?thesis
    unfolding Let_def e t d
    by (simp add: numeral_eq_Suc) (simp add: read_byte [unfolded One_nat_def])
qed

end
