(* ===== verification/String_Registry.thy ===== *)
theory String_Registry
  imports Prelude
begin

text \<open>
  \<^verbatim>\<open>src/src/include/femtolog/base/string_registry.h\<close>: the identifiers of format strings and the
  table that gives them back. A \<^verbatim>\<open>std::string_view\<close> is a pointer and a length: a view of a string
  with static storage is the string itself, a view into the registry's arena is the pair of its
  offset and its length, so that what the view denotes depends on the arena's bytes at the time
  it is read. The table has one slot for each of the 65536 identifiers, a total function.
\<close>

subsection \<open>Identifiers\<close>

definition kUint16Max :: u16 where
  "kUint16Max = 0xFFFF"

definition kLiteralLogStringId :: u16 where
  "kLiteralLogStringId = kUint16Max"

text \<open>\<^verbatim>\<open>static_cast<uint64_t>(c)\<close> of a plain \<^verbatim>\<open>char\<close>, which is signed on x86-64.\<close>

definition char_to_u64 :: "char \<Rightarrow> u64" where
  "char_to_u64 c =
     (if of_char c < (128 :: nat) then of_nat (of_char c) else of_nat (of_char c) - 256)"

definition fnv_step :: "u64 \<Rightarrow> char \<Rightarrow> u64" where
  "fnv_step hash c = (hash XOR char_to_u64 c) * 0x100000001b3"

definition hash_string :: "string \<Rightarrow> u16" where
  "hash_string str =
     (let hash = foldl fnv_step 0xcbf29ce484222325 str
      in ucast (drop_bit 16 hash XOR (hash AND 0xFFFF)))"

definition hash_string_from_pointer :: "u64 \<Rightarrow> u16" where
  "hash_string_from_pointer raw = ucast (drop_bit 3 raw XOR (raw AND 0xFFFF))"

definition get_string_id :: "string \<Rightarrow> u16" where
  "get_string_id view =
     (let sid = hash_string view
      in if sid = kLiteralLogStringId then kLiteralLogStringId - 1 else sid)"

subsection \<open>The registry\<close>

datatype str_view = Static_view string | Arena_view nat nat

record string_registry =
  sr_table :: "u16 \<Rightarrow> str_view"
  sr_arena :: "byte list"
  sr_arena_size :: nat

definition kInitialArenaSize :: nat where
  "kInitialArenaSize = 1024 * 1024"

definition registry_new :: string_registry where
  "registry_new = \<lparr>sr_table = (\<lambda>_. Static_view []),
     sr_arena = replicate kInitialArenaSize (CHR 0x00), sr_arena_size = 0\<rparr>"

fun view_text :: "byte list \<Rightarrow> str_view \<Rightarrow> string option" where
  "view_text arena (Static_view s) = Some s"
| "view_text arena (Arena_view off len) = mem_read arena off len"

definition get_string :: "string_registry \<Rightarrow> u16 \<Rightarrow> string option" where
  "get_string r sid = view_text (sr_arena r) (sr_table r sid)"

definition registry_set :: "string_registry \<Rightarrow> u16 \<Rightarrow> str_view \<Rightarrow> string_registry" where
  "registry_set r sid view = r\<lparr>sr_table := (sr_table r)(sid := view)\<rparr>"

definition register_string :: "string_registry \<Rightarrow> u16 \<Rightarrow> string \<Rightarrow> string_registry" where
  "register_string r sid view = registry_set r sid (Static_view view)"

definition register_fixed_string :: "string_registry \<Rightarrow> string \<Rightarrow> string_registry" where
  "register_fixed_string r str = registry_set r (get_string_id str) (Static_view str)"

definition register_string_arena :: "string_registry \<Rightarrow> u16 \<Rightarrow> string \<Rightarrow> string_registry option" where
  "register_string_arena r sid view = do {
     previous \<leftarrow> get_string r sid;
     if previous \<noteq> [] \<and> previous = view then Some r
     else do {
       arena \<leftarrow> memcpy (sr_arena r) (sr_arena_size r) view;
       let stored = Arena_view (sr_arena_size r) (length view);
       Some (registry_set (r\<lparr>sr_arena := arena, sr_arena_size := sr_arena_size r + length view\<rparr>)
               sid stored)
     }
   }"

subsection \<open>Invariant\<close>

text \<open>Every view into the arena lies in its used part.\<close>

fun view_ok :: "nat \<Rightarrow> str_view \<Rightarrow> bool" where
  "view_ok used (Static_view s) = True"
| "view_ok used (Arena_view off len) = (off + len \<le> used)"

definition registry_inv :: "string_registry \<Rightarrow> bool" where
  "registry_inv r \<longleftrightarrow> sr_arena_size r \<le> length (sr_arena r) \<and>
     (\<forall>sid. view_ok (sr_arena_size r) (sr_table r sid))"

text \<open>The registrations of a run, the identifier and text of each.\<close>

fun register_all :: "string_registry \<Rightarrow> (u16 \<times> string) list \<Rightarrow> string_registry option" where
  "register_all r [] = Some r"
| "register_all r ((sid, s) # ops) = do { r' \<leftarrow> register_string_arena r sid s; register_all r' ops }"

subsection \<open>Lemmas\<close>

lemma registry_new_inv: "registry_inv registry_new"
  by (simp add: registry_inv_def registry_new_def)

lemma view_text_defined:
  "view_ok used v \<Longrightarrow> used \<le> length arena \<Longrightarrow> \<exists>s. view_text arena v = Some s"
  by (cases v) (auto simp: mem_simps)

lemma view_text_append_stable:
  "view_ok used v \<Longrightarrow> memcpy arena used s = Some arena' \<Longrightarrow> view_text arena' v = view_text arena v"
  by (cases v) (auto simp: mem_read_memcpy_below)

lemma view_ok_mono: "view_ok n v \<Longrightarrow> n \<le> m \<Longrightarrow> view_ok m v"
  by (cases v) auto

lemma get_string_defined: "registry_inv r \<Longrightarrow> \<exists>s. get_string r sid = Some s"
  unfolding get_string_def registry_inv_def by (metis view_text_defined)

lemma register_string_arena_cases:
  assumes inv: "registry_inv r" and room: "sr_arena_size r + length s \<le> length (sr_arena r)"
  obtains r' where "register_string_arena r sid s = Some r'" "registry_inv r'"
    "get_string r' sid = Some s" "\<And>i. i \<noteq> sid \<Longrightarrow> get_string r' i = get_string r i"
    "length (sr_arena r') = length (sr_arena r)"
    "sr_arena_size r' \<le> sr_arena_size r + length s"
proof -
  obtain p where p: "get_string r sid = Some p" using get_string_defined [OF inv] by blast
  show thesis
  proof (cases "p \<noteq> [] \<and> p = s")
    case True
    then have "register_string_arena r sid s = Some r" using p by (auto simp: register_string_arena_def)
    then show ?thesis using that [of r] inv p True by simp
  next
    case False
    obtain arena where a: "memcpy (sr_arena r) (sr_arena_size r) s = Some arena"
      using room by (simp add: mem_simps)
    let ?r = "registry_set (r\<lparr>sr_arena := arena, sr_arena_size := sr_arena_size r + length s\<rparr>)
               sid (Arena_view (sr_arena_size r) (length s))"
    have ok: "view_ok (sr_arena_size r) (sr_table r i)" for i using inv by (simp add: registry_inv_def)
    have len: "length arena = length (sr_arena r)" using a by (rule memcpy_length)
    have new: "mem_read arena (sr_arena_size r) (length s) = Some s"
      using a by (rule mem_read_memcpy_same)
    have "register_string_arena r sid s = Some ?r"
      using p False a by (auto simp: register_string_arena_def Let_def)
    moreover have "registry_inv ?r"
      using room len view_ok_mono [OF ok, of "sr_arena_size r + length s"]
      by (simp add: registry_inv_def registry_set_def)
    moreover have "get_string ?r sid = Some s"
      using new by (simp add: get_string_def registry_set_def)
    moreover have "get_string ?r i = get_string r i" if "i \<noteq> sid" for i
      using view_text_append_stable [OF ok a] that by (simp add: get_string_def registry_set_def)
    ultimately show ?thesis using that [of ?r] len by (simp add: registry_set_def)
  qed
qed

lemma register_all_ok:
  assumes "registry_inv r"
    and "sr_arena_size r + sum_list (map (length \<circ> snd) ops) \<le> length (sr_arena r)"
  shows "\<exists>r'. register_all r ops = Some r' \<and> registry_inv r' \<and>
           (\<forall>sid. get_string r' sid =
              (case map_of (rev ops) sid of Some s \<Rightarrow> Some s | None \<Rightarrow> get_string r sid))"
  using assms
proof (induction ops arbitrary: r)
  case (Cons op ops)
  obtain sid s where op: "op = (sid, s)" by (cases op)
  have room: "sr_arena_size r + length s \<le> length (sr_arena r)" using Cons.prems(2) op by simp
  obtain r1 where r1: "register_string_arena r sid s = Some r1" "registry_inv r1"
      "get_string r1 sid = Some s" "\<And>i. i \<noteq> sid \<Longrightarrow> get_string r1 i = get_string r i"
      "length (sr_arena r1) = length (sr_arena r)" "sr_arena_size r1 \<le> sr_arena_size r + length s"
    using register_string_arena_cases [OF Cons.prems(1) room] by metis
  have "sr_arena_size r1 + sum_list (map (length \<circ> snd) ops) \<le> length (sr_arena r1)"
    using Cons.prems(2) r1(5,6) op by (simp add: comp_def)
  from Cons.IH [OF r1(2) this] obtain r' where r': "register_all r1 ops = Some r'" "registry_inv r'"
    "\<And>i. get_string r' i = (case map_of (rev ops) i of Some s \<Rightarrow> Some s | None \<Rightarrow> get_string r1 i)"
    by auto
  have "get_string r' i = (case map_of (rev (op # ops)) i of Some s \<Rightarrow> Some s | None \<Rightarrow> get_string r i)"
    for i using r'(3) [of i] r1(3,4) op
    by (auto simp: map_add_def split: option.splits)
  then show ?case using r1(1) r'(1,2) op by auto
qed auto

lemma get_string_id_not_literal: "get_string_id s \<noteq> kLiteralLogStringId"
  by (simp add: get_string_id_def kLiteralLogStringId_def kUint16Max_def Let_def)

subsection \<open>Properties\<close>

text \<open>C29: As long as the texts fit in the arena, a sequence of \<^verbatim>\<open>register_string_arena\<close> calls never
  writes outside it, and afterwards \<^verbatim>\<open>get_string\<close> gives for each identifier the text registered
  last under it: a later registration never damages a text another identifier refers to.\<close>

theorem register_all_get_string:
  assumes "sum_list (map (length \<circ> snd) ops) \<le> kInitialArenaSize"
  shows "\<exists>r. register_all registry_new ops = Some r \<and>
           (\<forall>sid. get_string r sid =
              (case map_of (rev ops) sid of Some s \<Rightarrow> Some s | None \<Rightarrow> Some []))"
proof -
  have n: "get_string registry_new sid = Some []" for sid by (simp add: get_string_def registry_new_def)
  have "sr_arena_size registry_new + sum_list (map (length \<circ> snd) ops) \<le> length (sr_arena registry_new)"
    using assms by (simp add: registry_new_def)
  from register_all_ok [OF registry_new_inv this] show ?thesis unfolding n by blast
qed

theorem register_all_get_string_witness:
  "\<exists>r. register_all registry_new [(1, ''a {}''), (2, ''b''), (1, ''c'')] = Some r \<and>
     get_string r 1 = Some ''c'' \<and> get_string r 2 = Some ''b'' \<and> get_string r 3 = Some []"
proof -
  obtain r where "register_all registry_new [(1, ''a {}''), (2, ''b''), (1, ''c'')] = Some r"
    "\<forall>sid. get_string r sid = (case map_of (rev [(1, ''a {}''), (2, ''b''), (1, ''c'')]) sid
        of Some s \<Rightarrow> Some s | None \<Rightarrow> Some [])"
    using register_all_get_string [of "[(1, ''a {}''), (2, ''b''), (1, ''c'')]"]
    by (auto simp: kInitialArenaSize_def)
  then show ?thesis by auto
qed

text \<open>Registering a format string under its compile-time identifier makes \<^verbatim>\<open>get_string\<close> of that
  identifier return it, never touches the slot of the identifier reserved for literal messages,
  and the identifier is the hash of the string except for the reserved value, which is moved to
  its predecessor.\<close>

theorem register_fixed_string_correct:
  "get_string (register_fixed_string r s) (get_string_id s) = Some s \<and>
   (\<forall>i. i \<noteq> get_string_id s \<longrightarrow> get_string (register_fixed_string r s) i = get_string r i) \<and>
   get_string (register_fixed_string r s) kLiteralLogStringId = get_string r kLiteralLogStringId \<and>
   get_string_id s = (if hash_string s = 0xFFFF then 0xFFFE else hash_string s)"
proof -
  have "get_string_id s = (if hash_string s = 0xFFFF then 0xFFFE else hash_string s)"
    by (simp add: get_string_id_def kLiteralLogStringId_def kUint16Max_def Let_def)
  then show ?thesis
    using get_string_id_not_literal [of s]
    by (auto simp: register_fixed_string_def registry_set_def get_string_def)
qed

theorem register_fixed_string_correct_witness:
  "get_string (register_fixed_string registry_new ''x = {}'') (get_string_id ''x = {}'') =
     Some ''x = {}''"
  using register_fixed_string_correct [of registry_new "''x = {}''"] by blast

end
