(* ===== verification/Options.thy ===== *)
theory Options
  imports Prelude
begin

text \<open>
  \<^verbatim>\<open>src/src/include/femtolog/options.h\<close>: the configuration record, its defaults and the two
  presets. Aggregate initialisation leaves \<^verbatim>\<open>terminate_on_fatal\<close> of the presets at its default.
\<close>

datatype color_mode = Color_kAuto | Color_kAlways | Color_kNever

record femtolog_options =
  opt_spsc_queue_size :: size_t
  opt_backend_format_buffer_size :: size_t
  opt_backend_dequeue_buffer_size :: size_t
  opt_backend_worker_cpu_affinity :: size_t
  opt_color_mode :: color_mode
  opt_terminate_on_fatal :: bool

definition default_options :: femtolog_options where
  "default_options = \<lparr>opt_spsc_queue_size = 1024 * 8, opt_backend_format_buffer_size = 1024 * 2,
     opt_backend_dequeue_buffer_size = 1024 * 4,
     opt_backend_worker_cpu_affinity = 0xFFFFFFFFFFFFFFFF,
     opt_color_mode = Color_kAuto, opt_terminate_on_fatal = False\<rparr>"

definition kFastOptions :: femtolog_options where
  "kFastOptions = \<lparr>opt_spsc_queue_size = 1024 * 1024 * 4, opt_backend_format_buffer_size = 1024 * 64,
     opt_backend_dequeue_buffer_size = 1024 * 64, opt_backend_worker_cpu_affinity = 5,
     opt_color_mode = Color_kAuto, opt_terminate_on_fatal = False\<rparr>"

definition kMemorySavingOptions :: femtolog_options where
  "kMemorySavingOptions = \<lparr>opt_spsc_queue_size = 1024, opt_backend_format_buffer_size = 256,
     opt_backend_dequeue_buffer_size = 512,
     opt_backend_worker_cpu_affinity = 0xFFFFFFFFFFFFFFFF,
     opt_color_mode = Color_kAuto, opt_terminate_on_fatal = False\<rparr>"

end
