(* ===== verification/Backend_Worker.thy ===== *)
theory Backend_Worker
  imports Spsc_Queue Sink_Interface Args_Codec String_Registry Options
begin

text \<open>
  The consumer thread, \<^verbatim>\<open>src/src/logging/impl/backend_worker.cc\<close> and its header. The queue is shared
  with the producer and passed beside the worker. The thread is a program counter in \<^verbatim>\<open>run_loop\<close>
  and \<^verbatim>\<open>worker_step\<close> runs it to the next access of a shared variable; a queue operation is one
  atomic step.

  What the program image, the fmt library, the clock, the memory behind reference arguments and
  the sinks contribute is the record \<open>env\<close>. \<open>None\<close> is undefined behaviour, a call of
  \<^verbatim>\<open>std::terminate\<close>, or a wait that never ends.
\<close>

datatype backend_status = Bw_kUninitialized | Bw_kIdling | Bw_kRunning | Bw_kUnknown

datatype worker_pc =
  W_check | W_load | W_flush u64 | W_store u64 | W_poll | W_final | W_final_store | W_done

record 's backend_worker =
  bw_dequeue_buffer :: "byte list"
  bw_sinks :: "'s list"
  bw_thread :: "worker_pc option"
  bw_cpu_affinity :: size_t
  bw_shutdown_required :: bool
  bw_flush_requested_seq :: u64
  bw_flush_completed_seq :: u64
  bw_format_buffer :: "byte list"
  bw_idle_iterations :: size_t
  bw_status :: backend_status
  bw_ticks :: nat

record 's env =
  env_on_log :: "'s on_log"
  env_clock :: "nat \<Rightarrow> u64"
  env_format_func :: "u64 \<Rightarrow> string option"
  env_deserialize_func :: "u64 \<Rightarrow> (bool \<times> cxx_type list) option"
  env_vformat :: "string \<Rightarrow> fmt_arg list \<Rightarrow> string"
  env_order :: "nat \<Rightarrow> nat list"
  env_mem :: "u64 \<Rightarrow> nat \<Rightarrow> byte list option"

definition kMaxPayloadSize :: nat where
  "kMaxPayloadSize = 1024 - sizeof_LogEntry"

text \<open>
  The constructor. \<^verbatim>\<open>fmt::memory_buffer\<close> starts with its inline storage, of \<open>inline_size\<close> bytes.
\<close>

definition backend_new :: "nat \<Rightarrow> 's backend_worker" where
  "backend_new inline_size = \<lparr>bw_dequeue_buffer = [], bw_sinks = [], bw_thread = None,
     bw_cpu_affinity = 5, bw_shutdown_required = False, bw_flush_requested_seq = 0,
     bw_flush_completed_seq = 0, bw_format_buffer = replicate inline_size (CHR 0x00),
     bw_idle_iterations = 0, bw_status = Bw_kUninitialized, bw_ticks = 0\<rparr>"

definition vector_resize :: "byte list \<Rightarrow> nat \<Rightarrow> byte list" where
  "vector_resize v n = take n v @ replicate (n - length v) (CHR 0x00)"

text \<open>\<^verbatim>\<open>reserve\<close> of the format buffer is the parameter \<open>fmt_reserve\<close>.\<close>

definition backend_init ::
  "(byte list \<Rightarrow> nat \<Rightarrow> byte list) \<Rightarrow> femtolog_options \<Rightarrow> 's backend_worker \<Rightarrow> 's backend_worker" where
  "backend_init fmt_reserve options w = w\<lparr>bw_status := Bw_kIdling,
     bw_dequeue_buffer := vector_resize (bw_dequeue_buffer w) (unat (opt_backend_dequeue_buffer_size options)),
     bw_format_buffer := fmt_reserve (bw_format_buffer w) (unat (opt_backend_format_buffer_size options)),
     bw_cpu_affinity := opt_backend_worker_cpu_affinity options\<rparr>"

text \<open>The CPU given to \<^verbatim>\<open>pthread_setaffinity_np\<close>, if any; a failure only prints a message.\<close>

definition set_cpu_affinity :: "'s backend_worker \<Rightarrow> size_t option" where
  "set_cpu_affinity w =
     (if bw_cpu_affinity w = 0xFFFFFFFFFFFFFFFF then None else Some (bw_cpu_affinity w))"

text \<open>Assigning to a \<^verbatim>\<open>std::thread\<close> that is still joinable calls \<^verbatim>\<open>std::terminate\<close>.\<close>

definition backend_start :: "'s backend_worker \<Rightarrow> 's backend_worker option" where
  "backend_start w =
     (if bw_thread w \<noteq> None then None
      else Some (w\<lparr>bw_thread := Some W_check, bw_status := Bw_kRunning\<rparr>))"

definition register_sink :: "'s backend_worker \<Rightarrow> 's \<Rightarrow> 's backend_worker" where
  "register_sink w sink = w\<lparr>bw_sinks := bw_sinks w @ [sink]\<rparr>"

text \<open>Emptying the vector destroys the sinks; what a destructor does is a parameter. The second
  component is what has become of them.\<close>

definition clear_sinks ::
  "('s \<Rightarrow> 's option) \<Rightarrow> 's backend_worker \<Rightarrow> ('s backend_worker \<times> 's list) option" where
  "clear_sinks destroy w = do {
     destroyed \<leftarrow> those (map destroy (bw_sinks w));
     Some (w\<lparr>bw_sinks := []\<rparr>, destroyed)
   }"

subsection \<open>One record\<close>

definition process_literal :: "'s env \<Rightarrow> 's backend_worker \<Rightarrow> byte list \<Rightarrow> log_entry \<Rightarrow> 's backend_worker option" where
  "process_literal env w block e = do {
     (buf, n) \<leftarrow> copy_raw_payload block (replicate kMaxPayloadSize (CHR 0x00)) kMaxPayloadSize;
     buf \<leftarrow> memcpy buf n [CHR 0x00];
     sinks \<leftarrow> dispatch_sinks (env_on_log env) e buf n (bw_sinks w);
     Some (w\<lparr>bw_sinks := sinks\<rparr>)
   }"

definition process_formatted :: "'s env \<Rightarrow> 's backend_worker \<Rightarrow> byte list \<Rightarrow> log_entry \<Rightarrow> 's backend_worker option" where
  "process_formatted env w block e = do {
     format_func \<leftarrow> mem_read block sizeof_LogEntry 8;
     deserialize_func \<leftarrow> mem_read block (sizeof_LogEntry + 8) 8;
     if le_dec deserialize_func = 0 \<or> le_dec format_func = 0 then Some w
     else do {
       (ref_mode, Ts) \<leftarrow> env_deserialize_func env (of_nat (le_dec deserialize_func));
       fmt \<leftarrow> env_format_func env (of_nat (le_dec format_func));
       (fbuf, size) \<leftarrow> deserialize_and_format (env_mem env) (env_vformat env) (env_order env (length Ts))
         ref_mode Ts fmt (bw_format_buffer w)
         (drop (sizeof_LogEntry + sizeof_SerializedArgsHeader) block);
       sinks \<leftarrow> dispatch_sinks (env_on_log env) e fbuf size (bw_sinks w);
       Some (w\<lparr>bw_format_buffer := fbuf, bw_sinks := sinks\<rparr>)
     }
   }"

definition process_log_entry :: "'s env \<Rightarrow> 's backend_worker \<Rightarrow> 's backend_worker option" where
  "process_log_entry env w = do {
     block \<leftarrow> set_timestamp_ns (bw_dequeue_buffer w) (env_clock env (bw_ticks w));
     let w = w\<lparr>bw_dequeue_buffer := block, bw_ticks := Suc (bw_ticks w)\<rparr>;
     e \<leftarrow> entry_fields block;
     if e_format_id e = kLiteralLogStringId then process_literal env w block e
     else process_formatted env w block e
   }"

definition read_and_process_one ::
  "'s env \<Rightarrow> 's backend_worker \<times> spsc_queue \<Rightarrow> (bool \<times> 's backend_worker \<times> spsc_queue) option" where
  "read_and_process_one env wq = (case wq of (w, q) \<Rightarrow> do {
     (st, payload_len) \<leftarrow> spsc_peek_bytes q (replicate 2 (CHR 0x00)) 2;
     if st \<noteq> Spsc_kOk then Some (False, w, q)
     else do {
       let total_sz = of_nat sizeof_LogEntry + of_nat (le_dec payload_len);
       (st, q', buf) \<leftarrow> spsc_dequeue_bytes q (bw_dequeue_buffer w) total_sz;
       if st \<noteq> Spsc_kOk then Some (False, w, q')
       else do {
         w' \<leftarrow> process_log_entry env (w\<lparr>bw_dequeue_buffer := buf\<rparr>);
         Some (True, w', q')
       }
     }
   })"

subsection \<open>Polling\<close>

datatype poll_action = Poll_busy | Poll_pause | Poll_sleep_ns nat

definition backoff :: "size_t \<Rightarrow> poll_action" where
  "backoff i =
     (if i \<le> 2048 then Poll_busy
      else if i \<le> 4096 then Poll_pause
      else if i \<le> 8192 then Poll_sleep_ns 32
      else if i \<le> 16384 then Poll_sleep_ns 64
      else if i \<le> 32768 then Poll_sleep_ns 128
      else if i \<le> 65536 then Poll_sleep_ns 256
      else if i \<le> 131072 then Poll_sleep_ns 512
      else if i \<le> 262144 then Poll_sleep_ns 1000
      else if i \<le> 524288 then Poll_sleep_ns 10000
      else Poll_sleep_ns 100000)"

definition apply_polling_strategy :: "'s backend_worker \<Rightarrow> bool \<Rightarrow> poll_action option \<times> 's backend_worker" where
  "apply_polling_strategy w data_dequeued =
     (if data_dequeued then (None, w\<lparr>bw_idle_iterations := 0\<rparr>)
      else let i = bw_idle_iterations w + 1
           in (Some (backoff i), w\<lparr>bw_idle_iterations := i\<rparr>))"

subsection \<open>The loop\<close>

text \<open>\<^verbatim>\<open>flush_impl\<close> when nothing is enqueued meanwhile.\<close>

partial_function (option) flush_impl ::
  "'s env \<Rightarrow> 's backend_worker \<times> spsc_queue \<Rightarrow> ('s backend_worker \<times> spsc_queue) option" where
  "flush_impl env wq = do {
     (more, wq') \<leftarrow> read_and_process_one env wq;
     if more then flush_impl env wq' else Some wq'
   }"

definition goto :: "worker_pc \<Rightarrow> 's backend_worker \<Rightarrow> 's backend_worker" where
  "goto pc w = w\<lparr>bw_thread := Some pc\<rparr>"

text \<open>
  \<^verbatim>\<open>run_loop\<close>: the shutdown test, the two loads of the flush counters (only this thread writes
  the second), the body of the inlined \<^verbatim>\<open>flush_impl\<close>, the store that completes a flush, one poll,
  and the epilogue.
\<close>

definition worker_step ::
  "'s env \<Rightarrow> 's backend_worker \<times> spsc_queue \<Rightarrow> ('s backend_worker \<times> spsc_queue) option" where
  "worker_step env wq = (case wq of (w, q) \<Rightarrow>
     (case bw_thread w of
        None \<Rightarrow> Some (w, q)
      | Some W_check \<Rightarrow> Some (goto (if bw_shutdown_required w then W_final else W_load) w, q)
      | Some W_load \<Rightarrow>
          let req = bw_flush_requested_seq w; compl = bw_flush_completed_seq w
          in Some (goto (if req > compl then W_flush req else W_poll) w, q)
      | Some (W_flush req) \<Rightarrow> do {
          (more, w', q') \<leftarrow> read_and_process_one env (w, q);
          Some (goto (if more then W_flush req else W_store req) w', q')
        }
      | Some (W_store req) \<Rightarrow> Some (goto W_poll (w\<lparr>bw_flush_completed_seq := req\<rparr>), q)
      | Some W_poll \<Rightarrow> do {
          (dequeued, w', q') \<leftarrow> read_and_process_one env (w, q);
          Some (goto W_check (snd (apply_polling_strategy w' dequeued)), q')
        }
      | Some W_final \<Rightarrow> do {
          (more, w', q') \<leftarrow> read_and_process_one env (w, q);
          Some (goto (if more then W_final else W_final_store) w', q')
        }
      | Some W_final_store \<Rightarrow>
          Some (goto W_done (w\<lparr>bw_flush_completed_seq := bw_flush_requested_seq w\<rparr>), q)
      | Some W_done \<Rightarrow> Some (w, q)))"

text \<open>
  The producer's blocking calls: while the producer waits, the worker thread is the only one
  that runs.
\<close>

partial_function (option) worker_until ::
  "'s env \<Rightarrow> ('s backend_worker \<Rightarrow> bool) \<Rightarrow> 's backend_worker \<times> spsc_queue \<Rightarrow>
   ('s backend_worker \<times> spsc_queue) option" where
  "worker_until env cond wq =
     (if cond (fst wq) then Some wq else do { wq' \<leftarrow> worker_step env wq; worker_until env cond wq' })"

definition backend_stop ::
  "'s env \<Rightarrow> 's backend_worker \<times> spsc_queue \<Rightarrow> ('s backend_worker \<times> spsc_queue) option" where
  "backend_stop env wq = (case wq of (w, q) \<Rightarrow>
     if bw_status w \<noteq> Bw_kRunning then Some (w, q)
     else do {
       let w = w\<lparr>bw_shutdown_required := True\<rparr>;
       (w, q) \<leftarrow> (if bw_thread w = None then Some (w, q)
                 else worker_until env (\<lambda>w. bw_thread w = Some W_done) (w, q));
       Some (w\<lparr>bw_thread := None, bw_status := Bw_kIdling\<rparr>, q)
     })"

definition backend_flush ::
  "'s env \<Rightarrow> 's backend_worker \<times> spsc_queue \<Rightarrow> ('s backend_worker \<times> spsc_queue) option" where
  "backend_flush env wq = (case wq of (w, q) \<Rightarrow>
     if bw_status w \<noteq> Bw_kRunning then Some (w, q)
     else let seq = bw_flush_requested_seq w + 1;
              w = w\<lparr>bw_flush_requested_seq := seq\<rparr>
          in worker_until env (\<lambda>w. \<not> bw_flush_completed_seq w < seq) (w, q))"

text \<open>The destructor, with that of the member \<^verbatim>\<open>sinks_\<close>.\<close>

definition backend_destroy ::
  "'s env \<Rightarrow> ('s \<Rightarrow> 's option) \<Rightarrow> 's backend_worker \<times> spsc_queue \<Rightarrow> 's list option" where
  "backend_destroy env destroy wq = do {
     (w, q) \<leftarrow> (if bw_status (fst wq) = Bw_kRunning then backend_stop env wq else Some wq);
     (w, destroyed) \<leftarrow> clear_sinks destroy w;
     Some destroyed
   }"

subsection \<open>What a record in the queue stands for\<close>

definition framed :: "byte list \<Rightarrow> bool" where
  "framed r \<longleftrightarrow> sizeof_LogEntry \<le> length r \<and> length r = sizeof_LogEntry + le_dec (take 2 r) \<and>
     length r < sizeof_LogEntry + kMaxPayloadSize"

definition formatted_message :: "'s env \<Rightarrow> byte list \<Rightarrow> string option" where
  "formatted_message env r = do {
     f \<leftarrow> mem_read r sizeof_LogEntry 8;
     d \<leftarrow> mem_read r (sizeof_LogEntry + 8) 8;
     if le_dec d = 0 \<or> le_dec f = 0 then None
     else do {
       (ref_mode, Ts) \<leftarrow> env_deserialize_func env (of_nat (le_dec d));
       fmt \<leftarrow> env_format_func env (of_nat (le_dec f));
       vs \<leftarrow> deserialize_args (env_order env (length Ts)) ref_mode Ts (drop 40 r);
       args \<leftarrow> make_format_args (env_mem env) (map decay Ts) vs;
       Some (env_vformat env fmt args)
     }
   }"

definition message_of :: "'s env \<Rightarrow> byte list \<Rightarrow> string option" where
  "message_of env r = do {
     e \<leftarrow> entry_fields r;
     if e_format_id e = kLiteralLogStringId then message_view r else formatted_message env r
   }"

text \<open>A record the worker can process: framed, with a message that fits the format buffer.\<close>

definition ready :: "'s env \<Rightarrow> nat \<Rightarrow> byte list \<Rightarrow> bool" where
  "ready env fcap r \<longleftrightarrow> framed r \<and>
     (case (entry_fields r, message_of env r) of
        (Some e, Some s) \<Rightarrow> e_format_id e \<noteq> kLiteralLogStringId \<longrightarrow> length s \<le> fcap
      | _ \<Rightarrow> False)"

fun messages :: "'s env \<Rightarrow> nat \<Rightarrow> byte list list \<Rightarrow> (log_entry \<times> string) list" where
  "messages env t [] = []"
| "messages env t (r # rs) =
     ((the (entry_fields r))\<lparr>e_timestamp_ns := env_clock env t\<rparr>, the (message_of env r)) #
     messages env (Suc t) rs"

definition stamped :: "u64 \<Rightarrow> byte list \<Rightarrow> byte list" where
  "stamped t r = take 8 r @ le_enc 8 (unat t) @ drop 16 r"

subsection \<open>Lemmas\<close>

lemma length_stamped [simp]: "24 \<le> length r \<Longrightarrow> length (stamped t r) = length r"
  by (simp add: stamped_def)

lemma set_timestamp_stamped:
  "24 \<le> length r \<Longrightarrow> set_timestamp_ns (r @ rest) t = Some (stamped t r @ rest)"
  by (simp add: set_timestamp_ns_def memcpy_def stamped_def)

lemma take_drop_append2:
  "k + n \<le> length xs \<Longrightarrow> take n (drop k (xs @ ys)) = take n (drop k xs)"
  by simp

lemma mem_read_stamped:
  assumes "24 \<le> length r" "k + n \<le> 8 \<or> 16 \<le> k"
  shows "mem_read (stamped t r) k n = mem_read r k n"
proof -
  have "take n (drop k (stamped t r)) = take n (drop k r)" if "k + n \<le> length r"
    by (rule nth_equalityI)
      (use assms that in \<open>auto simp: stamped_def nth_append\<close>)
  then show ?thesis using assms(1) by (simp add: mem_read_def)
qed

lemma mem_read_stamped_time: "24 \<le> length r \<Longrightarrow> mem_read (stamped t r) 8 8 = Some (le_enc 8 (unat t))"
  by (simp add: mem_read_def stamped_def)

lemma entry_fields_stamped:
  assumes "24 \<le> length r"
  shows "entry_fields (stamped t r @ rest) = map_option (\<lambda>e. e\<lparr>e_timestamp_ns := t\<rparr>) (entry_fields r)"
proof -
  have t: "unat t < 256 ^ 8" using unsigned_less [of t, where 'a = nat] by simp
  have r: "mem_read (stamped t r @ rest) k n = mem_read (stamped t r) k n" if "k + n \<le> 24" for k n
    using that assms by (simp add: mem_read_def)
  show ?thesis
    using assms
    by (simp add: entry_fields_def r mem_read_stamped mem_read_stamped_time le_dec_le_enc_id [OF t])
      (simp add: mem_read_def)
qed

lemma drop_stamped:
  assumes "24 \<le> length r" "16 \<le> k"
  shows "drop k (stamped t r) = drop k r"
proof -
  have "drop k ((take 8 r @ le_enc 8 (unat t)) @ drop 16 r) = drop (k - 16) (drop 16 r)"
    using assms by (subst drop_append) simp
  then show ?thesis using assms(2) by (simp add: stamped_def)
qed

lemma framed_length: "framed r \<Longrightarrow> 24 \<le> length r \<and> length r < 1024"
  unfolding framed_def sizeof_LogEntry_def kMaxPayloadSize_def by linarith

lemma framed_payload_len:
  assumes "framed r" "entry_fields r = Some e"
  shows "unat (e_payload_len e) = length r - 24" "length r - 24 < 1000"
proof -
  have l: "le_dec (take 2 r) = length r - 24" "length r < 1024" "24 \<le> length r"
    using assms(1) unfolding framed_def sizeof_LogEntry_def kMaxPayloadSize_def by linarith+
  have "e_payload_len e = of_nat (le_dec (take 2 r))"
    using assms(2) l(3) by (auto simp: entry_fields_def mem_read_def bind_eq_Some_conv split: if_splits)
  then show "unat (e_payload_len e) = length r - 24" "length r - 24 < 1000"
    using l by (simp_all add: unat_of_nat del: of_nat_diff)
qed

lemma framed_message_view:
  assumes "framed r" "entry_fields r = Some e"
  shows "message_view r = Some (drop 24 r)"
  using framed_payload_len [OF assms] framed_length [OF assms(1)] assms(2)
  by (simp add: message_view_def mem_read_def sizeof_LogEntry_def)

lemma framed_fields: "framed r \<Longrightarrow> \<exists>e. entry_fields r = Some e"
  using framed_length [of r] by (simp add: entry_fields_def mem_read_def)

text \<open>A record with arguments: the text goes into the format buffer as far as it fits, its full length
  to the sinks.\<close>

lemma process_formatted_text:
  assumes l: "24 \<le> length r" and m: "formatted_message env r = Some s"
    and fb: "fb = take (length (bw_format_buffer w)) s @ drop (length s) (bw_format_buffer w)"
  shows "process_formatted env w (stamped t r @ rest) e = do {
     sinks \<leftarrow> dispatch_sinks (env_on_log env) e fb (length s) (bw_sinks w);
     Some (w\<lparr>bw_format_buffer := fb, bw_sinks := sinks\<rparr>)
   }"
proof -
  from m obtain f d ref_mode Ts fmt vs args where
    f: "mem_read r 24 8 = Some f" and d: "mem_read r 32 8 = Some d" and nz: "le_dec d \<noteq> 0" "le_dec f \<noteq> 0"
    and env_f: "env_deserialize_func env (of_nat (le_dec d)) = Some (ref_mode, Ts)"
      "env_format_func env (of_nat (le_dec f)) = Some fmt"
    and vs: "deserialize_args (env_order env (length Ts)) ref_mode Ts (drop 40 r) = Some vs"
    and args: "make_format_args (env_mem env) (map decay Ts) vs = Some args" "s = env_vformat env fmt args"
    by (auto simp: formatted_message_def sizeof_LogEntry_def bind_eq_Some_conv split: if_splits)
  have l40: "40 \<le> length r" using d by (simp add: mem_read_def split: if_splits)
  have fd: "mem_read (stamped t r @ rest) 24 8 = Some f" "mem_read (stamped t r @ rest) 32 8 = Some d"
    using f d mem_read_stamped [OF l, of _ 8 t] by (simp_all add: mem_read_mono)
  have dr: "drop 40 (stamped t r @ rest) = drop 40 r @ rest" using l40 by (simp add: drop_stamped)
  have "deserialize_and_format (env_mem env) (env_vformat env) (env_order env (length Ts)) ref_mode Ts fmt
      (bw_format_buffer w) (drop 40 (stamped t r @ rest)) = Some (fb, length s)"
    using deserialize_args_mono [OF vs, of rest] args
    unfolding dr fb by (simp add: deserialize_and_format_def dispatcher_format_def Let_def)
  then show ?thesis using fd nz env_f
    by (simp add: process_formatted_def sizeof_LogEntry_def sizeof_SerializedArgsHeader_def)
qed

context log_sink
begin

lemma process_literal_fed:
  assumes env: "env_on_log env = on_log" and r: "framed r" "entry_fields r = Some e0"
    and e: "entry_fields (stamped t r @ rest) = Some e" "unat (e_payload_len e) = length r - 24"
    and acc: "all_accept (bw_sinks w) ((e, drop 24 r) # ms)"
  shows "\<exists>sinks. process_literal env w (stamped t r @ rest) e = Some (w\<lparr>bw_sinks := sinks\<rparr>) \<and>
           fed (bw_sinks w) [(e, drop 24 r)] sinks \<and> all_accept sinks ms"
proof -
  have l: "24 \<le> length r" "length r - 24 < 1000"
    using framed_length [OF r(1)] framed_payload_len(2) [OF r] by auto
  have rd: "mem_read (stamped t r @ rest) 24 (length r - 24) = Some (drop 24 r)"
    using l by (simp add: mem_read_def drop_stamped)
  let ?buf = "drop 24 r @ [CHR 0x00] @ replicate (999 - (length r - 24)) (CHR 0x00)"
  have cp: "copy_raw_payload (stamped t r @ rest) (replicate 1000 (CHR 0x00)) 1000 =
      Some (drop 24 r @ replicate (1000 - (length r - 24)) (CHR 0x00), length r - 24)"
    using e rd l by (simp add: copy_raw_payload_def sizeof_LogEntry_def memcpy_def min_def)
  have nul: "memcpy (drop 24 r @ replicate (1000 - (length r - 24)) (CHR 0x00)) (length r - 24) [CHR 0x00] =
      Some ?buf"
    using l by (simp add: memcpy_def)
  have tk: "take (length r - 24) ?buf = drop 24 r" by simp
  have "\<exists>sinks. dispatch_sinks on_log e ?buf (length r - 24) (bw_sinks w) = Some sinks \<and>
      fed (bw_sinks w) [(e, drop 24 r)] sinks \<and> all_accept sinks ms"
    using dispatch_fed [of "length r - 24" ?buf "bw_sinks w" e ms] acc by (simp add: tk)
  then show ?thesis
    using cp nul env
    by (auto simp: process_literal_def kMaxPayloadSize_def sizeof_LogEntry_def)
qed

lemma process_formatted_fed:
  assumes env: "env_on_log env = on_log" and l: "24 \<le> length r"
    and m: "formatted_message env r = Some s" "length s \<le> length (bw_format_buffer w)"
    and acc: "all_accept (bw_sinks w) ((e, s) # ms)"
  shows "\<exists>sinks fb. process_formatted env w (stamped t r @ rest) e =
             Some (w\<lparr>bw_format_buffer := fb, bw_sinks := sinks\<rparr>) \<and>
           length fb = length (bw_format_buffer w) \<and>
           fed (bw_sinks w) [(e, s)] sinks \<and> all_accept sinks ms"
proof -
  let ?fb = "s @ drop (length s) (bw_format_buffer w)"
  have "\<exists>sinks. dispatch_sinks on_log e ?fb (length s) (bw_sinks w) = Some sinks \<and>
      fed (bw_sinks w) [(e, s)] sinks \<and> all_accept sinks ms"
    using dispatch_fed [of "length s" ?fb "bw_sinks w" e ms] acc by simp
  then obtain sinks where sinks: "dispatch_sinks on_log e ?fb (length s) (bw_sinks w) = Some sinks"
      "fed (bw_sinks w) [(e, s)] sinks" "all_accept sinks ms" by blast
  have "process_formatted env w (stamped t r @ rest) e = Some (w\<lparr>bw_format_buffer := ?fb, bw_sinks := sinks\<rparr>)"
    using process_formatted_text [OF l m(1), of ?fb w t rest e] m(2) sinks(1) env by simp
  then show ?thesis using sinks m(2) by (intro exI [of _ sinks] exI [of _ ?fb]) simp
qed

lemma process_log_entry_fed:
  assumes env: "env_on_log env = on_log" and b: "bw_dequeue_buffer w = r @ rest"
    and r: "ready env (length (bw_format_buffer w)) r"
    and acc: "all_accept (bw_sinks w) (messages env (bw_ticks w) (r # rs))"
  shows "\<exists>w'. process_log_entry env w = Some w' \<and>
           w' = w\<lparr>bw_dequeue_buffer := bw_dequeue_buffer w', bw_ticks := Suc (bw_ticks w),
                  bw_format_buffer := bw_format_buffer w', bw_sinks := bw_sinks w'\<rparr> \<and>
           length (bw_dequeue_buffer w') = length (bw_dequeue_buffer w) \<and>
           length (bw_format_buffer w') = length (bw_format_buffer w) \<and>
           fed (bw_sinks w) (messages env (bw_ticks w) [r]) (bw_sinks w') \<and>
           all_accept (bw_sinks w') (messages env (Suc (bw_ticks w)) rs)"
proof -
  let ?t = "env_clock env (bw_ticks w)" and ?ms = "messages env (Suc (bw_ticks w)) rs"
  from r obtain e0 s where e0: "entry_fields r = Some e0" and s: "message_of env r = Some s"
    and fr: "framed r" and fits: "e_format_id e0 \<noteq> kLiteralLogStringId \<Longrightarrow> length s \<le> length (bw_format_buffer w)"
    by (auto simp: ready_def split: option.splits)
  have l: "24 \<le> length r" using framed_length [OF fr] by simp
  let ?e = "e0\<lparr>e_timestamp_ns := ?t\<rparr>"
  let ?w = "w\<lparr>bw_dequeue_buffer := stamped ?t r @ rest, bw_ticks := Suc (bw_ticks w)\<rparr>"
  have e: "entry_fields (stamped ?t r @ rest) = Some ?e" by (simp add: entry_fields_stamped [OF l] e0)
  have acc': "all_accept (bw_sinks ?w) ((?e, s) # ?ms)" using acc e0 s by simp
  have p: "process_log_entry env w =
      (if e_format_id e0 = kLiteralLogStringId then process_literal env ?w (stamped ?t r @ rest) ?e
       else process_formatted env ?w (stamped ?t r @ rest) ?e)"
    using e by (simp add: process_log_entry_def b set_timestamp_stamped [OF l])
  show ?thesis
  proof (cases "e_format_id e0 = kLiteralLogStringId")
    case True
    have s24: "s = drop 24 r" using s True e0 framed_message_view [OF fr e0] by (simp add: message_of_def)
    have "unat (e_payload_len ?e) = length r - 24" using framed_payload_len(1) [OF fr e0] by simp
    from process_literal_fed [OF env fr e0 e this, of ?w ?ms] acc' s24
    obtain sinks where "process_literal env ?w (stamped ?t r @ rest) ?e = Some (?w\<lparr>bw_sinks := sinks\<rparr>)"
      "fed (bw_sinks w) [(?e, s)] sinks" "all_accept sinks ?ms" by auto
    then show ?thesis using p True e0 s b l by simp
  next
    case False
    have m: "formatted_message env r = Some s" using s False e0 by (simp add: message_of_def)
    from process_formatted_fed [OF env l m, of ?w ?e ?ms ?t rest] acc' fits [OF False]
    obtain sinks fb where "process_formatted env ?w (stamped ?t r @ rest) ?e =
        Some (?w\<lparr>bw_format_buffer := fb, bw_sinks := sinks\<rparr>)" "length fb = length (bw_format_buffer w)"
      "fed (bw_sinks w) [(?e, s)] sinks" "all_accept sinks ?ms" by auto
    then show ?thesis using p False e0 s b l by simp
  qed
qed

end

lemma messages_append: "messages env t (rs @ rs') = messages env t rs @ messages env (t + length rs) rs'"
  by (induction rs arbitrary: t) auto

lemma length_messages [simp]: "length (messages env t rs) = length rs"
  by (induction rs arbitrary: t) auto

lemma read_one_empty:
  assumes "spsc_inv q" "spsc_contents q = []"
  shows "read_and_process_one env (w, q) = Some (False, w, q)"
  using spsc_peek_short [OF assms(1), of 2 "replicate 2 (CHR 0x00)"] assms(2)
  by (simp add: read_and_process_one_def)

text \<open>What the worker leaves alone, and what it has done, when it has processed \<open>rs\<close>.\<close>

definition kept :: "'s backend_worker \<Rightarrow> 's backend_worker \<Rightarrow> bool" where
  "kept w w' \<longleftrightarrow> bw_shutdown_required w' = bw_shutdown_required w \<and>
     bw_flush_requested_seq w' = bw_flush_requested_seq w \<and> bw_status w' = bw_status w \<and>
     length (bw_dequeue_buffer w') = length (bw_dequeue_buffer w) \<and>
     length (bw_format_buffer w') = length (bw_format_buffer w)"

definition quiet ::
  "'s env \<Rightarrow> ('s backend_worker \<Rightarrow> bool) \<Rightarrow> 's backend_worker \<times> spsc_queue \<Rightarrow>
   's backend_worker \<times> spsc_queue \<Rightarrow> bool" where
  "quiet env P = (\<lambda>s s'. \<not> P (fst s) \<and> worker_step env s = Some s')\<^sup>*\<^sup>*"

lemma quiet_refl: "quiet env P s s"
  by (simp add: quiet_def)

lemma quiet_step: "\<not> P (fst s) \<Longrightarrow> worker_step env s = Some s' \<Longrightarrow> quiet env P s' s'' \<Longrightarrow> quiet env P s s''"
  unfolding quiet_def by (rule converse_rtranclp_into_rtranclp) auto

lemma quiet_trans: "quiet env P s s' \<Longrightarrow> quiet env P s' s'' \<Longrightarrow> quiet env P s s''"
  unfolding quiet_def by (rule rtranclp_trans)

lemma worker_until_quiet: "quiet env P s s' \<Longrightarrow> worker_until env P s = worker_until env P s'"
  unfolding quiet_def
proof (induction rule: converse_rtranclp_induct)
  case (step s s1)
  then show ?case by (subst worker_until.simps) simp
qed simp

lemma worker_until_reached: "P (fst s) \<Longrightarrow> worker_until env P s = Some s"
  by (subst worker_until.simps) simp

text \<open>A complete record at the front of the queue is moved into the dequeue buffer and processed.\<close>

lemma read_one_record:
  assumes inv: "spsc_inv q" and c: "spsc_contents q = r @ rest" and fr: "framed r"
    and dq: "length r \<le> length (bw_dequeue_buffer w)"
  shows "\<exists>q'. read_and_process_one env (w, q) = do {
       w' \<leftarrow> process_log_entry env (w\<lparr>bw_dequeue_buffer := r @ drop (length r) (bw_dequeue_buffer w)\<rparr>);
       Some (True, w', q')
     } \<and> spsc_inv q' \<and> spsc_contents q' = rest \<and> spsc_cap q' = spsc_cap q"
proof -
  have l: "24 \<le> length r" "length r < 1024" using framed_length [OF fr] by auto
  have n: "24 + le_dec (take 2 r) = length r" using fr unfolding framed_def sizeof_LogEntry_def by linarith
  let ?n = "of_nat 24 + of_nat (le_dec (take 2 r)) :: size_t"
  have nn: "?n = of_nat (length r)" by (metis n of_nat_add)
  then have un: "unat ?n = length r" using l by (simp add: unat_of_nat)
  have peek: "spsc_peek_bytes q (replicate 2 (CHR 0x00)) 2 = Some (Spsc_kOk, take 2 r)"
    using spsc.peek_avail [OF inv, of 2 "replicate 2 (CHR 0x00)"] c l by simp
  have "?n \<noteq> 0" using un l by (metis not_numeral_le_zero unat_0)
  moreover have "unat ?n \<le> length (spsc_contents q)" using un c by simp
  moreover have "unat ?n \<le> length (bw_dequeue_buffer w)" using un dq by linarith
  ultimately obtain q' where q': "spsc_dequeue_bytes q (bw_dequeue_buffer w) ?n =
      Some (Spsc_kOk, q', take (unat ?n) (spsc_contents q) @ drop (unat ?n) (bw_dequeue_buffer w))"
    "spsc_inv q'" "spsc_contents q' = drop (unat ?n) (spsc_contents q)" "spsc_cap q' = spsc_cap q"
    using spsc.deq_avail [OF inv] by blast
  then show ?thesis using peek un c
    by (intro exI [of _ q']) (simp add: read_and_process_one_def sizeof_LogEntry_def)
qed

context log_sink
begin

definition backlog :: "'s env \<Rightarrow> 's backend_worker \<Rightarrow> spsc_queue \<Rightarrow> byte list list \<Rightarrow> bool" where
  "backlog env w q rs \<longleftrightarrow> env_on_log env = on_log \<and> spsc_inv q \<and> spsc_contents q = concat rs \<and>
     1024 \<le> length (bw_dequeue_buffer w) \<and> list_all (ready env (length (bw_format_buffer w))) rs \<and>
     all_accept (bw_sinks w) (messages env (bw_ticks w) rs)"

definition advanced :: "'s env \<Rightarrow> 's backend_worker \<Rightarrow> byte list list \<Rightarrow> 's backend_worker \<Rightarrow> bool" where
  "advanced env w rs w' \<longleftrightarrow> kept w w' \<and> bw_ticks w' = bw_ticks w + length rs \<and>
     fed (bw_sinks w) (messages env (bw_ticks w) rs) (bw_sinks w')"

lemma advanced_refl: "backlog env w q rs \<Longrightarrow> advanced env w [] w"
  by (auto simp: backlog_def advanced_def kept_def intro: fed_refl)

lemma advanced_trans: "advanced env w rs w1 \<Longrightarrow> advanced env w1 rs' w2 \<Longrightarrow> advanced env w (rs @ rs') w2"
  by (auto simp: advanced_def kept_def messages_append intro: fed_append)

lemma control_irrelevant [simp]:
  "backlog env (w\<lparr>bw_thread := x\<rparr>) q rs = backlog env w q rs"
  "backlog env (w\<lparr>bw_idle_iterations := i\<rparr>) q rs = backlog env w q rs"
  "backlog env (w\<lparr>bw_flush_completed_seq := n\<rparr>) q rs = backlog env w q rs"
  "backlog env (w\<lparr>bw_flush_requested_seq := n\<rparr>) q rs = backlog env w q rs"
  "backlog env (w\<lparr>bw_shutdown_required := b\<rparr>) q rs = backlog env w q rs"
  "backlog env (w\<lparr>bw_status := st\<rparr>) q rs = backlog env w q rs"
  "advanced env w rs (w'\<lparr>bw_thread := x\<rparr>) = advanced env w rs w'"
  "advanced env w rs (w'\<lparr>bw_idle_iterations := i\<rparr>) = advanced env w rs w'"
  "advanced env w rs (w'\<lparr>bw_flush_completed_seq := n\<rparr>) = advanced env w rs w'"
  "advanced env (w\<lparr>bw_thread := x\<rparr>) rs w' = advanced env w rs w'"
  "advanced env (w\<lparr>bw_idle_iterations := i\<rparr>) rs w' = advanced env w rs w'"
  "advanced env (w\<lparr>bw_flush_completed_seq := n\<rparr>) rs w' = advanced env w rs w'"
  by (simp_all add: backlog_def advanced_def kept_def)

lemma read_one_backlog:
  assumes "backlog env w q (r # rs)"
  shows "\<exists>w' q'. read_and_process_one env (w, q) = Some (True, w', q') \<and> backlog env w' q' rs \<and>
           advanced env w [r] w' \<and> spsc_cap q' = spsc_cap q \<and> bw_thread w' = bw_thread w \<and>
           bw_flush_completed_seq w' = bw_flush_completed_seq w"
proof -
  have inv: "spsc_inv q" and c: "spsc_contents q = r @ concat rs" and dq: "1024 \<le> length (bw_dequeue_buffer w)"
    and rdy: "ready env (length (bw_format_buffer w)) r" "list_all (ready env (length (bw_format_buffer w))) rs"
    and env: "env_on_log env = on_log" and acc: "all_accept (bw_sinks w) (messages env (bw_ticks w) (r # rs))"
    using assms by (auto simp: backlog_def)
  have fr: "framed r" using rdy(1) by (simp add: ready_def)
  have l: "length r \<le> length (bw_dequeue_buffer w)" using framed_length [OF fr] dq by auto
  let ?rest = "drop (length r) (bw_dequeue_buffer w)"
  let ?w = "w\<lparr>bw_dequeue_buffer := r @ ?rest\<rparr>"
  obtain q' where q': "read_and_process_one env (w, q) =
      do { w' \<leftarrow> process_log_entry env ?w; Some (True, w', q') }"
    "spsc_inv q'" "spsc_contents q' = concat rs" "spsc_cap q' = spsc_cap q"
    using read_one_record [OF inv c fr l] by blast
  obtain w' where w': "process_log_entry env ?w = Some w'"
      "w' = ?w\<lparr>bw_dequeue_buffer := bw_dequeue_buffer w', bw_ticks := Suc (bw_ticks ?w),
                  bw_format_buffer := bw_format_buffer w', bw_sinks := bw_sinks w'\<rparr>"
      "length (bw_dequeue_buffer w') = length (bw_dequeue_buffer ?w)"
      "length (bw_format_buffer w') = length (bw_format_buffer w)"
      "fed (bw_sinks w) (messages env (bw_ticks w) [r]) (bw_sinks w')"
      "all_accept (bw_sinks w') (messages env (Suc (bw_ticks w)) rs)"
    using process_log_entry_fed [OF env, of ?w r ?rest rs] rdy(1) acc by auto
  have f: "bw_ticks w' = Suc (bw_ticks w)" "bw_thread w' = bw_thread w"
    "bw_flush_completed_seq w' = bw_flush_completed_seq w" "bw_shutdown_required w' = bw_shutdown_required w"
    "bw_flush_requested_seq w' = bw_flush_requested_seq w" "bw_status w' = bw_status w"
    by (subst w'(2), simp)+
  have len: "length (bw_dequeue_buffer w') = length (bw_dequeue_buffer w)" using w'(3) l by simp
  have "read_and_process_one env (w, q) = Some (True, w', q')" using q'(1) w'(1) by simp
  moreover have "backlog env w' q' rs"
    using env q'(2,3) len dq rdy(2) w'(4,6) f(1) by (simp add: backlog_def)
  moreover have "advanced env w [r] w'"
    using w'(4,5) f len by (simp add: advanced_def kept_def)
  ultimately show ?thesis using q'(4) f by blast
qed

lemma read_one_nil: "backlog env w q [] \<Longrightarrow> read_and_process_one env (w, q) = Some (False, w, q)"
  by (rule read_one_empty) (auto simp: backlog_def)

lemma flush_impl_drains:
  assumes "backlog env w q rs"
  shows "\<exists>w' q'. flush_impl env (w, q) = Some (w', q') \<and> backlog env w' q' [] \<and> advanced env w rs w' \<and>
           bw_thread w' = bw_thread w \<and> bw_flush_completed_seq w' = bw_flush_completed_seq w"
  using assms
proof (induction rs arbitrary: w q)
  case Nil
  then show ?case using read_one_nil [OF Nil] advanced_refl [OF Nil] by (subst flush_impl.simps) simp
next
  case (Cons r rs)
  from read_one_backlog [OF Cons.prems] obtain w1 q1 where
    s1: "read_and_process_one env (w, q) = Some (True, w1, q1)" "backlog env w1 q1 rs" "advanced env w [r] w1"
      "bw_thread w1 = bw_thread w" "bw_flush_completed_seq w1 = bw_flush_completed_seq w" by blast
  from Cons.IH [OF s1(2)] obtain w' q' where
    s2: "flush_impl env (w1, q1) = Some (w', q')" "backlog env w' q' []" "advanced env w1 rs w'"
      "bw_thread w' = bw_thread w1" "bw_flush_completed_seq w' = bw_flush_completed_seq w1" by blast
  have "flush_impl env (w, q) = Some (w', q')" using s1(1) s2(1) by (subst flush_impl.simps) simp
  then show ?case using s1 s2 advanced_trans [OF s1(3) s2(3)] by auto
qed

end

text \<open>
  The thread runs before a shutdown: where it can be, and that no flush it works for is newer
  than the last one requested.
\<close>

fun pc_live :: "u64 \<Rightarrow> worker_pc \<Rightarrow> bool" where
  "pc_live req W_check = True"
| "pc_live req W_load = True"
| "pc_live req (W_flush r) = (r \<le> req)"
| "pc_live req (W_store r) = (r \<le> req)"
| "pc_live req W_poll = True"
| "pc_live req _ = False"

definition serving :: "'s backend_worker \<Rightarrow> bool" where
  "serving w \<longleftrightarrow> bw_status w = Bw_kRunning \<and> \<not> bw_shutdown_required w \<and>
     bw_flush_completed_seq w \<le> bw_flush_requested_seq w \<and>
     (case bw_thread w of None \<Rightarrow> False | Some pc \<Rightarrow> pc_live (bw_flush_requested_seq w) pc)"

lemma unat_Suc_not_max:
  assumes "x \<noteq> (0xFFFFFFFFFFFFFFFF :: u64)"
  shows "unat (x + 1) = unat x + 1"
proof -
  have "unat x \<noteq> unat (0xFFFFFFFFFFFFFFFF :: u64)" using assms by (simp only: word_unat_eq_iff) simp
  then have "unat x + 1 < 2 ^ 64" using unsigned_less [of x, where 'a = nat] by simp
  then show ?thesis by (simp add: unat_word_ariths)
qed

lemmas step_simps = worker_step_def goto_def apply_polling_strategy_def Let_def

context log_sink
begin

text \<open>Both drain loops of the thread, up to the end of the backlog.\<close>

lemma drain_quiet:
  assumes "backlog env w q rs" "bw_thread w = Some pc"
    and pc: "(\<exists>r. pc = W_flush r \<and> nxt = W_store r) \<or> (pc = W_final \<and> nxt = W_final_store)"
    and P: "\<And>v. bw_thread v = Some pc \<Longrightarrow> bw_flush_completed_seq v = bw_flush_completed_seq w \<Longrightarrow> \<not> P v"
  shows "\<exists>w' q'. quiet env P (w, q) (w', q') \<and> backlog env w' q' [] \<and> advanced env w rs w' \<and>
           bw_thread w' = Some nxt \<and> bw_flush_completed_seq w' = bw_flush_completed_seq w"
  using assms(1,2) P
proof (induction rs arbitrary: w q)
  case Nil
  have "worker_step env (w, q) = Some (goto nxt w, q)"
    using read_one_nil [OF Nil(1)] Nil(2) pc by (auto simp: worker_step_def)
  then have "quiet env P (w, q) (goto nxt w, q)"
    using Nil(2,3) by (intro quiet_step [OF _ _ quiet_refl]) auto
  then show ?case using Nil(1) advanced_refl [OF Nil(1)]
    by (intro exI [of _ "goto nxt w"] exI [of _ q]) (simp add: goto_def)
next
  case (Cons r rs)
  from read_one_backlog [OF Cons.prems(1)] obtain w1 q1 where
    s1: "read_and_process_one env (w, q) = Some (True, w1, q1)" "backlog env w1 q1 rs" "advanced env w [r] w1"
      "bw_thread w1 = bw_thread w" "bw_flush_completed_seq w1 = bw_flush_completed_seq w" by blast
  have "goto pc w1 = w1" using s1(4) Cons.prems(2) by (simp add: goto_def)
  then have st: "worker_step env (w, q) = Some (w1, q1)"
    using s1(1) Cons.prems(2) pc by (auto simp: worker_step_def)
  obtain w' q' where s2: "quiet env P (w1, q1) (w', q')" "backlog env w' q' []" "advanced env w1 rs w'"
      "bw_thread w' = Some nxt" "bw_flush_completed_seq w' = bw_flush_completed_seq w1"
    using Cons.IH [OF s1(2)] s1(4,5) Cons.prems(2,3) by metis
  have "quiet env P (w, q) (w', q')"
    using quiet_step [OF _ st s2(1)] Cons.prems(2,3) by simp
  then show ?case using s2 s1(5) advanced_trans [OF s1(3) s2(3)] by auto
qed

lemma poll_quiet:
  assumes "backlog env w q rs" "bw_thread w = Some W_poll" "\<not> P w"
  shows "\<exists>w' q' rs1 rs2. rs = rs1 @ rs2 \<and> quiet env P (w, q) (w', q') \<and> backlog env w' q' rs2 \<and>
           advanced env w rs1 w' \<and> bw_thread w' = Some W_check \<and>
           bw_flush_completed_seq w' = bw_flush_completed_seq w"
proof (cases rs)
  case Nil
  have b: "backlog env w q []" using assms(1) Nil by simp
  let ?w = "goto W_check (w\<lparr>bw_idle_iterations := bw_idle_iterations w + 1\<rparr>)"
  have "worker_step env (w, q) = Some (?w, q)"
    using read_one_nil [OF b] assms(2) by (simp add: step_simps)
  then have "quiet env P (w, q) (?w, q)" using assms(3) by (intro quiet_step [OF _ _ quiet_refl]) auto
  then show ?thesis using Nil b advanced_refl [OF b]
    by (intro exI [of _ ?w] exI [of _ q] exI [of _ "[]"]) (simp add: goto_def)
next
  case (Cons r rs')
  from read_one_backlog [OF assms(1) [unfolded Cons]] obtain w1 q1 where
    s1: "read_and_process_one env (w, q) = Some (True, w1, q1)" "backlog env w1 q1 rs'" "advanced env w [r] w1"
      "bw_thread w1 = bw_thread w" "bw_flush_completed_seq w1 = bw_flush_completed_seq w" by blast
  let ?w = "goto W_check (w1\<lparr>bw_idle_iterations := 0\<rparr>)"
  have "worker_step env (w, q) = Some (?w, q1)"
    using s1(1) assms(2) by (simp add: step_simps)
  then have "quiet env P (w, q) (?w, q1)" using assms(3) by (intro quiet_step [OF _ _ quiet_refl]) auto
  then show ?thesis using Cons s1
    by (intro exI [of _ ?w] exI [of _ q1] exI [of _ "[r]"] exI [of _ rs']) (simp add: goto_def)
qed

text \<open>From anywhere in the loop the thread gets back to the shutdown test.\<close>

definition undecided :: "u64 \<Rightarrow> ('s backend_worker \<Rightarrow> bool) \<Rightarrow> 's backend_worker \<Rightarrow> bool" where
  "undecided req P w \<longleftrightarrow> (\<forall>v. bw_thread v \<noteq> Some W_done \<longrightarrow>
     bw_flush_completed_seq v = bw_flush_completed_seq w \<or> bw_flush_completed_seq v \<le> req \<longrightarrow> \<not> P v)"

definition checks ::
  "'s env \<Rightarrow> ('s backend_worker \<Rightarrow> bool) \<Rightarrow> u64 \<Rightarrow> 's backend_worker \<Rightarrow> spsc_queue \<Rightarrow> byte list list \<Rightarrow> bool" where
  "checks env P req w q rs \<longleftrightarrow> (\<exists>w' q' rs1 rs2. rs = rs1 @ rs2 \<and> quiet env P (w, q) (w', q') \<and>
     backlog env w' q' rs2 \<and> advanced env w rs1 w' \<and> bw_thread w' = Some W_check \<and>
     (bw_flush_completed_seq w' = bw_flush_completed_seq w \<or> bw_flush_completed_seq w' \<le> req))"

lemma checks_compose:
  assumes "quiet env P (w, q) (w1, q1)" "advanced env w rs1 w1"
    "bw_flush_completed_seq w1 = bw_flush_completed_seq w \<or> bw_flush_completed_seq w1 \<le> req"
    "checks env P req w1 q1 rs2"
  shows "checks env P req w q (rs1 @ rs2)"
proof -
  from assms(4) obtain w' q' rs3 rs4 where c: "rs2 = rs3 @ rs4" "quiet env P (w1, q1) (w', q')"
     "backlog env w' q' rs4" "advanced env w1 rs3 w'" "bw_thread w' = Some W_check"
     "bw_flush_completed_seq w' = bw_flush_completed_seq w1 \<or> bw_flush_completed_seq w' \<le> req"
    unfolding checks_def by blast
  then show ?thesis
    unfolding checks_def using assms(3) quiet_trans [OF assms(1) c(2)] advanced_trans [OF assms(2) c(4)]
    by (intro exI [of _ w'] exI [of _ q'] exI [of _ "rs1 @ rs3"] exI [of _ rs4]) auto
qed

lemma checks_step:
  assumes "undecided req P w" "bw_thread w \<noteq> Some W_done" "worker_step env (w, q) = Some (w1, q)"
    "backlog env w q rs" "advanced env w [] w1"
    "bw_flush_completed_seq w1 = bw_flush_completed_seq w \<or> bw_flush_completed_seq w1 \<le> req"
    "checks env P req w1 q rs"
  shows "checks env P req w q rs"
proof -
  have "\<not> P w" using assms(1,2) by (simp add: undecided_def)
  then have "quiet env P (w, q) (w1, q)" using assms(3) by (intro quiet_step [OF _ _ quiet_refl]) auto
  from checks_compose [OF this assms(5-7)] show ?thesis by simp
qed

lemma checks_poll:
  assumes "backlog env w q rs" "bw_thread w = Some W_poll" "undecided req P w"
  shows "checks env P req w q rs"
proof -
  have "\<not> P w" using assms(2,3) by (simp add: undecided_def)
  with poll_quiet [OF assms(1,2), of P] show ?thesis unfolding checks_def by blast
qed

lemma checks_store:
  assumes b: "backlog env w q rs" "bw_thread w = Some (W_store r)" "r \<le> req" "undecided req P w"
  shows "checks env P req w q rs"
proof -
  let ?w = "goto W_poll (w\<lparr>bw_flush_completed_seq := r\<rparr>)"
  have "checks env P req ?w q rs"
    by (rule checks_poll) (use b in \<open>auto simp: goto_def undecided_def\<close>)
  then show ?thesis
    by (rule checks_step [OF b(4), rotated -1])
      (use b advanced_refl [OF b(1)] in \<open>auto simp: step_simps\<close>)
qed

lemma checks_flush:
  assumes b: "backlog env w q rs" "bw_thread w = Some (W_flush r)" "r \<le> req" "undecided req P w"
  shows "checks env P req w q rs"
proof -
  have nP: "\<not> P v" if "bw_thread v = Some (W_flush r)" "bw_flush_completed_seq v = bw_flush_completed_seq w" for v
    using b(4) that by (simp add: undecided_def)
  have "\<exists>w' q'. quiet env P (w, q) (w', q') \<and> backlog env w' q' [] \<and> advanced env w rs w' \<and>
         bw_thread w' = Some (W_store r) \<and> bw_flush_completed_seq w' = bw_flush_completed_seq w"
    by (rule drain_quiet [OF b(1,2) _ nP]) auto
  then obtain w' q' where s: "quiet env P (w, q) (w', q')" "backlog env w' q' []" "advanced env w rs w'"
      "bw_thread w' = Some (W_store r)" "bw_flush_completed_seq w' = bw_flush_completed_seq w"
    by blast
  have "checks env P req w' q' []"
    by (rule checks_store [OF s(2,4) b(3)]) (use b(4) s(5) in \<open>simp add: undecided_def\<close>)
  from checks_compose [OF s(1,3) _ this] s(5) show ?thesis by simp
qed

lemma back_to_check:
  assumes b: "backlog env w q rs" "bw_thread w = Some pc" "pc_live req pc" "undecided req P w"
    and load: "pc = W_load \<Longrightarrow> bw_flush_requested_seq w \<le> req"
  shows "checks env P req w q rs"
proof (cases pc)
  case W_check
  then show ?thesis using b(1,2) advanced_refl [OF b(1)] quiet_refl unfolding checks_def
    by (intro exI [of _ w] exI [of _ q] exI [of _ "[]"] exI [of _ rs]) simp
next
  case W_load
  let ?pc = "if bw_flush_requested_seq w > bw_flush_completed_seq w then W_flush (bw_flush_requested_seq w) else W_poll"
  have u: "undecided req P (goto ?pc w)" using b(4) by (simp add: goto_def undecided_def)
  have "checks env P req (goto ?pc w) q rs"
  proof (cases "bw_flush_requested_seq w > bw_flush_completed_seq w")
    case True
    then show ?thesis using b(1) u load [OF W_load]
      by (intro checks_flush [of _ _ _ _ "bw_flush_requested_seq w"]) (auto simp: goto_def)
  next
    case False
    then show ?thesis using b(1) u by (intro checks_poll) (auto simp: goto_def)
  qed
  then show ?thesis
    by (rule checks_step [OF b(4), rotated -1])
      (use b W_load advanced_refl [OF b(1)] in \<open>auto simp: step_simps\<close>)
qed (use b checks_poll checks_store checks_flush in auto)

lemma flush_from_load:
  assumes b: "backlog env w q rs" "bw_thread w = Some W_load" and seq: "bw_flush_requested_seq w = seq"
    "bw_flush_completed_seq w < seq"
  shows "\<exists>w' q'. worker_until env (\<lambda>v. \<not> bw_flush_completed_seq v < seq) (w, q) = Some (w', q') \<and>
           backlog env w' q' [] \<and> advanced env w rs w' \<and> bw_thread w' = Some W_poll \<and>
           bw_flush_completed_seq w' = seq"
proof -
  let ?P = "\<lambda>v. \<not> bw_flush_completed_seq v < seq"
  let ?w = "goto (W_flush seq) w"
  have st: "worker_step env (w, q) = Some (?w, q)" using b(2) seq by (simp add: step_simps)
  have bl: "backlog env ?w q rs" using b(1) by (simp add: goto_def)
  have "\<exists>w' q'. quiet env ?P (?w, q) (w', q') \<and> backlog env w' q' [] \<and> advanced env ?w rs w' \<and>
         bw_thread w' = Some (W_store seq) \<and> bw_flush_completed_seq w' = bw_flush_completed_seq ?w"
    by (rule drain_quiet [OF bl, of "W_flush seq"]) (use seq in \<open>auto simp: goto_def\<close>)
  then obtain w1 q1 where d: "quiet env ?P (?w, q) (w1, q1)" "backlog env w1 q1 []" "advanced env w rs w1"
      "bw_thread w1 = Some (W_store seq)" "bw_flush_completed_seq w1 = bw_flush_completed_seq w"
    by (auto simp: goto_def)
  let ?w2 = "goto W_poll (w1\<lparr>bw_flush_completed_seq := seq\<rparr>)"
  have st2: "worker_step env (w1, q1) = Some (?w2, q1)" using d(4) by (simp add: step_simps)
  have "quiet env ?P (w, q) (?w2, q1)"
    using quiet_step [OF _ st quiet_trans [OF d(1) quiet_step [OF _ st2 quiet_refl]]] seq d(5) by simp
  from worker_until_quiet [OF this] have "worker_until env ?P (w, q) = Some (?w2, q1)"
    by (simp add: worker_until_reached goto_def)
  then show ?thesis using d(2,3) by (intro exI [of _ ?w2] exI [of _ q1]) (simp add: goto_def)
qed

text \<open>A flush request from a serving worker is met, with everything accepted so far delivered.\<close>

lemma flush_met:
  assumes b: "backlog env w q rs" and s: "serving w" and n: "bw_flush_requested_seq w \<noteq> 0xFFFFFFFFFFFFFFFF"
  shows "\<exists>w' q'. backend_flush env (w, q) = Some (w', q') \<and> backlog env w' q' [] \<and>
           serving w' \<and> bw_flush_completed_seq w' = bw_flush_requested_seq w + 1 \<and>
           advanced env (w\<lparr>bw_flush_requested_seq := bw_flush_requested_seq w + 1\<rparr>) rs w'"
proof -
  let ?req = "bw_flush_requested_seq w" and ?seq = "bw_flush_requested_seq w + 1"
  let ?w = "w\<lparr>bw_flush_requested_seq := ?seq\<rparr>"
  let ?P = "\<lambda>v. \<not> bw_flush_completed_seq v < ?seq"
  have lt: "x < ?seq" if "x \<le> ?req" for x
    using that unat_Suc_not_max [OF n] by (simp add: word_le_nat_alt word_less_nat_alt)
  from s obtain pc where pc: "bw_thread w = Some pc" "pc_live ?req pc" and c: "bw_flush_completed_seq w \<le> ?req"
    by (auto simp: serving_def split: option.splits)
  have bl: "backlog env ?w q rs" using b by simp
  have "\<exists>w' q'. worker_until env ?P (?w, q) = Some (w', q') \<and> backlog env w' q' [] \<and>
      advanced env ?w rs w' \<and> bw_thread w' = Some W_poll \<and> bw_flush_completed_seq w' = ?seq"
  proof (cases "pc = W_load")
    case True
    then show ?thesis using flush_from_load [OF bl, of ?seq] pc(1) lt [OF c] by simp
  next
    case False
    have "undecided ?req ?P ?w" using lt c by (auto simp: undecided_def)
    from back_to_check [OF bl _ pc(2) this] pc(1) False obtain w1 q1 rs1 rs2 where
      w1: "rs = rs1 @ rs2" "quiet env ?P (?w, q) (w1, q1)" "backlog env w1 q1 rs2" "advanced env ?w rs1 w1"
        "bw_thread w1 = Some W_check"
        "bw_flush_completed_seq w1 = bw_flush_completed_seq w \<or> bw_flush_completed_seq w1 \<le> ?req"
      by (auto simp: checks_def)
    have k: "bw_flush_requested_seq w1 = ?seq" "\<not> bw_shutdown_required w1"
      using w1(4) s by (auto simp: advanced_def kept_def serving_def)
    have lt1: "bw_flush_completed_seq w1 < ?seq" using w1(6) c lt by auto
    have st: "worker_step env (w1, q1) = Some (goto W_load w1, q1)" using w1(5) k by (simp add: step_simps)
    have "quiet env ?P (?w, q) (goto W_load w1, q1)"
      using quiet_trans [OF w1(2) quiet_step [OF _ st quiet_refl]] lt1 by simp
    note u = worker_until_quiet [OF this]
    have "\<exists>w' q'. worker_until env ?P (goto W_load w1, q1) = Some (w', q') \<and> backlog env w' q' [] \<and>
        advanced env (goto W_load w1) rs2 w' \<and> bw_thread w' = Some W_poll \<and> bw_flush_completed_seq w' = ?seq"
      by (rule flush_from_load) (use w1(3) k lt1 in \<open>simp_all add: goto_def\<close>)
    then show ?thesis using u advanced_trans [OF w1(4)] w1(1) by (auto simp: goto_def)
  qed
  then obtain w' q' where w': "worker_until env ?P (?w, q) = Some (w', q')" "backlog env w' q' []"
      "advanced env ?w rs w'" "bw_thread w' = Some W_poll" "bw_flush_completed_seq w' = ?seq" by blast
  have "serving w'" using w'(3-5) s by (auto simp: serving_def advanced_def kept_def)
  moreover have "backend_flush env (w, q) = Some (w', q')" using w'(1) s by (simp add: backend_flush_def serving_def)
  ultimately show ?thesis using w' by blast
qed

text \<open>Stopping a serving worker ends its thread, with everything accepted so far delivered.\<close>

lemma stop_met:
  assumes b: "backlog env w q rs" and s: "serving w"
  shows "\<exists>w' q'. backend_stop env (w, q) = Some (w', q') \<and> backlog env w' q' [] \<and>
           bw_status w' = Bw_kIdling \<and> bw_thread w' = None \<and> bw_shutdown_required w' \<and>
           bw_flush_completed_seq w' = bw_flush_requested_seq w' \<and>
           advanced env (w\<lparr>bw_shutdown_required := True, bw_status := Bw_kIdling\<rparr>) rs w'"
proof -
  let ?w = "w\<lparr>bw_shutdown_required := True\<rparr>" and ?P = "\<lambda>v. bw_thread v = Some W_done"
  let ?req = "bw_flush_requested_seq w"
  from s obtain pc where pc: "bw_thread w = Some pc" "pc_live ?req pc"
    by (auto simp: serving_def split: option.splits)
  have bl: "backlog env ?w q rs" using b by simp
  have "undecided ?req ?P ?w" by (auto simp: undecided_def)
  from back_to_check [OF bl _ pc(2) this] pc(1) obtain w1 q1 rs1 rs2 where
    w1: "rs = rs1 @ rs2" "quiet env ?P (?w, q) (w1, q1)" "backlog env w1 q1 rs2" "advanced env ?w rs1 w1"
      "bw_thread w1 = Some W_check"
    by (auto simp: checks_def)
  have k: "bw_shutdown_required w1" using w1(4) by (auto simp: advanced_def kept_def)
  have st: "worker_step env (w1, q1) = Some (goto W_final w1, q1)" using w1(5) k by (simp add: step_simps)
  have bl1: "backlog env (goto W_final w1) q1 rs2" using w1(3) by (simp add: goto_def)
  have "\<exists>w' q'. quiet env ?P (goto W_final w1, q1) (w', q') \<and> backlog env w' q' [] \<and>
         advanced env (goto W_final w1) rs2 w' \<and> bw_thread w' = Some W_final_store \<and>
         bw_flush_completed_seq w' = bw_flush_completed_seq (goto W_final w1)"
    by (rule drain_quiet [OF bl1, of W_final]) (auto simp: goto_def)
  then obtain w2 q2 where w2: "quiet env ?P (goto W_final w1, q1) (w2, q2)" "backlog env w2 q2 []"
      "advanced env w1 rs2 w2" "bw_thread w2 = Some W_final_store" by (auto simp: goto_def)
  let ?w3 = "goto W_done (w2\<lparr>bw_flush_completed_seq := bw_flush_requested_seq w2\<rparr>)"
  have st2: "worker_step env (w2, q2) = Some (?w3, q2)" using w2(4) by (simp add: step_simps)
  have "quiet env ?P (?w, q) (?w3, q2)"
    by (rule quiet_trans [OF w1(2)], rule quiet_step [OF _ st], use w1(5) in simp,
        rule quiet_trans [OF w2(1)], rule quiet_step [OF _ st2 quiet_refl], use w2(4) in simp)
  from worker_until_quiet [OF this] have u: "worker_until env ?P (?w, q) = Some (?w3, q2)"
    by (simp add: worker_until_reached goto_def)
  let ?w' = "?w3\<lparr>bw_thread := None, bw_status := Bw_kIdling\<rparr>"
  have "backend_stop env (w, q) = Some (?w', q2)" using u s pc(1) by (simp add: backend_stop_def serving_def)
  moreover have "advanced env (w\<lparr>bw_shutdown_required := True, bw_status := Bw_kIdling\<rparr>) rs ?w'"
    using advanced_trans [OF w1(4) w2(3)] w1(1) by (auto simp: advanced_def kept_def goto_def)
  ultimately show ?thesis using w2(2) advanced_trans [OF w1(4) w2(3)] w1(1)
    by (intro exI [of _ ?w'] exI [of _ q2]) (auto simp: goto_def advanced_def kept_def)
qed

text \<open>Any step of a serving worker leaves it serving and delivers a prefix of the backlog.\<close>

lemma worker_step_serving:
  assumes b: "backlog env w q rs" and s: "serving w"
  shows "\<exists>w' q' rs1 rs2. worker_step env (w, q) = Some (w', q') \<and> rs = rs1 @ rs2 \<and>
           backlog env w' q' rs2 \<and> advanced env w rs1 w' \<and> serving w' \<and> spsc_cap q' = spsc_cap q"
proof -
  from s obtain pc where pc: "bw_thread w = Some pc" "pc_live (bw_flush_requested_seq w) pc"
    by (auto simp: serving_def split: option.splits)
  note r = advanced_refl [OF b]
  have read: "\<exists>more w1 q1 rs1 rs2. read_and_process_one env (w, q) = Some (more, w1, q1) \<and> rs = rs1 @ rs2 \<and>
      backlog env w1 q1 rs2 \<and> advanced env w rs1 w1 \<and> spsc_cap q1 = spsc_cap q \<and>
      bw_flush_completed_seq w1 = bw_flush_completed_seq w"
  proof (cases rs)
    case Nil
    then show ?thesis using read_one_nil [of env w q] b r by auto
  next
    case (Cons x xs)
    then show ?thesis using read_one_backlog [of env w q x xs] b by (metis append_Cons append_Nil)
  qed
  then obtain more w1 q1 rs1 rs2 where w1: "read_and_process_one env (w, q) = Some (more, w1, q1)"
      "rs = rs1 @ rs2" "backlog env w1 q1 rs2" "advanced env w rs1 w1" "spsc_cap q1 = spsc_cap q"
      "bw_flush_completed_seq w1 = bw_flush_completed_seq w" by blast
  have k: "bw_shutdown_required w1 = bw_shutdown_required w" "bw_flush_requested_seq w1 = bw_flush_requested_seq w"
    "bw_status w1 = bw_status w" using w1(4) by (auto simp: advanced_def kept_def)
  show ?thesis
  proof (cases "pc = W_check \<or> pc = W_load \<or> (\<exists>x. pc = W_store x)")
    case True
    then have "\<exists>w'. worker_step env (w, q) = Some (w', q) \<and> backlog env w' q rs \<and> advanced env w [] w' \<and> serving w'"
      using pc s b r by (auto simp: step_simps serving_def)
    then show ?thesis by (metis append_Nil)
  next
    case False
    then have "\<exists>w'. worker_step env (w, q) = Some (w', q1) \<and> backlog env w' q1 rs2 \<and> advanced env w rs1 w' \<and> serving w'"
      using pc s w1 k by (cases pc) (auto simp: step_simps serving_def)
    then show ?thesis using w1(2,5) by blast
  qed
qed

end

text \<open>An empty queue of four bytes and an environment in which nothing can be formatted.\<close>

definition idle_queue :: spsc_queue where
  "idle_queue = \<lparr>sq_buffer = Some ''....'', sq_capacity = 4, sq_mask = 3, sq_tail_idx = 0,
     sq_tail_cached = 0, sq_head_cached_snapshot = 0, sq_head_idx = 0, sq_head_cached = 0,
     sq_tail_cached_snapshot = 0, sq_allocation_size = 4\<rparr>"

definition env0 :: "unit env" where
  "env0 = \<lparr>env_on_log = (\<lambda>s e c n. Some s), env_clock = (\<lambda>_. 0), env_format_func = (\<lambda>_. None),
     env_deserialize_func = (\<lambda>_. None), env_vformat = (\<lambda>s _. s), env_order = (\<lambda>n. [0..<n]),
     env_mem = (\<lambda>_ _. None)\<rparr>"

lemma process_log_entry_shutdown:
  "process_log_entry env w = Some w' \<Longrightarrow> bw_shutdown_required w' = bw_shutdown_required w"
  by (auto simp: process_log_entry_def process_literal_def process_formatted_def bind_eq_Some_conv Let_def
        split: if_splits)

lemma read_one_shutdown:
  "read_and_process_one env (w, q) = Some (b, w', q') \<Longrightarrow> bw_shutdown_required w' = bw_shutdown_required w"
  by (auto simp: read_and_process_one_def bind_eq_Some_conv Let_def dest: process_log_entry_shutdown
        split: if_splits)

lemma worker_step_shutdown:
  "worker_step env s = Some s' \<Longrightarrow> bw_shutdown_required (fst s') = bw_shutdown_required (fst s)"
  by (cases s) (auto simp: step_simps bind_eq_Some_conv dest: read_one_shutdown
        split: option.splits worker_pc.splits if_splits)

fun poll_delay :: "poll_action \<Rightarrow> nat" where
  "poll_delay Poll_busy = 0"
| "poll_delay Poll_pause = 1"
| "poll_delay (Poll_sleep_ns n) = n"

lemma worker_until_kept_flag:
  assumes "worker_until env P s = Some y"
  shows "bw_shutdown_required (fst s) \<longrightarrow> bw_shutdown_required (fst y)"
proof (rule worker_until.raw_induct [OF _ assms,
      of "\<lambda>env P s y. bw_shutdown_required (fst s) \<longrightarrow> bw_shutdown_required (fst y)"])
  fix f env P s y
  assume IH: "\<And>env P s y. f env P s = Some y \<Longrightarrow> bw_shutdown_required (fst s) \<longrightarrow> bw_shutdown_required (fst y)"
    and body: "(if P (fst s) then Some s else worker_step env s \<bind> f env P) = Some y"
  show "bw_shutdown_required (fst s) \<longrightarrow> bw_shutdown_required (fst y)"
  proof (cases "P (fst s)")
    case False
    then obtain s1 where s1: "worker_step env s = Some s1" "f env P s1 = Some y"
      using body by (auto simp: bind_eq_Some_conv)
    then show ?thesis using IH [OF s1(2)] worker_step_shutdown [OF s1(1)] by simp
  qed (use body in simp)
qed

lemma stop_sets_shutdown:
  assumes "backend_stop env (w, q) = Some (w1, q1)" "bw_status w = Bw_kRunning"
  shows "bw_shutdown_required w1"
  using assms worker_until_kept_flag [of env "\<lambda>w. bw_thread w = Some W_done" "(w\<lparr>bw_shutdown_required := True\<rparr>, q)"]
  by (auto simp: backend_stop_def bind_eq_Some_conv Let_def split: if_splits)

lemma worker_until_stuck:
  assumes "worker_until env P s = Some y"
  shows "\<not> (\<not> P (fst s) \<and> worker_step env s = Some s)"
proof (rule worker_until.raw_induct [OF _ assms,
      of "\<lambda>env P s y. \<not> (\<not> P (fst s) \<and> worker_step env s = Some s)"])
  fix f env P s y
  assume IH: "\<And>env P s y. f env P s = Some y \<Longrightarrow> \<not> (\<not> P (fst s) \<and> worker_step env s = Some s)"
    and body: "(if P (fst s) then Some s else worker_step env s \<bind> f env P) = Some y"
  show "\<not> (\<not> P (fst s) \<and> worker_step env s = Some s)"
  proof
    assume a: "\<not> P (fst s) \<and> worker_step env s = Some s"
    then have "f env P s = Some y" using body by simp
    from IH [OF this] a show False by simp
  qed
qed

lemma poll_delay_backoff: "poll_delay (backoff i) =
   (if unat i \<le> 2048 then 0 else if unat i \<le> 4096 then 1 else if unat i \<le> 8192 then 32 else
    if unat i \<le> 16384 then 64 else if unat i \<le> 32768 then 128 else if unat i \<le> 65536 then 256 else
    if unat i \<le> 131072 then 512 else if unat i \<le> 262144 then 1000 else if unat i \<le> 524288 then 10000 else 100000)"
  by (simp add: backoff_def word_le_nat_alt)

lemma poll_delay_mono: "i \<le> j \<Longrightarrow> poll_delay (backoff i) \<le> poll_delay (backoff j)"
  unfolding poll_delay_backoff word_le_nat_alt by (simp split: if_split)

lemma poll_delay_bound: "poll_delay (backoff i) \<le> 100000"
  unfolding poll_delay_backoff by simp

lemma ends_when_empty:
  assumes "spsc_inv q" "spsc_contents q = []" "bw_shutdown_required w" "bw_thread w = Some W_check"
  shows "worker_until env (\<lambda>w. bw_thread w = Some W_done) (w, q) =
           Some (goto W_done (w\<lparr>bw_flush_completed_seq := bw_flush_requested_seq w\<rparr>), q)"
proof -
  let ?P = "\<lambda>w. bw_thread w = Some W_done"
  let ?w = "goto W_done (w\<lparr>bw_flush_completed_seq := bw_flush_requested_seq w\<rparr>)"
  note e = read_one_empty [OF assms(1,2), of env]
  have "quiet env ?P (w, q) (?w, q)"
    by (rule quiet_step [where s' = "(goto W_final w, q)"], use assms in simp, use assms in \<open>simp add: step_simps\<close>,
        rule quiet_step [where s' = "(goto W_final_store w, q)"], simp add: goto_def,
        use e in \<open>simp add: step_simps\<close>,
        rule quiet_step [OF _ _ quiet_refl], simp add: goto_def, simp add: step_simps)
  from worker_until_quiet [OF this] show ?thesis by (simp add: worker_until_reached goto_def)
qed

lemma idle_queue_ok: "spsc_inv idle_queue" "spsc_contents idle_queue = []"
  by (auto simp: idle_queue_def spsc_inv_def spsc_contents_def ring_read_def ring_capacity_def
        intro!: bexI [of _ 2])

subsection \<open>Properties\<close>

text \<open>C32: A worker that was stopped cannot be put back in service. \<^verbatim>\<open>stop\<close> leaves the shutdown flag
  set and nothing clears it: the thread that a second \<^verbatim>\<open>start\<close> creates finds the queue empty and
  ends, while the status says running. From then on no step of the thread takes anything from the
  queue, whatever is enqueued, and \<^verbatim>\<open>flush\<close> never returns.\<close>

theorem restart_never_serves:
  assumes "backend_stop env (w, q) = Some (w1, q1)" "bw_status w = Bw_kRunning"
    and "spsc_inv q1" "spsc_contents q1 = []" "backend_start w1 = Some w2"
    and "bw_flush_requested_seq w1 \<noteq> 0xFFFFFFFFFFFFFFFF"
  shows "\<exists>w3. worker_until env (\<lambda>w. bw_thread w = Some W_done) (w2, q1) = Some (w3, q1) \<and>
           bw_status w3 = Bw_kRunning \<and>
           (\<forall>q'. worker_step env (w3, q') = Some (w3, q') \<and> backend_flush env (w3, q') = None)"
proof -
  have sh: "bw_shutdown_required w2" "bw_status w2 = Bw_kRunning" "bw_thread w2 = Some W_check"
      "bw_flush_requested_seq w2 = bw_flush_requested_seq w1"
    using assms(5) stop_sets_shutdown [OF assms(1,2)] by (auto simp: backend_start_def split: if_splits)
  let ?w = "goto W_done (w2\<lparr>bw_flush_completed_seq := bw_flush_requested_seq w2\<rparr>)"
  have u: "worker_until env (\<lambda>w. bw_thread w = Some W_done) (w2, q1) = Some (?w, q1)"
    using assms(3,4) sh(1,3) by (rule ends_when_empty)
  have "backend_flush env (?w, q') = None" for q'
  proof -
    let ?seq = "bw_flush_requested_seq w2 + 1"
    let ?v = "?w\<lparr>bw_flush_requested_seq := ?seq\<rparr>"
    have lt: "bw_flush_requested_seq w2 < ?seq"
      using unat_Suc_not_max [OF assms(6)] sh(4) by (simp add: word_less_nat_alt)
    have "worker_until env (\<lambda>v. \<not> bw_flush_completed_seq v < ?seq) (?v, q') \<noteq> Some y" for y
      using worker_until_stuck [of env "\<lambda>v. \<not> bw_flush_completed_seq v < ?seq" "(?v, q')" y] lt
      by (auto simp: step_simps)
    then have "worker_until env (\<lambda>v. \<not> bw_flush_completed_seq v < ?seq) (?v, q') = None" by blast
    then show ?thesis using sh(2) by (simp add: backend_flush_def goto_def Let_def)
  qed
  then show ?thesis using u sh(2) by (intro exI [of _ ?w]) (simp add: step_simps)
qed

theorem restart_never_serves_witness:
  "let w = (backend_new 0 :: unit backend_worker)\<lparr>bw_thread := Some W_check, bw_status := Bw_kRunning\<rparr>;
       w1 = w\<lparr>bw_shutdown_required := True, bw_thread := None, bw_status := Bw_kIdling\<rparr>;
       w2 = w1\<lparr>bw_thread := Some W_check, bw_status := Bw_kRunning\<rparr>
   in backend_stop env0 (w, idle_queue) = Some (w1, idle_queue) \<and> backend_start w1 = Some w2 \<and>
      (\<exists>w3. worker_until env0 (\<lambda>w. bw_thread w = Some W_done) (w2, idle_queue) = Some (w3, idle_queue) \<and>
         bw_status w3 = Bw_kRunning \<and> backend_flush env0 (w3, idle_queue) = None)"
proof -
  let ?w = "(backend_new 0 :: unit backend_worker)\<lparr>bw_thread := Some W_check, bw_status := Bw_kRunning\<rparr>"
  let ?w1 = "?w\<lparr>bw_shutdown_required := True, bw_thread := None, bw_status := Bw_kIdling\<rparr>"
  let ?w2 = "?w1\<lparr>bw_thread := Some W_check, bw_status := Bw_kRunning\<rparr>"
  have s: "backend_stop env0 (?w, idle_queue) = Some (?w1, idle_queue)"
    using ends_when_empty [OF idle_queue_ok, of "?w\<lparr>bw_shutdown_required := True\<rparr>" env0]
    by (simp add: backend_stop_def backend_new_def goto_def)
  have st: "backend_start ?w1 = Some ?w2" by (simp add: backend_start_def)
  have r: "bw_status ?w = Bw_kRunning" "bw_flush_requested_seq ?w1 \<noteq> 0xFFFFFFFFFFFFFFFF"
    by (simp_all add: backend_new_def)
  from restart_never_serves [OF s r(1) idle_queue_ok st r(2)] obtain w3 where
    "worker_until env0 (\<lambda>w. bw_thread w = Some W_done) (?w2, idle_queue) = Some (w3, idle_queue)"
    "bw_status w3 = Bw_kRunning" "\<forall>q'. backend_flush env0 (w3, q') = None"
    by blast
  then show ?thesis unfolding Let_def using s st by blast
qed

text \<open>The back-off of an idle worker never shortens as idling goes on, from a busy loop to sleeps
  of at most a tenth of a millisecond, and a processed record starts it again.\<close>

theorem polling_backoff:
  "(i \<le> j \<longrightarrow> poll_delay (backoff i) \<le> poll_delay (backoff j)) \<and> poll_delay (backoff j) \<le> 100000 \<and>
   bw_idle_iterations (snd (apply_polling_strategy w True)) = 0 \<and>
   fst (apply_polling_strategy w True) = None \<and>
   fst (apply_polling_strategy w False) = Some (backoff (bw_idle_iterations w + 1)) \<and>
   bw_idle_iterations (snd (apply_polling_strategy w False)) = bw_idle_iterations w + 1"
  by (simp add: apply_polling_strategy_def poll_delay_mono poll_delay_bound Let_def)

theorem polling_backoff_witness:
  "poll_delay (backoff 3000) \<le> poll_delay (backoff 9000)"
  by (rule conjunct1 [OF polling_backoff, THEN mp]) simp


end
