(* ===== verification/String_Util.thy ===== *)
theory String_Util
  imports Prelude "HOL-Library.Sublist"
begin

text \<open>
  \<^verbatim>\<open>src/src/core/base/string_util.cc\<close> and its header. A routine that writes through a moving pointer
  into a buffer it sized beforehand writes into a block of that size, so that its definedness is
  the proof that the size is enough.
\<close>

subsection \<open>Escaping\<close>

text \<open>One store \<^verbatim>\<open>*write_ptr++ = c\<close>.\<close>

definition emit :: "char \<Rightarrow> byte list \<times> nat \<Rightarrow> (byte list \<times> nat) option" where
  "emit c bp = do { b \<leftarrow> memcpy (fst bp) (snd bp) [c]; Some (b, Suc (snd bp)) }"

definition encode_char :: "char \<Rightarrow> byte list \<times> nat \<Rightarrow> (byte list \<times> nat) option" where
  "encode_char c bp =
     (if c = CHR 0x0A then do { bp \<leftarrow> emit (CHR 0x5C) bp; emit (CHR ''n'') bp }
      else if c = CHR 0x0D then do { bp \<leftarrow> emit (CHR 0x5C) bp; emit (CHR ''r'') bp }
      else if c = CHR 0x09 then do { bp \<leftarrow> emit (CHR 0x5C) bp; emit (CHR ''t'') bp }
      else if c = CHR 0x5C then do { bp \<leftarrow> emit (CHR 0x5C) bp; emit (CHR 0x5C) bp }
      else emit c bp)"

fun encode_loop :: "string \<Rightarrow> byte list \<times> nat \<Rightarrow> (byte list \<times> nat) option" where
  "encode_loop [] bp = Some bp"
| "encode_loop (c # cs) bp = do { bp \<leftarrow> encode_char c bp; encode_loop cs bp }"

definition encode_escape :: "string \<Rightarrow> string option" where
  "encode_escape input = do {
     (out, n) \<leftarrow> encode_loop input (replicate (length input * 2) (CHR 0x00), 0);
     Some (take n out)
   }"

text \<open>The loop of the decoder, from its current index on.\<close>

fun decode_loop :: "string \<Rightarrow> byte list \<times> nat \<Rightarrow> (byte list \<times> nat) option" where
  "decode_loop [] bp = Some bp"
| "decode_loop [c] bp = emit c bp"
| "decode_loop (c # d # cs) bp =
     (if c = CHR 0x5C then
        if d = CHR ''n'' then do { bp \<leftarrow> emit (CHR 0x0A) bp; decode_loop cs bp }
        else if d = CHR ''r'' then do { bp \<leftarrow> emit (CHR 0x0D) bp; decode_loop cs bp }
        else if d = CHR ''t'' then do { bp \<leftarrow> emit (CHR 0x09) bp; decode_loop cs bp }
        else if d = CHR 0x5C then do { bp \<leftarrow> emit (CHR 0x5C) bp; decode_loop cs bp }
        else do { bp \<leftarrow> emit c bp; decode_loop (d # cs) bp }
      else do { bp \<leftarrow> emit c bp; decode_loop (d # cs) bp })"

definition decode_escape :: "string \<Rightarrow> string option" where
  "decode_escape input = do {
     (out, n) \<leftarrow> decode_loop input (replicate (length input) (CHR 0x00), 0);
     Some (take n out)
   }"

subsection \<open>Case conversion\<close>

definition to_lower :: "char \<Rightarrow> char" where
  "to_lower c = (if of_char c \<in> {65..90 :: nat} then char_of (of_char c OR (0x20 :: nat)) else c)"

definition to_upper :: "char \<Rightarrow> char" where
  "to_upper c =
     (if of_char c \<in> {97..122 :: nat} then char_of (uint ((of_nat (of_char c) :: 8 word) AND NOT 0x20)) else c)"

fun to_lower_string :: "string \<Rightarrow> string" where
  "to_lower_string [] = []"
| "to_lower_string (c # cs) = to_lower c # to_lower_string cs"

fun to_upper_string :: "string \<Rightarrow> string" where
  "to_upper_string [] = []"
| "to_upper_string (c # cs) = to_upper c # to_upper_string cs"

text \<open>The overload for a buffer and a length; a null pointer is left alone.\<close>

fun to_lower_n :: "byte list \<Rightarrow> nat \<Rightarrow> nat \<Rightarrow> byte list option" where
  "to_lower_n buf i 0 = Some buf"
| "to_lower_n buf i (Suc k) =
     (if i < length buf then to_lower_n (buf[i := to_lower (buf ! i)]) (Suc i) k else None)"

fun to_upper_n :: "byte list \<Rightarrow> nat \<Rightarrow> nat \<Rightarrow> byte list option" where
  "to_upper_n buf i 0 = Some buf"
| "to_upper_n buf i (Suc k) =
     (if i < length buf then to_upper_n (buf[i := to_upper (buf ! i)]) (Suc i) k else None)"

text \<open>The overload for a NUL-terminated buffer, from the pointer's position on.\<close>

function to_lower_z :: "byte list \<Rightarrow> nat \<Rightarrow> byte list option" where
  "to_lower_z buf p =
     (if p < length buf then
        if buf ! p = CHR 0x00 then Some buf else to_lower_z (buf[p := to_lower (buf ! p)]) (Suc p)
      else None)"
  by auto
termination by (relation "measure (\<lambda>(buf, p). length buf - p)") auto

function to_upper_z :: "byte list \<Rightarrow> nat \<Rightarrow> byte list option" where
  "to_upper_z buf p =
     (if p < length buf then
        if buf ! p = CHR 0x00 then Some buf else to_upper_z (buf[p := to_upper (buf ! p)]) (Suc p)
      else None)"
  by auto
termination by (relation "measure (\<lambda>(buf, p). length buf - p)") auto

declare to_lower_z.simps [simp del] to_upper_z.simps [simp del]

text \<open>The overload for a pointer to a string, in place; a null pointer is left alone.\<close>

function to_lower_each :: "string \<Rightarrow> nat \<Rightarrow> string" where
  "to_lower_each s i = (if i < length s then to_lower_each (s[i := to_lower (s ! i)]) (Suc i) else s)"
  by auto
termination by (relation "measure (\<lambda>(s, i). length s - i)") auto

function to_upper_each :: "string \<Rightarrow> nat \<Rightarrow> string" where
  "to_upper_each s i = (if i < length s then to_upper_each (s[i := to_upper (s ! i)]) (Suc i) else s)"
  by auto
termination by (relation "measure (\<lambda>(s, i). length s - i)") auto

declare to_lower_each.simps [simp del] to_upper_each.simps [simp del]

lemma to_lower_each_append: "to_lower_each (pre @ t) (length pre) = pre @ to_lower_string t"
proof (induction t arbitrary: pre)
  case (Cons c t)
  then show ?case using Cons.IH [of "pre @ [to_lower c]"]
    by (subst to_lower_each.simps) (simp add: list_update_append)
qed (simp add: to_lower_each.simps)

lemma to_upper_each_append: "to_upper_each (pre @ t) (length pre) = pre @ to_upper_string t"
proof (induction t arbitrary: pre)
  case (Cons c t)
  then show ?case using Cons.IH [of "pre @ [to_upper c]"]
    by (subst to_upper_each.simps) (simp add: list_update_append)
qed (simp add: to_upper_each.simps)

lemma to_lower_each_string: "to_lower_each s 0 = to_lower_string s" "to_upper_each s 0 = to_upper_string s"
  using to_lower_each_append [of "[]" s] to_upper_each_append [of "[]" s] by simp_all

lemma to_lower_z_text:
  "CHR 0x00 \<notin> set t \<Longrightarrow>
   to_lower_z (pre @ t @ CHR 0x00 # rest) (length pre) = Some (pre @ to_lower_string t @ CHR 0x00 # rest)"
proof (induction t arbitrary: pre)
  case Nil
  then show ?case by (simp add: to_lower_z.simps)
next
  case (Cons c t)
  then show ?case using Cons.IH [of "pre @ [to_lower c]"]
    by (subst to_lower_z.simps) (auto simp: nth_append list_update_append)
qed

lemma to_upper_z_text:
  "CHR 0x00 \<notin> set t \<Longrightarrow>
   to_upper_z (pre @ t @ CHR 0x00 # rest) (length pre) = Some (pre @ to_upper_string t @ CHR 0x00 # rest)"
proof (induction t arbitrary: pre)
  case Nil
  then show ?case by (simp add: to_upper_z.simps)
next
  case (Cons c t)
  then show ?case using Cons.IH [of "pre @ [to_upper c]"]
    by (subst to_upper_z.simps) (auto simp: nth_append list_update_append)
qed

subsection \<open>UTF-8\<close>

definition utf8_char_length :: "char \<Rightarrow> nat" where
  "utf8_char_length lead = (let b = of_nat (of_char lead) :: 8 word in
     if b < 0x80 then 1
     else if b AND 0xE0 = 0xC0 then 2
     else if b AND 0xF0 = 0xE0 then 3
     else if b AND 0xF8 = 0xF0 then 4
     else 1)"

function utf8_truncate_loop :: "string \<Rightarrow> nat \<Rightarrow> nat \<Rightarrow> nat \<Rightarrow> nat" where
  "utf8_truncate_loop data max_chars i chars =
     (if i < length data \<and> chars < max_chars then
        let len = utf8_char_length (data ! i) in
        if i + len > length data then i
        else utf8_truncate_loop data max_chars (i + len) (Suc chars)
      else i)"
  by auto
termination by (relation "measure (\<lambda>(data, m, i, chars). m - chars)") auto

declare utf8_truncate_loop.simps [simp del]

definition utf8_truncate :: "string \<Rightarrow> nat \<Rightarrow> string" where
  "utf8_truncate input max_chars =
     (if max_chars = 0 then [] else if input = [] then []
      else take (utf8_truncate_loop input max_chars 0 0) input)"

subsection \<open>Splitting\<close>

text \<open>\<^verbatim>\<open>std::string::find\<close> in the rest of the string: the offset of the first occurrence.\<close>

fun find_sub :: "string \<Rightarrow> string \<Rightarrow> nat option" where
  "find_sub delimiter [] = (if delimiter = [] then Some 0 else None)"
| "find_sub delimiter (c # cs) =
     (if prefix delimiter (c # cs) then Some 0 else map_option Suc (find_sub delimiter cs))"

lemma find_sub_drop: "find_sub d s = Some k \<Longrightarrow> prefix d (drop k s) \<and> k \<le> length s"
  by (induction s arbitrary: k) (auto split: if_splits)

function split_loop :: "string \<Rightarrow> string \<Rightarrow> string list" where
  "split_loop delimiter rest =
     (if rest = [] \<or> delimiter = [] then []
      else case find_sub delimiter rest of
             None \<Rightarrow> [rest]
           | Some k \<Rightarrow> take k rest # split_loop delimiter (drop (k + length delimiter) rest))"
  by auto
termination
  by (relation "measure (\<lambda>(d, s). length s)") auto

declare split_loop.simps [simp del]

definition split_string :: "string \<Rightarrow> string \<Rightarrow> string list" where
  "split_string input delimiter =
     (if delimiter = [] then map (\<lambda>c. [c]) input else split_loop delimiter input)"

subsection \<open>Removing bracketed text\<close>

definition bracket_map :: "char \<Rightarrow> int" where
  "bracket_map c =
     (if c = CHR ''('' then 1 else if c = CHR '')'' then -1
      else if c = CHR ''{'' then 2 else if c = CHR ''}'' then -2
      else if c = CHR ''['' then 3 else if c = CHR '']'' then -3
      else if c = CHR ''<'' then 4 else if c = CHR ''>'' then -4 else 0)"

fun remove_bracket_loop ::
  "nat \<Rightarrow> string \<Rightarrow> int list \<Rightarrow> nat \<Rightarrow> byte list \<times> nat \<Rightarrow> (byte list \<times> nat) option" where
  "remove_bracket_loop max_nest_size [] stack depth bp = Some bp"
| "remove_bracket_loop max_nest_size (c # cs) stack depth bp =
     (let bracket_type = bracket_map c in
      if bracket_type > 0 then
        (if depth < max_nest_size then
           (if depth < length stack
            then remove_bracket_loop max_nest_size cs (stack[depth := bracket_type]) (Suc depth) bp
            else None)
         else remove_bracket_loop max_nest_size cs stack (Suc depth) bp)
      else if bracket_type < 0 then
        (if depth > 0 then
           (if depth \<le> max_nest_size then
              (if depth - 1 < length stack then
                 (if stack ! (depth - 1) = - bracket_type
                  then remove_bracket_loop max_nest_size cs stack (depth - 1) bp
                  else remove_bracket_loop max_nest_size cs stack depth bp)
               else None)
            else remove_bracket_loop max_nest_size cs stack (depth - 1) bp)
         else remove_bracket_loop max_nest_size cs stack depth bp)
      else if depth = 0 then do {
        bp \<leftarrow> emit c bp;
        remove_bracket_loop max_nest_size cs stack depth bp
      }
      else remove_bracket_loop max_nest_size cs stack depth bp)"

definition remove_bracket :: "string \<Rightarrow> nat \<Rightarrow> string option" where
  "remove_bracket input max_nest_size =
     (if input = [] then Some []
      else do {
        (out, n) \<leftarrow> remove_bracket_loop max_nest_size input
          (replicate (min (length input div 2) max_nest_size) 0) 0
          (replicate (length input) (CHR 0x00), 0);
        Some (take n out)
      })"

subsection \<open>Writing into fixed buffers\<close>

definition hex_digit :: "nat \<Rightarrow> char" where
  "hex_digit d = (if d < 10 then char_of (48 + d) else char_of (87 + d))"

text \<open>\<^verbatim>\<open>std::to_chars\<close> with base 16: lower-case digits, no leading zeros, nothing on overflow.\<close>

fun to_hex :: "nat \<Rightarrow> string" where
  "to_hex n = (if n < 16 then [hex_digit n] else to_hex (n div 16) @ [hex_digit (n mod 16)])"

declare to_hex.simps [simp del]

definition format_address_safe :: "u64 \<Rightarrow> byte list \<Rightarrow> byte list option" where
  "format_address_safe addr buffer =
     (if length buffer < 8 * 2 + 3 then
        (if length buffer > 0 then memcpy buffer 0 [CHR 0x00] else Some buffer)
      else do {
        b \<leftarrow> memcpy buffer 0 ''0x'';
        let digits = to_hex (unat addr);
        (if length digits \<le> length buffer - 2
         then do { b \<leftarrow> memcpy b 2 digits; memcpy b (2 + length digits) [CHR 0x00] }
         else memcpy b 0 [CHR 0x00])
      })"

text \<open>A cursor into a block whose end is the end of the block.\<close>

definition padding :: "byte list \<Rightarrow> nat \<Rightarrow> nat \<Rightarrow> nat \<Rightarrow> (byte list \<times> nat) option" where
  "padding block cursor current_len align_len = do {
     let pad_len = (if align_len > current_len then align_len - current_len else 0);
     let to_pad = min pad_len (length block - cursor);
     b \<leftarrow> memcpy block cursor (replicate to_pad (CHR '' ''));
     Some (b, cursor + to_pad)
   }"

definition write_raw :: "byte list \<Rightarrow> nat \<Rightarrow> byte list \<Rightarrow> nat \<Rightarrow> (byte list \<times> nat) option" where
  "write_raw block dest source len =
     (if len = 0 then Some (block, 0)
      else do { src \<leftarrow> mem_read source 0 len; b \<leftarrow> memcpy block dest src; Some (b, len) })"

definition write_format :: "byte list \<Rightarrow> nat \<Rightarrow> string \<Rightarrow> (byte list \<times> nat \<times> nat) option" where
  "write_format block cursor text_out =
     (if length block \<le> cursor then Some (block, cursor, 0)
      else do {
        let out = take (length block - cursor - 1) text_out;
        b \<leftarrow> memcpy block cursor out;
        b \<leftarrow> memcpy b (cursor + length out) [CHR 0x00];
        Some (b, cursor + length out, length out)
      })"

text \<open>The text \<^verbatim>\<open>std::format\<close> gives an unsigned number: its decimal digits, no leading zeros.\<close>

fun decimal :: "nat \<Rightarrow> string" where
  "decimal n =
     (if n < 10 then [''0123456789'' ! n] else decimal (n div 10) @ [''0123456789'' ! (n mod 10)])"

declare decimal.simps [simp del]

text \<open>
  A C string in a block is its bytes up to the first NUL; a block without one is read past its
  end. \<^verbatim>\<open>safe_strlen\<close> takes a pointer that may be null.
\<close>

definition strlen :: "byte list \<Rightarrow> nat option" where
  "strlen block =
     (if CHR 0x00 \<in> set block then Some (length (takeWhile (\<lambda>c. c \<noteq> CHR 0x00) block)) else None)"

definition safe_strlen :: "byte list option \<Rightarrow> nat option" where
  "safe_strlen str = (case str of None \<Rightarrow> Some 0 | Some block \<Rightarrow> strlen block)"

definition c_str :: "byte list \<Rightarrow> string option" where
  "c_str block = do { n \<leftarrow> strlen block; mem_read block 0 n }"

text \<open>\<^verbatim>\<open>write_bytes\<close> and \<^verbatim>\<open>read_bytes\<close>: a copy at the cursor, which then stands behind it. The block read
  into has at least the given size.\<close>

definition write_bytes :: "byte list \<Rightarrow> nat \<Rightarrow> byte list \<Rightarrow> nat \<Rightarrow> (byte list \<times> nat) option" where
  "write_bytes block cursor data sz = do {
     src \<leftarrow> mem_read data 0 sz;
     block \<leftarrow> memcpy block cursor src;
     Some (block, cursor + sz)
   }"

definition read_bytes :: "byte list \<Rightarrow> nat \<Rightarrow> byte list \<Rightarrow> nat \<Rightarrow> (byte list \<times> nat) option" where
  "read_bytes block cursor data sz = do {
     src \<leftarrow> mem_read block cursor sz;
     data \<leftarrow> memcpy data 0 src;
     Some (data, cursor + sz)
   }"

definition starts_with :: "string \<Rightarrow> string \<Rightarrow> nat \<Rightarrow> bool option" where
  "starts_with input pre index =
     (if length input < length pre then Some False
      else if length input < index then None
      else Some (take (length pre) (drop index input) = pre))"

subsection \<open>Reference definitions\<close>

definition esc :: "char \<Rightarrow> string" where
  "esc c = (if c = CHR 0x0A then [CHR 0x5C, CHR ''n''] else if c = CHR 0x0D then [CHR 0x5C, CHR ''r'']
     else if c = CHR 0x09 then [CHR 0x5C, CHR ''t''] else if c = CHR 0x5C then [CHR 0x5C, CHR 0x5C] else [c])"

fun unesc :: "string \<Rightarrow> string" where
  "unesc [] = []"
| "unesc [c] = [c]"
| "unesc (c # d # cs) =
     (if c = CHR 0x5C \<and> d = CHR ''n'' then CHR 0x0A # unesc cs
      else if c = CHR 0x5C \<and> d = CHR ''r'' then CHR 0x0D # unesc cs
      else if c = CHR 0x5C \<and> d = CHR ''t'' then CHR 0x09 # unesc cs
      else if c = CHR 0x5C \<and> d = CHR 0x5C then CHR 0x5C # unesc cs
      else c # unesc (d # cs))"

text \<open>The UTF-8 sequences of a string, as far as they are complete.\<close>

inductive utf8_seqs :: "string list \<Rightarrow> string \<Rightarrow> bool" where
  "utf8_seqs [] []"
| "length x = utf8_char_length (hd x) \<Longrightarrow> x \<noteq> [] \<Longrightarrow> utf8_seqs xs s \<Longrightarrow> utf8_seqs (x # xs) (x @ s)"

fun join :: "string \<Rightarrow> string list \<Rightarrow> string" where
  "join d [] = []"
| "join d [x] = x"
| "join d (x # y # xs) = x @ d @ join d (y # xs)"

subsection \<open>Lemmas\<close>

lemma emit_eq: "emit c (b, n) = do { b' \<leftarrow> memcpy b n [c]; Some (b', n + 1) }"
  by (simp add: emit_def)

lemma emit_then:
  assumes "\<And>b n. n \<le> length b \<Longrightarrow> f (b, n) = do { b' \<leftarrow> memcpy b n t; Some (b', n + length t) }"
  shows "(do { bp \<leftarrow> emit c (b, n); f bp }) = do { b' \<leftarrow> memcpy b n (c # t); Some (b', n + length (c # t)) }"
proof (cases "memcpy b n [c]")
  case None
  then show ?thesis using memcpy_append [of b n "[c]" t] by (simp add: emit_def)
next
  case (Some b1)
  then have "Suc n \<le> length b1" by (auto simp: memcpy_def split: if_splits)
  then show ?thesis using Some assms [of "Suc n" b1] memcpy_append [of b n "[c]" t] by (simp add: emit_def)
qed

lemma encode_loop_eq:
  "n \<le> length b \<Longrightarrow> encode_loop cs (b, n) =
     do { b' \<leftarrow> memcpy b n (concat (map esc cs)); Some (b', n + length (concat (map esc cs))) }"
proof (induction cs arbitrary: b n)
  case Nil
  then show ?case by (simp add: memcpy_def)
next
  case (Cons c cs)
  have one: "(do { bp \<leftarrow> emit x (b, n); encode_loop cs bp }) =
      do { b' \<leftarrow> memcpy b n (x # concat (map esc cs)); Some (b', n + length (x # concat (map esc cs))) }" for x
    by (rule emit_then) (rule Cons.IH)
  have two: "(do { bp \<leftarrow> emit x (b, n); bp \<leftarrow> emit y bp; encode_loop cs bp }) =
      do { b' \<leftarrow> memcpy b n (x # y # concat (map esc cs)); Some (b', n + length (x # y # concat (map esc cs))) }" for x y
    by (rule emit_then, rule emit_then) (rule Cons.IH)
  show ?case using one two by (auto simp: encode_char_def esc_def [of c])
qed

lemma length_esc: "length (concat (map esc s)) \<le> 2 * length s"
  by (induction s) (auto simp: esc_def)

lemma encode_escape_eq: "encode_escape s = Some (concat (map esc s))"
proof -
  let ?t = "concat (map esc s)"
  have "memcpy (replicate (length s * 2) (CHR 0x00)) 0 ?t =
      Some (?t @ drop (length ?t) (replicate (length s * 2) (CHR 0x00)))"
    using length_esc [of s] by (simp add: memcpy_def)
  then show ?thesis by (simp add: encode_escape_def encode_loop_eq)
qed

lemma decode_loop_eq:
  "n \<le> length b \<Longrightarrow> decode_loop cs (b, n) =
     do { b' \<leftarrow> memcpy b n (unesc cs); Some (b', n + length (unesc cs)) }"
proof (induction cs arbitrary: b n rule: unesc.induct)
  case 1
  then show ?case by (simp add: memcpy_def)
next
  case (2 c)
  then show ?case by (simp add: emit_def)
next
  case (3 c d cs)
  have t: "(do { bp \<leftarrow> emit x (b, n); decode_loop cs bp }) =
      do { b' \<leftarrow> memcpy b n (x # unesc cs); Some (b', n + length (x # unesc cs)) }"
    if "c = CHR 0x5C" "d \<in> {CHR ''n'', CHR ''r'', CHR ''t'', CHR 0x5C}" for x
    by (rule emit_then) (use that 3 in auto)
  have k: "(do { bp \<leftarrow> emit c (b, n); decode_loop (d # cs) bp }) =
      do { b' \<leftarrow> memcpy b n (c # unesc (d # cs)); Some (b', n + length (c # unesc (d # cs))) }"
    if "\<not> (c = CHR 0x5C \<and> d \<in> {CHR ''n'', CHR ''r'', CHR ''t'', CHR 0x5C})"
    by (rule emit_then) (use that 3 in auto)
  show ?case using t k by auto
qed

lemma length_unesc: "length (unesc s) \<le> length s"
  by (induction s rule: unesc.induct) auto

lemma decode_escape_eq: "decode_escape s = Some (unesc s)"
proof -
  have "memcpy (replicate (length s) (CHR 0x00)) 0 (unesc s) =
      Some (unesc s @ drop (length (unesc s)) (replicate (length s) (CHR 0x00)))"
    using length_unesc [of s] by (simp add: memcpy_def)
  then show ?thesis by (simp add: decode_escape_def decode_loop_eq)
qed

lemma unesc_plain: "c \<noteq> CHR 0x5C \<Longrightarrow> unesc (c # s) = c # unesc s"
  by (cases s) auto

lemma unesc_esc: "unesc (concat (map esc s)) = s"
proof (induction s)
  case (Cons c s)
  then show ?case by (auto simp: esc_def unesc_plain)
qed simp

lemma esc_chars: "set (concat (map esc s)) \<inter> {CHR 0x0A, CHR 0x0D, CHR 0x09} = {}"
  by (induction s) (auto simp: esc_def)

text \<open>What \<^verbatim>\<open>write_bytes\<close> writes, \<^verbatim>\<open>read_bytes\<close> reads back from the same place.\<close>

lemma write_read_bytes:
  assumes "write_bytes block p src n = Some (block', p')" "n \<le> length data"
  shows "read_bytes block' p data n = Some (take n src @ drop n data, p')"
  using assms
  by (auto simp: write_bytes_def read_bytes_def mem_read_def memcpy_def bind_eq_Some_conv split: if_splits)

subsection \<open>Properties\<close>


lemma utf8_truncate_loop_spec:
  assumes "i \<le> length data" "chars \<le> m"
  shows "\<exists>xs k. utf8_truncate_loop data m i chars = i + k \<and> i + k \<le> length data \<and>
           utf8_seqs xs (take k (drop i data)) \<and> chars + length xs \<le> m \<and>
           (chars + length xs = m \<or> i + k = length data \<or>
            i + k + utf8_char_length (data ! (i + k)) > length data)"
  using assms
proof (induction data m i chars rule: utf8_truncate_loop.induct)
  case (1 data m i chars)
  let ?l = "utf8_char_length (data ! i)"
  show ?case
  proof (cases "i < length data \<and> chars < m \<and> i + ?l \<le> length data")
    case True
    then have "\<exists>xs k. utf8_truncate_loop data m (i + ?l) (Suc chars) = i + ?l + k \<and> i + ?l + k \<le> length data \<and>
        utf8_seqs xs (take k (drop (i + ?l) data)) \<and> Suc chars + length xs \<le> m \<and>
        (Suc chars + length xs = m \<or> i + ?l + k = length data \<or>
         i + ?l + k + utf8_char_length (data ! (i + ?l + k)) > length data)"
      using "1.IH" [OF _ refl] by auto
    then obtain xs k where k: "utf8_truncate_loop data m (i + ?l) (Suc chars) = i + ?l + k"
        "i + ?l + k \<le> length data" "utf8_seqs xs (take k (drop (i + ?l) data))" "Suc chars + length xs \<le> m"
        "Suc chars + length xs = m \<or> i + ?l + k = length data \<or>
         i + ?l + k + utf8_char_length (data ! (i + ?l + k)) > length data" by blast
    let ?x = "take ?l (drop i data)"
    have "?l > 0" by (simp add: utf8_char_length_def Let_def)
    then have x: "?x \<noteq> []" "hd ?x = data ! i" "length ?x = ?l"
      using True by (auto simp: hd_drop_conv_nth)
    have "take (?l + k) (drop i data) = ?x @ take k (drop (i + ?l) data)"
      by (simp only: take_add drop_drop add.commute [of i])
    moreover have "utf8_seqs (?x # xs) (?x @ take k (drop (i + ?l) data))"
      using x k(3) by (intro utf8_seqs.intros(2)) simp_all
    moreover have "utf8_truncate_loop data m i chars = i + (?l + k)"
      using True k(1) by (subst utf8_truncate_loop.simps) (simp add: Let_def)
    ultimately show ?thesis using k(2,4,5)
      by (intro exI [of _ "?x # xs"] exI [of _ "?l + k"]) (simp add: add.assoc)
  next
    case False
    then have "utf8_truncate_loop data m i chars = i"
      by (subst utf8_truncate_loop.simps) (auto simp: Let_def)
    then show ?thesis using False "1.prems"
      by (intro exI [of _ "[]"] exI [of _ 0]) (auto intro: utf8_seqs.intros(1))
  qed
qed

lemma find_sub_None: "find_sub d s = None \<Longrightarrow> \<not> sublist d s"
  by (induction s) (auto simp: sublist_Cons_right split: if_splits)

lemma find_sub_first: "find_sub d s = Some k \<Longrightarrow> j < k \<Longrightarrow> \<not> prefix d (drop j s)"
proof (induction s arbitrary: k j)
  case (Cons c s)
  then show ?case by (cases j) (auto split: if_splits)
qed (auto split: if_splits)

lemma join_Cons: "xs \<noteq> [] \<Longrightarrow> join d (x # xs) = x @ d @ join d xs"
  by (cases xs) auto

lemma split_loop_join:
  assumes "d \<noteq> []"
  shows "s = join d (split_loop d s) \<or> s = join d (split_loop d s) @ d"
  using assms
proof (induction d s rule: split_loop.induct)
  case (1 d s)
  show ?case
  proof (cases "s = [] \<or> d = []")
    case True
    then show ?thesis using "1.prems" by (auto simp: split_loop.simps [of d "[]"])
  next
    case False
    show ?thesis
    proof (cases "find_sub d s")
      case None
      then show ?thesis using False by (subst split_loop.simps) simp
    next
      case (Some k)
      let ?r = "drop (k + length d) s"
      have "prefix d (drop k s)" using find_sub_drop [OF Some] by simp
      then have s: "s = take k s @ d @ ?r"
        by (metis append_take_drop_id drop_drop add.commute prefix_def append_eq_conv_conj)
      have l: "split_loop d s = take k s # split_loop d ?r"
        using False Some by (subst split_loop.simps) simp
      have IH: "?r = join d (split_loop d ?r) \<or> ?r = join d (split_loop d ?r) @ d"
        using "1.IH" "1.prems" False Some by blast
      show ?thesis
      proof (cases "split_loop d ?r = []")
        case True
        then have "?r = []" using False
          by (subst (asm) split_loop.simps) (auto split: if_splits option.splits)
        then show ?thesis using l s True by simp
      next
        case f: False
        have "join d (split_loop d s) = take k s @ d @ join d (split_loop d ?r)"
          unfolding l using f by (rule join_Cons)
        then show ?thesis using IH s by (metis append.assoc)
      qed
    qed
  qed
qed

lemma find_sub_token:
  assumes "find_sub d s = Some k" "d \<noteq> []"
  shows "\<not> sublist d (take k s)"
proof
  assume "sublist d (take k s)"
  then obtain u v where uv: "take k s = u @ d @ v" by (auto simp: sublist_def)
  then have "length u < k" using assms(2) by (metis add_less_cancel_left length_append length_greater_0_conv
        length_take less_add_same_cancel1 min.strict_boundedE trans_less_add1)
  moreover have "s = u @ d @ v @ drop k s" using uv by (metis append.assoc append_take_drop_id)
  then have "prefix d (drop (length u) s)" by (metis append_eq_conv_conj prefixI)
  ultimately show False using find_sub_first [OF assms(1)] by blast
qed

lemma split_loop_tokens: "d \<noteq> [] \<Longrightarrow> x \<in> set (split_loop d s) \<Longrightarrow> \<not> sublist d x"
proof (induction d s rule: split_loop.induct)
  case (1 d s)
  then have "x \<in> (if s = [] \<or> d = [] then {} else case find_sub d s of None \<Rightarrow> {s}
      | Some k \<Rightarrow> {take k s} \<union> set (split_loop d (drop (k + length d) s)))"
    by (simp add: split_loop.simps [of d s] split: if_splits option.splits)
  then show ?case
    using find_sub_None [of d s] find_sub_token [of d s] "1.IH" "1.prems"(1)
    by (auto split: if_splits option.splits)
qed


text \<open>Splitting at a non-empty delimiter loses nothing: joining the tokens with the delimiter
  gives the input back, up to one delimiter at its very end, and no token contains the delimiter.\<close>

theorem split_string_join:
  assumes "d \<noteq> []"
  shows "(s = join d (split_string s d) \<or> s = join d (split_string s d) @ d) \<and>
         (\<forall>x \<in> set (split_string s d). \<not> sublist d x)"
  using split_loop_join [OF assms, of s] split_loop_tokens [OF assms, of _ s] assms
  by (simp add: split_string_def)

theorem split_string_join_witness:
  "''a::b::'' = join ''::'' (split_string ''a::b::'' ''::'') @ ''::'' \<and>
   \<not> sublist ''::'' (hd (split_string ''a::b::'' ''::''))"
proof -
  have "split_string ''a::b::'' ''::'' = [''a'', ''b'']"
    by (simp add: split_string_def split_loop.simps)
  then show ?thesis using split_string_join [of "''::''" "''a::b::''"] by simp
qed

lemma to_hex_length: "n < 16 ^ Suc k \<Longrightarrow> length (to_hex n) \<le> Suc k"
proof (induction k arbitrary: n)
  case 0
  then show ?case by (simp add: to_hex.simps [of n])
next
  case (Suc k)
  then have "n div 16 < 16 ^ Suc k" by (simp add: less_mult_imp_div_less)
  then show ?case using Suc.IH [of "n div 16"] by (simp add: to_hex.simps [of n])
qed

fun hex_value :: "string \<Rightarrow> nat \<Rightarrow> nat" where
  "hex_value [] acc = acc"
| "hex_value (c # cs) acc =
     hex_value cs (acc * 16 + (if of_char c < (58 :: nat) then of_char c - 48 else of_char c - 87))"

lemma hex_value_append: "hex_value (xs @ ys) acc = hex_value ys (hex_value xs acc)"
  by (induction xs arbitrary: acc) auto

lemma hex_value_digit: "d < 16 \<Longrightarrow> hex_value [hex_digit d] acc = acc * 16 + d"
  by (auto simp: hex_digit_def)

lemma hex_value_to_hex: "hex_value (to_hex n) 0 = n"
proof (induction n rule: to_hex.induct)
  case (1 n)
  show ?case
  proof (cases "n < 16")
    case True
    then show ?thesis using hex_value_digit [of n 0] by (simp add: to_hex.simps [of n] del: hex_value.simps)
  next
    case False
    then show ?thesis
      using 1 hex_value_digit [of "n mod 16" "n div 16"]
      by (simp add: to_hex.simps [of n] hex_value_append del: hex_value.simps)
  qed
qed

text \<open>\<^verbatim>\<open>format_address_safe\<close> never leaves the buffer it is given. With at least 19 bytes it stores
  \<^verbatim>\<open>0x\<close>, the hexadecimal digits that denote the address (at most 16) and a NUL; a smaller buffer
  gets the empty string.\<close>

lemma format_address_safe_spec:
  "\<exists>b. format_address_safe addr buffer = Some b \<and> length b = length buffer \<and>
     (if length buffer < 19 then buffer = [] \<or> hd b = CHR 0x00
      else length (to_hex (unat addr)) \<le> 16 \<and> hex_value (to_hex (unat addr)) 0 = unat addr \<and>
             prefix (''0x'' @ to_hex (unat addr) @ [CHR 0x00]) b)"
proof (cases "length buffer < 19")
  case True
  then show ?thesis by (cases buffer) (auto simp: format_address_safe_def memcpy_def)
next
  case False
  let ?d = "to_hex (unat addr)"
  have "unat addr < 16 ^ Suc 15" using unsigned_less [of addr, where 'a = nat] by simp
  then have d: "length ?d \<le> 16" using to_hex_length [of "unat addr" 15] by simp
  let ?t = "''0x'' @ ?d @ [CHR 0x00]"
  have t: "memcpy buffer 0 ?t = Some (?t @ drop (length ?t) buffer)"
    using False d by (simp add: memcpy_def)
  have le: "length ?d \<le> length buffer - 2" using False d by simp
  have "format_address_safe addr buffer = memcpy buffer 0 ?t"
    unfolding memcpy_append [of buffer 0 "''0x''" "?d @ [CHR 0x00]"] memcpy_append [of _ _ ?d "[CHR 0x00]"]
    using False d le by (simp add: format_address_safe_def Let_def flip: numeral_2_eq_2)
  with t show ?thesis using False d hex_value_to_hex [of "unat addr"]
    by (intro exI [of _ "?t @ drop (length ?t) buffer"]) auto
qed

text \<open>\<^verbatim>\<open>remove_bracket\<close> sizes its stack by half the length of the input, but pushes every
  opening bracket: two opening brackets in a row already write outside it.\<close>

theorem remove_bracket_overrun:
  assumes "2 \<le> n" "n < 2 * m"
  shows "remove_bracket (replicate n (CHR ''('')) m = None"
proof -
  have over: "remove_bracket_loop m (replicate k (CHR ''('')) st d bp = None"
    if "length st < d + k" "length st < m" "d \<le> length st" for k st d bp
    using that
  proof (induction k arbitrary: st d)
    case (Suc k)
    then show ?case by (auto simp: bracket_map_def Let_def)
  qed simp
  have "min (n div 2) m = n div 2" using assms(2) by simp
  then show ?thesis using over [of "replicate (min (n div 2) m) 0" 0 n] assms
    by (auto simp: remove_bracket_def)
qed

theorem remove_bracket_overrun_witness: "remove_bracket (replicate 2 (CHR ''('')) 32 = None"
  by (rule remove_bracket_overrun) simp_all

end
