(* ===== verification/Sinks.thy ===== *)
theory Sinks
  imports "HOL-Library.Sublist" Backend_Worker String_Util
begin

text \<open>
  The sinks of \<^verbatim>\<open>src/src/include/femtolog/sinks/\<close>. A sink's \<open>writes\<close> field lists the buffers it handed
  to \<^verbatim>\<open>write(2)\<close>, one for each call; \<^theory_text>\<open>Sink_Disk\<close> says what the operating system makes of them. The texts that fmt produces for a time and for an integer and whether
  standard output is a terminal are parameters.
\<close>

record sink_env =
  se_tty :: bool
  se_time :: "u64 \<Rightarrow> u32 \<Rightarrow> string"
  se_dec :: "u64 \<Rightarrow> string"

subsection \<open>Timestamps\<close>

text \<open>
  \<^verbatim>\<open>SinkBase::format_timestamp\<close> into a local buffer: the text for the seconds and nanoseconds, cut to
  the buffer, its untruncated size, and a NUL behind it when there is room.
\<close>

definition format_timestamp :: "sink_env \<Rightarrow> u64 \<Rightarrow> byte list \<Rightarrow> byte list \<times> nat" where
  "format_timestamp se time_ns buf =
     (let seconds = time_ns div 1000000000;
          nanoseconds = ucast (time_ns mod 1000000000);
          text = se_time se seconds nanoseconds;
          buf = take (length buf) text @ drop (length text) buf
      in if length text > length buf - 1 then (buf, length text)
         else (buf[length text := CHR 0x00], length text))"

text \<open>
  A sink takes the time apart as the worker put it together (\<^verbatim>\<open>timestamp_ns\<close>), from 1970 until the
  nanoseconds no longer fit 64 bits in the year 2554.
\<close>

lemma timestamp_split:
  assumes "0 \<le> sec" "sec < 18446744073" "0 \<le> nsec" "nsec < 1000000000"
  shows "timestamp_ns (sec, nsec) div 1000000000 = word_of_int sec"
    "ucast (timestamp_ns (sec, nsec) mod 1000000000) = (word_of_int nsec :: u32)"
proof -
  let ?t = "sec * 1000000000 + nsec"
  have t: "timestamp_ns (sec, nsec) = word_of_int ?t" by (simp add: timestamp_ns_def)
  have n: "0 \<le> ?t" "?t < 2 ^ 64" using assms by simp_all
  have u: "uint (word_of_int ?t :: u64) = ?t"
    unfolding uint_word_of_int by (rule mod_pos_pos_trivial) (use n in simp_all)
  have d: "?t div 1000000000 = sec" "?t mod 1000000000 = nsec"
    using assms(3,4) by (simp_all add: div_add1_eq)
  show "timestamp_ns (sec, nsec) div 1000000000 = word_of_int sec"
    unfolding t word_div_def u by (simp add: d)
  show "ucast (timestamp_ns (sec, nsec) mod 1000000000) = (word_of_int nsec :: u32)"
    unfolding t word_mod_def u d using assms(3) less_trans [OF assms(4), of "2 ^ 64"]
    by (simp add: unsigned_of_int take_bit_int_eq_self mod_pos_pos_trivial [OF assms(3,4)])
qed

text \<open>What a flush adds to the calls: nothing when nothing is buffered.\<close>

definition chunk :: "byte list \<Rightarrow> byte list list" where
  "chunk b = (if b = [] then [] else [b])"

lemma concat_chunk [simp]: "concat (chunk b) = b"
  by (simp add: chunk_def)

text \<open>Consecutive \<^verbatim>\<open>memcpy\<close>s through an advancing pointer.\<close>

fun write_parts :: "byte list \<Rightarrow> nat \<Rightarrow> byte list list \<Rightarrow> (byte list \<times> nat) option" where
  "write_parts block p [] = Some (block, p)"
| "write_parts block p (x # xs) = do { block \<leftarrow> memcpy block p x; write_parts block (p + length x) xs }"

subsection \<open>StdoutSink\<close>

record stdout_sink =
  so_buffering :: bool
  so_buffer :: "byte list"
  so_cursor :: nat
  so_mode :: color_mode
  so_writes :: "byte list list"

definition kStdoutCapacity :: nat where
  "kStdoutCapacity = 4096"

definition stdout_new :: "bool \<Rightarrow> color_mode \<Rightarrow> stdout_sink" where
  "stdout_new buffering mode = \<lparr>so_buffering = buffering,
     so_buffer = (if buffering then replicate kStdoutCapacity (CHR 0x00) else []),
     so_cursor = 0, so_mode = mode, so_writes = []\<rparr>"

text \<open>\<^verbatim>\<open>InternalLogger::is_ansi_sequence_available\<close> asks \<^verbatim>\<open>isatty\<close> once and keeps the answer.\<close>

definition is_ansi_sequence_available :: "sink_env \<Rightarrow> bool" where
  "is_ansi_sequence_available se = se_tty se"

declare is_ansi_sequence_available_def [simp]

definition is_color_enabled :: "sink_env \<Rightarrow> stdout_sink \<Rightarrow> bool" where
  "is_color_enabled se s \<longleftrightarrow>
     so_mode s = Color_kAuto \<and> is_ansi_sequence_available se \<or> so_mode s = Color_kAlways"

definition estimate_length :: "sink_env \<Rightarrow> stdout_sink \<Rightarrow> log_level \<Rightarrow> nat \<Rightarrow> nat" where
  "estimate_length se s level content_len =
     content_len + 2 + (if is_color_enabled se s then 4 + 4 + 4 else 0) + level_len level"

definition build_message ::
  "sink_env \<Rightarrow> stdout_sink \<Rightarrow> byte list \<Rightarrow> nat \<Rightarrow> log_level \<Rightarrow> byte list \<Rightarrow> nat \<Rightarrow> (byte list \<times> nat) option" where
  "build_message se s block out level content content_len = do {
     (block, p) \<leftarrow>
       (if level \<noteq> kRaw then do {
          (block, p) \<leftarrow> (if is_color_enabled se s
             then write_parts block out [ansi ''1'', log_level_to_ansi_color level] else Some (block, out));
          (block, p) \<leftarrow> write_parts block p [log_level_to_lower_str level];
          (block, p) \<leftarrow> (if is_color_enabled se s then write_parts block p [ansi ''0''] else Some (block, p));
          write_parts block p ['': '']
        } else Some (block, out));
     text \<leftarrow> mem_read content 0 content_len;
     (block, p) \<leftarrow> write_parts block p [text];
     Some (block, p - out)
   }"

definition stdout_flush :: "stdout_sink \<Rightarrow> stdout_sink option" where
  "stdout_flush s =
     (if so_buffering s then
        if so_cursor s = 0 then Some s
        else do {
          d \<leftarrow> mem_read (so_buffer s) 0 (so_cursor s);
          Some (s\<lparr>so_writes := so_writes s @ [d], so_cursor := 0\<rparr>)
        }
      else Some s)"

definition stdout_write_direct ::
  "sink_env \<Rightarrow> stdout_sink \<Rightarrow> log_level \<Rightarrow> byte list \<Rightarrow> nat \<Rightarrow> stdout_sink option" where
  "stdout_write_direct se s level content len = do {
     (tmp, tot) \<leftarrow> build_message se s (replicate kStdoutCapacity (CHR 0x00)) 0 level content len;
     d \<leftarrow> mem_read tmp 0 tot;
     Some (s\<lparr>so_writes := so_writes s @ [d]\<rparr>)
   }"

definition stdout_on_log ::
  "sink_env \<Rightarrow> stdout_sink \<Rightarrow> log_entry \<Rightarrow> byte list \<Rightarrow> nat \<Rightarrow> stdout_sink option" where
  "stdout_on_log se s entry content len =
     (if \<not> so_buffering s then stdout_write_direct se s (e_level entry) content len
      else do {
        let total_len = estimate_length se s (e_level entry) len;
        s \<leftarrow> (if so_cursor s + total_len > kStdoutCapacity then stdout_flush s else Some s);
        if total_len > kStdoutCapacity then stdout_write_direct se s (e_level entry) content len
        else do {
          (buf, n) \<leftarrow> build_message se s (so_buffer s) (so_cursor s) (e_level entry) content len;
          Some (s\<lparr>so_buffer := buf, so_cursor := so_cursor s + n\<rparr>)
        }
      })"

subsection \<open>FileSink\<close>

record file_sink =
  fs_fd :: int
  fs_buffer :: "byte list"
  fs_cursor :: nat
  fs_writes :: "byte list list"

abbreviation fs_open :: "file_sink \<Rightarrow> bool" where
  "fs_open s \<equiv> 0 \<le> fs_fd s"

definition kFileCapacity :: nat where
  "kFileCapacity = 4096"

text \<open>The state a constructor leaves; \<open>fd\<close> is what \<^verbatim>\<open>open(2)\<close> returned.\<close>

definition file_new :: "int \<Rightarrow> file_sink" where
  "file_new fd = \<lparr>fs_fd = fd, fs_buffer = replicate kFileCapacity (CHR 0x00),
     fs_cursor = 0, fs_writes = []\<rparr>"

definition file_flush :: "file_sink \<Rightarrow> file_sink option" where
  "file_flush s =
     (if fs_cursor s = 0 \<or> \<not> fs_open s then Some s
      else do {
        d \<leftarrow> mem_read (fs_buffer s) 0 (fs_cursor s);
        Some (s\<lparr>fs_writes := fs_writes s @ [d], fs_cursor := 0\<rparr>)
      })"

text \<open>
  The POSIX branch of \<^verbatim>\<open>write_direct\<close>. An \<^verbatim>\<open>iovec\<close> is a block and a length; the array has three
  elements and a store past them is undefined. \<^verbatim>\<open>writev\<close> then reads the pieces.
\<close>

fun fill_iov :: "nat \<Rightarrow> 'a list \<Rightarrow> nat \<Rightarrow> 'a list \<Rightarrow> 'a list option" where
  "fill_iov slots iov iovcnt [] = Some iov"
| "fill_iov slots iov iovcnt (x # xs) =
     (if iovcnt < slots then fill_iov slots (iov @ [x]) (Suc iovcnt) xs else None)"

fun gather :: "(byte list \<times> nat) list \<Rightarrow> byte list option" where
  "gather [] = Some []"
| "gather ((block, len) # iov) = do { d \<leftarrow> mem_read block 0 len; ds \<leftarrow> gather iov; Some (d @ ds) }"

definition file_write_direct :: "file_sink \<Rightarrow> (byte list \<times> nat) list \<Rightarrow> file_sink option" where
  "file_write_direct s pieces =
     (if \<not> fs_open s then Some s
      else do {
        iov \<leftarrow> fill_iov 3 [] 0 pieces;
        d \<leftarrow> gather iov;
        Some (s\<lparr>fs_writes := fs_writes s @ [d]\<rparr>)
      })"

definition file_on_log ::
  "sink_env \<Rightarrow> file_sink \<Rightarrow> log_entry \<Rightarrow> byte list \<Rightarrow> nat \<Rightarrow> file_sink option" where
  "file_on_log se s entry content len = do {
     let (timestamp_buf, timestamp_size) =
       format_timestamp se (e_timestamp_ns entry) (replicate 32 (CHR 0x00));
     let level_str = log_level_to_lower_str (e_level entry);
     let lv_len = level_len (e_level entry);
     let tot = timestamp_size + lv_len + 2 + len;
     s \<leftarrow> (if fs_cursor s + tot > kFileCapacity then file_flush s else Some s);
     if tot > kFileCapacity
     then file_write_direct s [(timestamp_buf, timestamp_size), (level_str, lv_len), ('': '', 2), (content, len)]
     else do {
       ts \<leftarrow> mem_read timestamp_buf 0 timestamp_size;
       text \<leftarrow> mem_read content 0 len;
       (buf, cursor) \<leftarrow> write_parts (fs_buffer s) (fs_cursor s) [ts, level_str, '': '', text];
       Some (s\<lparr>fs_buffer := buf, fs_cursor := cursor\<rparr>)
     }
   }"

subsection \<open>JsonLinesSink\<close>

record json_sink =
  js_buffering :: bool
  js_fd :: int
  js_buffer :: "byte list"
  js_cursor :: nat
  js_writes :: "byte list list"

abbreviation js_open :: "json_sink \<Rightarrow> bool" where
  "js_open s \<equiv> 0 \<le> js_fd s"

definition kJsonCapacity :: nat where
  "kJsonCapacity = 8192"

definition kMaxJsonLineSize :: nat where
  "kMaxJsonLineSize = 2048"

definition json_new :: "bool \<Rightarrow> int \<Rightarrow> json_sink" where
  "json_new buffering fd = \<lparr>js_buffering = buffering, js_fd = fd,
     js_buffer = (if buffering then replicate kJsonCapacity (CHR 0x00) else []),
     js_cursor = 0, js_writes = []\<rparr>"

text \<open>
  The line \<^verbatim>\<open>{"timestamp": T, "level": "L", "message": "M"}\<close> and a line feed; the character 0x22 is
  the quotation mark.
\<close>

definition quoted :: "string \<Rightarrow> string" where
  "quoted s = CHR 0x22 # s @ [CHR 0x22]"

definition json_line :: "sink_env \<Rightarrow> log_entry \<Rightarrow> string \<Rightarrow> string" where
  "json_line se entry encoded =
     ''{'' @ quoted ''timestamp'' @ '': '' @ se_dec se (e_timestamp_ns entry) @ '', '' @
     quoted ''level'' @ '': '' @ quoted (log_level_to_lower_str (e_level entry)) @ '', '' @
     quoted ''message'' @ '': '' @ quoted encoded @ ''}'' @ [CHR 0x0A]"

definition json_flush :: "json_sink \<Rightarrow> json_sink option" where
  "json_flush s =
     (if js_buffering s then
        if js_cursor s = 0 \<or> \<not> js_open s then Some s
        else do {
          d \<leftarrow> mem_read (js_buffer s) 0 (js_cursor s);
          Some (s\<lparr>js_writes := js_writes s @ [d], js_cursor := 0\<rparr>)
        }
      else Some s)"

definition json_write_raw :: "json_sink \<Rightarrow> byte list \<Rightarrow> nat \<Rightarrow> json_sink option" where
  "json_write_raw s data sz =
     (if \<not> js_open s then Some s
      else do { d \<leftarrow> mem_read data 0 sz; Some (s\<lparr>js_writes := js_writes s @ [d]\<rparr>) })"

definition json_on_log ::
  "sink_env \<Rightarrow> json_sink \<Rightarrow> log_entry \<Rightarrow> byte list \<Rightarrow> nat \<Rightarrow> json_sink option" where
  "json_on_log se s entry content len = do {
     text \<leftarrow> mem_read content 0 len;
     encoded \<leftarrow> encode_escape text;
     let out = json_line se entry encoded;
     let line = take kMaxJsonLineSize out @ replicate (kMaxJsonLineSize - length out) (CHR 0x00);
     let line_len = length out;
     if \<not> js_buffering s then json_write_raw s line line_len
     else do {
       s \<leftarrow> (if js_cursor s + line_len > kJsonCapacity then json_flush s else Some s);
       if line_len > kJsonCapacity then json_write_raw s line line_len
       else do {
         d \<leftarrow> mem_read line 0 line_len;
         buf \<leftarrow> memcpy (js_buffer s) (js_cursor s) d;
         Some (s\<lparr>js_buffer := buf, js_cursor := js_cursor s + line_len\<rparr>)
       }
     }
   }"

subsection \<open>Any sink\<close>

datatype sink = Stdout_sink stdout_sink | File_sink file_sink | Json_sink json_sink | Null_sink

fun sink_on_log :: "sink_env \<Rightarrow> sink on_log" where
  "sink_on_log se (Stdout_sink s) e content n = map_option Stdout_sink (stdout_on_log se s e content n)"
| "sink_on_log se (File_sink s) e content n = map_option File_sink (file_on_log se s e content n)"
| "sink_on_log se (Json_sink s) e content n = map_option Json_sink (json_on_log se s e content n)"
| "sink_on_log se Null_sink e content n = Some Null_sink"

text \<open>The descriptor a sink writes to.\<close>

fun sink_fd :: "sink \<Rightarrow> int" where
  "sink_fd (Stdout_sink s) = 1"
| "sink_fd (File_sink s) = fs_fd s"
| "sink_fd (Json_sink s) = js_fd s"
| "sink_fd Null_sink = -1"

text \<open>Destruction flushes a sink.\<close>

fun sink_destroy :: "sink \<Rightarrow> sink option" where
  "sink_destroy (Stdout_sink s) = map_option Stdout_sink (if so_buffering s then stdout_flush s else Some s)"
| "sink_destroy (File_sink s) = map_option File_sink (file_flush s)"
| "sink_destroy (Json_sink s) = map_option Json_sink (if js_buffering s then json_flush s else Some s)"
| "sink_destroy Null_sink = Some Null_sink"

fun sink_writes :: "sink \<Rightarrow> byte list list" where
  "sink_writes (Stdout_sink s) = so_writes s"
| "sink_writes (File_sink s) = fs_writes s"
| "sink_writes (Json_sink s) = js_writes s"
| "sink_writes Null_sink = []"

abbreviation sink_written :: "sink \<Rightarrow> string" where
  "sink_written s \<equiv> concat (sink_writes s)"

subsection \<open>The contract of the sinks\<close>

text \<open>What has been produced, handed over or still buffered.\<close>

fun sink_out :: "sink \<Rightarrow> string" where
  "sink_out (Stdout_sink s) = concat (so_writes s) @ (if so_buffering s then take (so_cursor s) (so_buffer s) else [])"
| "sink_out (File_sink s) = concat (fs_writes s) @ take (fs_cursor s) (fs_buffer s)"
| "sink_out (Json_sink s) = concat (js_writes s) @ (if js_buffering s then take (js_cursor s) (js_buffer s) else [])"
| "sink_out Null_sink = []"

fun sink_pending :: "sink \<Rightarrow> string" where
  "sink_pending (Stdout_sink s) = (if so_buffering s then take (so_cursor s) (so_buffer s) else [])"
| "sink_pending (File_sink s) = take (fs_cursor s) (fs_buffer s)"
| "sink_pending (Json_sink s) = (if js_buffering s then take (js_cursor s) (js_buffer s) else [])"
| "sink_pending Null_sink = []"

lemma sink_out_split: "sink_out s = sink_written s @ sink_pending s"
  by (cases s) simp_all

fun sink_inv :: "sink \<Rightarrow> bool" where
  "sink_inv (Stdout_sink s) \<longleftrightarrow>
     (so_buffering s \<longrightarrow> length (so_buffer s) = kStdoutCapacity \<and> so_cursor s \<le> kStdoutCapacity)"
| "sink_inv (File_sink s) \<longleftrightarrow> fs_open s \<and> length (fs_buffer s) = kFileCapacity \<and> fs_cursor s \<le> kFileCapacity"
| "sink_inv (Json_sink s) \<longleftrightarrow> js_open s \<and>
     (js_buffering s \<longrightarrow> length (js_buffer s) = kJsonCapacity \<and> js_cursor s \<le> kJsonCapacity)"
| "sink_inv Null_sink = True"

definition stdout_text :: "sink_env \<Rightarrow> stdout_sink \<Rightarrow> log_level \<Rightarrow> string \<Rightarrow> string" where
  "stdout_text se s level text =
     (if level = kRaw then text
      else (if is_color_enabled se s then ansi ''1'' @ log_level_to_ansi_color level else []) @
           log_level_to_lower_str level @ (if is_color_enabled se s then ansi ''0'' else []) @ '': '' @ text)"

definition time_text :: "sink_env \<Rightarrow> log_entry \<Rightarrow> string" where
  "time_text se e = se_time se (e_timestamp_ns e div 1000000000) (ucast (e_timestamp_ns e mod 1000000000))"

fun sink_render :: "sink_env \<Rightarrow> sink \<Rightarrow> log_entry \<Rightarrow> string \<Rightarrow> string" where
  "sink_render se (Stdout_sink s) e text = stdout_text se s (e_level e) text"
| "sink_render se (File_sink s) e text = time_text se e @ log_level_to_lower_str (e_level e) @ '': '' @ text"
| "sink_render se (Json_sink s) e text = json_line se e (concat (map esc text))"
| "sink_render se Null_sink e text = []"

text \<open>
  The messages the contract covers: those whose text fits the buffers, and for a buffering
  standard output those whose length is estimated right.
\<close>

fun sink_accepts :: "sink_env \<Rightarrow> sink \<Rightarrow> log_entry \<Rightarrow> string \<Rightarrow> bool" where
  "sink_accepts se (Stdout_sink s) e text \<longleftrightarrow>
     length (stdout_text se s (e_level e) text) \<le> kStdoutCapacity \<and>
     (so_buffering s \<longrightarrow> length (stdout_text se s (e_level e) text) \<le> estimate_length se s (e_level e) (length text))"
| "sink_accepts se (File_sink s) e text \<longleftrightarrow> length (time_text se e) < 32 \<and>
     length (time_text se e) + level_len (e_level e) + 2 + length text \<le> kFileCapacity"
| "sink_accepts se (Json_sink s) e text \<longleftrightarrow> length (json_line se e (concat (map esc text))) \<le> kMaxJsonLineSize"
| "sink_accepts se Null_sink e text = True"

subsection \<open>Lemmas\<close>

lemma write_parts_eq:
  "p \<le> length block \<Longrightarrow> write_parts block p xs =
     do { b \<leftarrow> memcpy block p (concat xs); Some (b, p + length (concat xs)) }"
proof (induction xs arbitrary: block p)
  case Nil
  then show ?case by (simp add: memcpy_def)
next
  case (Cons x xs)
  show ?case
  proof (cases "memcpy block p x")
    case None
    then show ?thesis by (simp add: memcpy_append)
  next
    case (Some b)
    then have "p + length x \<le> length b" by (auto simp: memcpy_def split: if_splits)
    then show ?thesis using Some Cons.IH [of "p + length x" b] by (simp add: memcpy_append add.assoc)
  qed
qed

lemma write_parts_append:
  "write_parts block p (xs @ ys) = do { (b, q) \<leftarrow> write_parts block p xs; write_parts b q ys }"
  by (induction xs arbitrary: block p) (auto simp: )

lemma build_message_eq:
  assumes "out \<le> length block" "n \<le> length content"
  shows "build_message se s block out level content n =
     do { b \<leftarrow> memcpy block out (stdout_text se s level (take n content));
          Some (b, length (stdout_text se s level (take n content))) }"
proof -
  let ?t = "take n content"
  let ?pre = "if is_color_enabled se s then [ansi ''1'', log_level_to_ansi_color level] else []"
  let ?post = "if is_color_enabled se s then [ansi ''0''] else []"
  let ?parts = "(if level = kRaw then [] else ?pre @ [log_level_to_lower_str level] @ ?post @ ['': '']) @ [?t]"
  obtain P where P: "P = ?parts" by blast
  have "build_message se s block out level content n =
      do { (b, p) \<leftarrow> write_parts block out P; Some (b, p - out) }"
    using assms(2)
    by (simp add: P build_message_def mem_read_def write_parts_append case_prod_beta)
  moreover have "concat P = stdout_text se s level ?t" by (simp add: P stdout_text_def)
  ultimately show ?thesis using write_parts_eq [OF assms(1), of P] by (simp add: case_prod_beta)
qed

lemma memcpy_extend:
  "k + length r \<le> length buf \<Longrightarrow> \<exists>b. memcpy buf k r = Some b \<and> length b = length buf \<and>
     take (k + length r) b = take k buf @ r"
  by (simp add: memcpy_def)

lemma stdout_direct_ok:
  assumes "n \<le> length content" "length (stdout_text se s level (take n content)) \<le> kStdoutCapacity"
  shows "stdout_write_direct se s level content n =
           Some (s\<lparr>so_writes := so_writes s @ [stdout_text se s level (take n content)]\<rparr>)"
  using assms by (simp add: stdout_write_direct_def build_message_eq memcpy_def mem_read_def)

lemma stdout_flush_ok:
  assumes "sink_inv (Stdout_sink s)" "so_buffering s"
  shows "stdout_flush s = Some (s\<lparr>so_writes := so_writes s @ chunk (take (so_cursor s) (so_buffer s)), so_cursor := 0\<rparr>)"
  using assms by (cases s) (auto simp: stdout_flush_def mem_read_def chunk_def kStdoutCapacity_def)

lemma stdout_text_cong:
  "so_mode s' = so_mode s \<Longrightarrow> stdout_text se s' = stdout_text se s"
  "so_mode s' = so_mode s \<Longrightarrow> estimate_length se s' = estimate_length se s"
  by (auto simp: fun_eq_iff stdout_text_def estimate_length_def is_color_enabled_def)

lemma stdout_store_ok:
  assumes "sink_inv (Stdout_sink s)" "so_buffering s" "n \<le> length content"
    "so_cursor s + length (stdout_text se s level (take n content)) \<le> kStdoutCapacity"
  shows "\<exists>buf. build_message se s (so_buffer s) (so_cursor s) level content n =
      Some (buf, length (stdout_text se s level (take n content))) \<and> length buf = kStdoutCapacity \<and>
      take (so_cursor s + length (stdout_text se s level (take n content))) buf =
        take (so_cursor s) (so_buffer s) @ stdout_text se s level (take n content)"
  using assms by (simp add: build_message_eq memcpy_def)

lemma stdout_on_log_buffered:
  assumes inv: "sink_inv (Stdout_sink s)" and bf: "so_buffering s" and n: "n \<le> length content"
    and T: "stdout_text se s (e_level e) (take n content) = T"
    and est: "length T \<le> estimate_length se s (e_level e) n" "length T \<le> kStdoutCapacity"
  shows "\<exists>s'. stdout_on_log se s e content n = Some s' \<and> sink_inv (Stdout_sink s') \<and>
           so_mode s' = so_mode s \<and> so_buffering s' \<and>
           sink_out (Stdout_sink s') = sink_out (Stdout_sink s) @ T"
proof -
  let ?est = "estimate_length se s (e_level e) n"
  let ?f = "s\<lparr>so_writes := so_writes s @ chunk (take (so_cursor s) (so_buffer s)), so_cursor := 0\<rparr>"
  have f: "sink_inv (Stdout_sink ?f)" "stdout_text se ?f (e_level e) (take n content) = T"
    using inv T stdout_text_cong(1) [of ?f s se] by simp_all
  note fl = stdout_flush_ok [OF inv bf]
  have i: "length (so_buffer s) = kStdoutCapacity" using inv bf by simp
  consider (direct) "?est > kStdoutCapacity"
    | (flushed) "?est \<le> kStdoutCapacity" "so_cursor s + ?est > kStdoutCapacity"
    | (room) "so_cursor s + ?est \<le> kStdoutCapacity" by linarith
  then show ?thesis
  proof cases
    case direct
    have "stdout_write_direct se ?f (e_level e) content n = Some (?f\<lparr>so_writes := so_writes ?f @ [T]\<rparr>)"
      using stdout_direct_ok [OF n, of se ?f "e_level e"] f(2) est(2) by simp
    then have "stdout_on_log se s e content n = Some (?f\<lparr>so_writes := so_writes ?f @ [T]\<rparr>)"
      using bf direct fl by (simp add: stdout_on_log_def Let_def)
    then show ?thesis using bf i by simp
  next
    case flushed
    obtain buf where "build_message se ?f (so_buffer s) 0 (e_level e) content n = Some (buf, length T)"
      "length buf = kStdoutCapacity" "take (length T) buf = T"
      using stdout_store_ok [OF f(1) _ n, of se "e_level e"] bf f(2) est(2) by auto
    moreover from this have "stdout_on_log se s e content n = Some (?f\<lparr>so_buffer := buf, so_cursor := length T\<rparr>)"
      using bf flushed fl by (simp add: stdout_on_log_def Let_def)
    ultimately show ?thesis using bf est(2) by simp
  next
    case room
    obtain buf where "build_message se s (so_buffer s) (so_cursor s) (e_level e) content n = Some (buf, length T)"
      "length buf = kStdoutCapacity" "take (so_cursor s + length T) buf = take (so_cursor s) (so_buffer s) @ T"
      using stdout_store_ok [OF inv bf n, of se "e_level e"] T est(1) room by auto
    moreover from this have "stdout_on_log se s e content n =
        Some (s\<lparr>so_buffer := buf, so_cursor := so_cursor s + length T\<rparr>)"
      using bf room by (simp add: stdout_on_log_def Let_def)
    ultimately show ?thesis using bf room est(1) by simp
  qed
qed

lemma stdout_on_log_ok:
  assumes inv: "sink_inv (Stdout_sink s)" and n: "n \<le> length content"
    and acc: "sink_accepts se (Stdout_sink s) e (take n content)"
  shows "\<exists>s'. stdout_on_log se s e content n = Some s' \<and> sink_inv (Stdout_sink s') \<and>
           so_mode s' = so_mode s \<and> so_buffering s' = so_buffering s \<and>
           sink_out (Stdout_sink s') = sink_out (Stdout_sink s) @ stdout_text se s (e_level e) (take n content)"
proof (cases "so_buffering s")
  case False
  then show ?thesis using stdout_direct_ok [OF n, of se s "e_level e"] acc
    by (simp add: stdout_on_log_def)
next
  case True
  then show ?thesis using stdout_on_log_buffered [OF inv True n refl] acc n by simp
qed

lemma format_timestamp_ok:
  assumes "length (time_text se e) < 32"
  shows "\<exists>buf. format_timestamp se (e_timestamp_ns e) (replicate 32 (CHR 0x00)) = (buf, length (time_text se e)) \<and>
           mem_read buf 0 (length (time_text se e)) = Some (time_text se e)"
  using assms by (simp add: format_timestamp_def Let_def time_text_def mem_read_def)

lemma file_flush_ok:
  assumes "sink_inv (File_sink s)"
  shows "file_flush s = Some (s\<lparr>fs_writes := fs_writes s @ chunk (take (fs_cursor s) (fs_buffer s)), fs_cursor := 0\<rparr>)"
  using assms by (cases s) (auto simp: file_flush_def mem_read_def chunk_def kFileCapacity_def)

lemma file_store_ok:
  assumes "length (fs_buffer u) = kFileCapacity" "fs_cursor u + length R \<le> kFileCapacity" "concat P = R"
  shows "\<exists>buf. write_parts (fs_buffer u) (fs_cursor u) P = Some (buf, fs_cursor u + length R) \<and>
      length buf = kFileCapacity \<and> take (fs_cursor u + length R) buf = take (fs_cursor u) (fs_buffer u) @ R"
proof -
  have "fs_cursor u + length R \<le> length (fs_buffer u)" using assms(1,2) by simp
  from memcpy_extend [OF this] show ?thesis using assms write_parts_eq [of "fs_cursor u" "fs_buffer u" P] by auto
qed

lemma file_on_log_ok:
  assumes inv: "sink_inv (File_sink s)" and n: "n \<le> length content"
    and acc: "sink_accepts se (File_sink s) e (take n content)"
  shows "\<exists>s'. file_on_log se s e content n = Some s' \<and> sink_inv (File_sink s') \<and>
           sink_out (File_sink s') = sink_out (File_sink s) @ sink_render se (File_sink s) e (take n content)"
proof -
  let ?ts = "time_text se e" and ?lv = "log_level_to_lower_str (e_level e)" and ?t = "take n content"
  obtain R where R: "R = ?ts @ ?lv @ '': '' @ ?t" by blast
  obtain P where P: "P = [?ts, ?lv, '': '', ?t]" by blast
  have PR: "concat P = R" by (simp add: P R)
  have tot: "length ?ts + level_len (e_level e) + 2 + n = length R" using n by (simp add: R level_len_def)
  have r: "length R \<le> kFileCapacity" using acc n tot by simp
  obtain tb where tb: "format_timestamp se (e_timestamp_ns e) (replicate 32 (CHR 0x00)) = (tb, length ?ts)"
    "mem_read tb 0 (length ?ts) = Some ?ts" using format_timestamp_ok acc by auto
  have rd: "mem_read content 0 n = Some ?t" using n by (simp add: mem_read_def)
  have on: "file_on_log se s e content n = do {
      u \<leftarrow> (if fs_cursor s + length R > kFileCapacity then file_flush s else Some s);
      (buf, cursor) \<leftarrow> write_parts (fs_buffer u) (fs_cursor u) P;
      Some (u\<lparr>fs_buffer := buf, fs_cursor := cursor\<rparr>) }"
    unfolding file_on_log_def Let_def tb(1) prod.case tot tb(2) rd bind.bind_lunit P [symmetric]
    using r by simp
  have i: "length (fs_buffer s) = kFileCapacity" "fs_open s" using inv by simp_all
  show ?thesis
  proof (cases "fs_cursor s + length R > kFileCapacity")
    case True
    let ?f = "s\<lparr>fs_writes := fs_writes s @ chunk (take (fs_cursor s) (fs_buffer s)), fs_cursor := 0\<rparr>"
    obtain buf where "write_parts (fs_buffer s) 0 P = Some (buf, length R)"
      "length buf = kFileCapacity" "take (length R) buf = R"
      using file_store_ok [of ?f R P] i r PR by auto
    then show ?thesis using True file_flush_ok [OF inv] i r unfolding on by (simp add: R)
  next
    case False
    then obtain buf where "write_parts (fs_buffer s) (fs_cursor s) P = Some (buf, fs_cursor s + length R)"
      "length buf = kFileCapacity" "take (fs_cursor s + length R) buf = take (fs_cursor s) (fs_buffer s) @ R"
      using file_store_ok [of s R P] i PR by auto
    then show ?thesis using False i unfolding on by (simp add: R)
  qed
qed

lemma json_flush_ok:
  assumes "sink_inv (Json_sink s)" "js_buffering s"
  shows "json_flush s = Some (s\<lparr>js_writes := js_writes s @ chunk (take (js_cursor s) (js_buffer s)), js_cursor := 0\<rparr>)"
  using assms by (cases s) (auto simp: json_flush_def mem_read_def chunk_def kJsonCapacity_def)

lemma json_on_log_ok:
  assumes inv: "sink_inv (Json_sink s)" and n: "n \<le> length content"
    and acc: "sink_accepts se (Json_sink s) e (take n content)"
  shows "\<exists>s'. json_on_log se s e content n = Some s' \<and> sink_inv (Json_sink s') \<and> js_buffering s' = js_buffering s \<and>
           sink_out (Json_sink s') = sink_out (Json_sink s) @ sink_render se (Json_sink s) e (take n content)"
proof -
  let ?r = "json_line se e (concat (map esc (take n content)))"
  let ?line = "take kMaxJsonLineSize ?r @ replicate (kMaxJsonLineSize - length ?r) (CHR 0x00)"
  have len: "length ?r \<le> kMaxJsonLineSize" "length ?r \<le> kJsonCapacity"
    using acc by (simp_all add: kMaxJsonLineSize_def kJsonCapacity_def)
  have rd: "mem_read ?line 0 (length ?r) = Some ?r" using len(1) by (simp add: mem_read_def)
  have on: "json_on_log se s e content n =
      (if \<not> js_buffering s then json_write_raw s ?line (length ?r)
       else do {
         u \<leftarrow> (if js_cursor s + length ?r > kJsonCapacity then json_flush s else Some s);
         buf \<leftarrow> memcpy (js_buffer u) (js_cursor u) ?r;
         Some (u\<lparr>js_buffer := buf, js_cursor := js_cursor u + length ?r\<rparr>) })"
    using n len rd by (simp add: json_on_log_def mem_read_def encode_escape_eq Let_def)
  show ?thesis
  proof (cases "js_buffering s")
    case False
    then show ?thesis unfolding on using rd inv by (simp add: json_write_raw_def)
  next
    case True
    then show ?thesis unfolding on using json_flush_ok [OF inv True] inv len
      by (cases "js_cursor s + length ?r > kJsonCapacity") (simp_all add: memcpy_def)
  qed
qed

text \<open>A sink only adds calls behind those it has made, always on the same descriptor.\<close>

definition extends_calls :: "sink \<Rightarrow> sink \<Rightarrow> bool" where
  "extends_calls s s' \<longleftrightarrow> sink_fd s' = sink_fd s \<and> prefix (sink_writes s) (sink_writes s')"

lemma flush_extends:
  "stdout_flush s = Some s' \<Longrightarrow> prefix (so_writes s) (so_writes s')"
  "file_flush f = Some f' \<Longrightarrow> fs_fd f' = fs_fd f \<and> prefix (fs_writes f) (fs_writes f')"
  "json_flush j = Some j' \<Longrightarrow> js_fd j' = js_fd j \<and> prefix (js_writes j) (js_writes j')"
  by (auto simp: stdout_flush_def file_flush_def json_flush_def split: if_splits bind_splits)

lemma direct_extends:
  "stdout_write_direct se s l c n = Some s' \<Longrightarrow> prefix (so_writes s) (so_writes s')"
  "file_write_direct f ps = Some f' \<Longrightarrow> fs_fd f' = fs_fd f \<and> prefix (fs_writes f) (fs_writes f')"
  "json_write_raw j b n = Some j' \<Longrightarrow> js_fd j' = js_fd j \<and> prefix (js_writes j) (js_writes j')"
  by (auto simp: stdout_write_direct_def file_write_direct_def json_write_raw_def split: if_splits bind_splits)

lemma on_log_extends:
  assumes "sink_on_log se s e c n = Some s'"
  shows "extends_calls s s'"
proof (cases s)
  case (Stdout_sink t)
  then obtain t' where t: "stdout_on_log se t e c n = Some t'" "s' = Stdout_sink t'" using assms by auto
  have "prefix (so_writes t) (so_writes t')" using t(1)
    by (auto simp: stdout_on_log_def Let_def split: if_splits bind_splits
        dest!: flush_extends(1) direct_extends(1) intro: prefix_order.trans)
  then show ?thesis using t Stdout_sink by (simp add: extends_calls_def)
next
  case (File_sink t)
  then obtain t' where t: "file_on_log se t e c n = Some t'" "s' = File_sink t'" using assms by auto
  have "fs_fd t' = fs_fd t \<and> prefix (fs_writes t) (fs_writes t')" using t(1)
    by (auto simp: file_on_log_def Let_def split: if_splits bind_splits prod.splits
        dest!: flush_extends(2) direct_extends(2) intro: prefix_order.trans)
  then show ?thesis using t File_sink by (simp add: extends_calls_def)
next
  case (Json_sink t)
  then obtain t' where t: "json_on_log se t e c n = Some t'" "s' = Json_sink t'" using assms by auto
  have "js_fd t' = js_fd t \<and> prefix (js_writes t) (js_writes t')" using t(1)
    by (auto simp: json_on_log_def Let_def split: if_splits bind_splits
        dest!: flush_extends(3) direct_extends(3) intro: prefix_order.trans)
  then show ?thesis using t Json_sink by (simp add: extends_calls_def)
next
  case Null_sink
  then show ?thesis using assms by (simp add: extends_calls_def)
qed

lemma destroy_extends: "sink_destroy s = Some s' \<Longrightarrow> extends_calls s s'"
  by (cases s) (auto simp: extends_calls_def dest: flush_extends split: if_splits)

lemma sink_on_log_ok:
  assumes inv: "sink_inv s" and n: "n \<le> length content" and acc: "sink_accepts se s e (take n content)"
  shows "\<exists>s'. sink_on_log se s e content n = Some s' \<and> sink_inv s' \<and> sink_render se s' = sink_render se s \<and>
           sink_accepts se s' = sink_accepts se s \<and> sink_out s' = sink_out s @ sink_render se s e (take n content)"
proof (cases s)
  case (Stdout_sink t)
  from stdout_on_log_ok [of t n content se e] inv n acc Stdout_sink obtain t' where
    "stdout_on_log se t e content n = Some t'" "sink_inv (Stdout_sink t')" "so_mode t' = so_mode t"
    "so_buffering t' = so_buffering t" "sink_out (Stdout_sink t') = sink_out s @ sink_render se s e (take n content)"
    by auto
  then show ?thesis using Stdout_sink
    by (intro exI [of _ "Stdout_sink t'"]) (simp add: fun_eq_iff stdout_text_cong [of t' t])
next
  case (File_sink t)
  from file_on_log_ok [of t n content se e] inv n acc File_sink obtain t' where
    "file_on_log se t e content n = Some t'" "sink_inv (File_sink t')"
    "sink_out (File_sink t') = sink_out s @ sink_render se s e (take n content)" by auto
  then show ?thesis using File_sink by (intro exI [of _ "File_sink t'"]) (simp add: fun_eq_iff)
next
  case (Json_sink t)
  from json_on_log_ok [of t n content se e] inv n acc Json_sink obtain t' where
    "json_on_log se t e content n = Some t'" "sink_inv (Json_sink t')"
    "sink_out (Json_sink t') = sink_out s @ sink_render se s e (take n content)" by auto
  then show ?thesis using Json_sink by (intro exI [of _ "Json_sink t'"]) (simp add: fun_eq_iff)
qed simp

interpretation sinks: log_sink "sink_on_log se" sink_inv sink_out "sink_render se" "sink_accepts se" sink_fd for se
  by unfold_locales (use sink_on_log_ok on_log_extends in \<open>fastforce simp: extends_calls_def\<close>)

text \<open>A sequence of messages, each at the start of a block, and the destruction of the sink.\<close>

fun sink_session :: "sink_env \<Rightarrow> sink \<Rightarrow> (log_entry \<times> byte list \<times> nat) list \<Rightarrow> sink option" where
  "sink_session se s [] = sink_destroy s"
| "sink_session se s ((e, content, n) # ms) = do { s' \<leftarrow> sink_on_log se s e content n; sink_session se s' ms }"

lemma sink_destroy_ok: "sink_inv s \<Longrightarrow> \<exists>s'. sink_destroy s = Some s' \<and> sink_written s' = sink_out s"
  by (cases s) (auto simp: stdout_flush_ok file_flush_ok json_flush_ok)

lemma sink_session_ok:
  assumes "sink_inv s" "list_all (\<lambda>(e, content, n). n \<le> length content \<and> sink_accepts se s e (take n content)) ms"
  shows "\<exists>s'. sink_session se s ms = Some s' \<and>
     sink_written s' = sink_out s @ concat (map (\<lambda>(e, content, n). sink_render se s e (take n content)) ms)"
  using assms
proof (induction ms arbitrary: s)
  case Nil
  then show ?case using sink_destroy_ok [of s] by simp
next
  case (Cons m ms)
  obtain e content n where m: "m = (e, content, n)" by (cases m)
  have pre: "n \<le> length content" "sink_accepts se s e (take n content)" using Cons.prems(2) m by simp_all
  from sinks.on_log_ok [OF Cons.prems(1) pre] obtain s1 where s1:
    "sink_on_log se s e content n = Some s1" "sink_inv s1" "sink_render se s1 = sink_render se s"
    "sink_accepts se s1 = sink_accepts se s" "sink_out s1 = sink_out s @ sink_render se s e (take n content)" by blast
  from Cons.IH [OF s1(2)] Cons.prems(2) s1(3-5) m show ?case using s1(1) by auto
qed

subsection \<open>A length beyond the block\<close>

text \<open>Every sink that looks at the message reads as many characters as it is told there are.\<close>

fun reads_text :: "sink \<Rightarrow> bool" where
  "reads_text (Stdout_sink s) = True"
| "reads_text (File_sink s) = fs_open s"
| "reads_text (Json_sink s) = True"
| "reads_text Null_sink = False"

lemma build_message_short: "length content < n \<Longrightarrow> build_message se s block out level content n = None"
  by (auto simp: build_message_def mem_read_def split: bind_splits)

lemma stdout_short: "length content < n \<Longrightarrow> stdout_on_log se s e content n = None"
  by (auto simp: stdout_on_log_def stdout_write_direct_def build_message_short Let_def split: bind_splits)

lemma file_short: "fs_open s \<Longrightarrow> length content < n \<Longrightarrow> file_on_log se s e content n = None"
  by (auto simp: file_on_log_def file_write_direct_def file_flush_def mem_read_def Let_def split: bind_splits prod.splits)

lemma json_short: "length content < n \<Longrightarrow> json_on_log se s e content n = None"
  by (simp add: json_on_log_def mem_read_def)

lemma short_content_None:
  "reads_text s \<Longrightarrow> length content < n \<Longrightarrow> sink_on_log se s e content n = None"
  by (cases s) (simp_all add: stdout_short file_short json_short)

subsection \<open>Properties\<close>

text \<open>C8: Buffering does not change what a sink writes. For every sink and every sequence of
  messages its contract covers, no call is undefined, and when the sink is destroyed it has
  handed to the operating system exactly the rendered messages, in order, behind what it held
  before.\<close>

theorem sink_stream:
  assumes "sink_inv s"
    and "list_all (\<lambda>(e, content, n). n \<le> length content \<and> sink_accepts se s e (take n content)) ms"
  shows "\<exists>s'. sink_session se s ms = Some s' \<and>
     sink_written s' = sink_out s @ concat (map (\<lambda>(e, content, n). sink_render se s e (take n content)) ms)"
  using assms by (rule sink_session_ok)

theorem sink_stream_witness:
  "let se = \<lparr>se_tty = False, se_time = (\<lambda>_ _. ''[t] ''), se_dec = (\<lambda>_. ''0'')\<rparr>;
       e = \<lparr>e_payload_len = 2, e_format_id = 0, e_thread_id = 1, e_timestamp_ns = 5, e_level = kWarn\<rparr>
   in \<exists>s'. sink_session se (File_sink (file_new 3)) [(e, ''hi..'', 2), (e, ''yo'', 1)] = Some s' \<and>
        sink_written s' = ''[t] warn: hi[t] warn: y''"
proof -
  let ?se = "\<lparr>se_tty = False, se_time = (\<lambda>_ _. ''[t] ''), se_dec = (\<lambda>_. ''0'')\<rparr>"
  let ?e = "\<lparr>e_payload_len = 2, e_format_id = 0, e_thread_id = 1, e_timestamp_ns = 5, e_level = kWarn\<rparr>"
  have a: "list_all (\<lambda>(e, content, n). n \<le> length content \<and>
      sink_accepts ?se (File_sink (file_new 3)) e (take n content)) [(?e, ''hi..'', 2), (?e, ''yo'', 1)]"
    by (simp add: time_text_def level_len_def kFileCapacity_def)
  have i: "sink_inv (File_sink (file_new 3))" by (simp add: file_new_def)
  from sink_stream [OF i a] show ?thesis
    by (simp add: Let_def file_new_def time_text_def)
qed

text \<open>C34: The length estimate of the buffering \<^verbatim>\<open>StdoutSink\<close> is one less than the message it builds
  when colours are on and the level has a two-digit colour. A message that fills the buffer by
  the estimate is written one byte past its end.\<close>

theorem stdout_estimate_overrun:
  assumes "is_color_enabled se s" "e_level e \<notin> {kRaw, kUnknownLevel}" "n \<le> length content"
  shows "length (stdout_text se s (e_level e) (take n content)) = estimate_length se s (e_level e) n + 1 \<and>
     (sink_inv (Stdout_sink s) \<and> so_buffering s \<and>
      so_cursor s + estimate_length se s (e_level e) n = kStdoutCapacity \<longrightarrow>
      stdout_on_log se s e content n = None)"
proof -
  have l: "length (stdout_text se s (e_level e) (take n content)) = estimate_length se s (e_level e) n + 1"
    using assms by (cases "e_level e") (simp_all add: stdout_text_def estimate_length_def ansi_def level_len_def)
  have "stdout_on_log se s e content n = None"
    if "sink_inv (Stdout_sink s)" "so_buffering s"
       "so_cursor s + estimate_length se s (e_level e) n = kStdoutCapacity"
  proof -
    have "memcpy (so_buffer s) (so_cursor s) (stdout_text se s (e_level e) (take n content)) = None"
      using that l by (simp add: memcpy_None)
    moreover have "so_cursor s \<le> length (so_buffer s)" using that by simp
    ultimately have "build_message se s (so_buffer s) (so_cursor s) (e_level e) content n = None"
      using assms(3) by (simp add: build_message_eq)
    then show ?thesis using that by (simp add: stdout_on_log_def Let_def)
  qed
  then show ?thesis using l by blast
qed

theorem stdout_estimate_overrun_witness:
  "let se = \<lparr>se_tty = True, se_time = (\<lambda>_ _. []), se_dec = (\<lambda>_. [])\<rparr>;
       e = \<lparr>e_payload_len = 0, e_format_id = 0, e_thread_id = 1, e_timestamp_ns = 5, e_level = kInfo\<rparr>;
       s = (stdout_new True Color_kAlways)\<lparr>so_cursor := 4078\<rparr>
   in stdout_on_log se s e [] 0 = None"
proof -
  let ?se = "\<lparr>se_tty = True, se_time = (\<lambda>_ _. []), se_dec = (\<lambda>_. [])\<rparr>"
  let ?e = "\<lparr>e_payload_len = 0, e_format_id = 0, e_thread_id = 1, e_timestamp_ns = 5, e_level = kInfo\<rparr>"
  let ?s = "(stdout_new True Color_kAlways)\<lparr>so_cursor := 4078\<rparr>"
  have c: "is_color_enabled ?se ?s" by (simp add: is_color_enabled_def stdout_new_def)
  have "sink_inv (Stdout_sink ?s) \<and> so_buffering ?s \<and>
      so_cursor ?s + estimate_length ?se ?s (e_level ?e) 0 = kStdoutCapacity"
    using c by (simp add: stdout_new_def kStdoutCapacity_def estimate_length_def level_len_def)
  then show ?thesis using stdout_estimate_overrun [OF c, of ?e 0 "[]"] by simp
qed

text \<open>C35: A \<^verbatim>\<open>FileSink\<close> whose file could not be opened keeps buffering but never empties its buffer:
  the first message that does not fit behind what is buffered is copied past the end of the
  buffer, while a message longer than the buffer is dropped without a trace. With an open file,
  a message longer than the buffer overruns the array of three \<^verbatim>\<open>iovec\<close>s that receives four.\<close>

theorem file_sink_overruns:
  assumes "length (fs_buffer s) = kFileCapacity" "fs_cursor s \<le> kFileCapacity" "n \<le> length content"
    and "length (time_text se e) < 32"
    and "tot = length (time_text se e) + level_len (e_level e) + 2 + n"
  shows "(\<not> fs_open s \<and> tot \<le> kFileCapacity \<and> kFileCapacity < fs_cursor s + tot \<longrightarrow>
            file_on_log se s e content n = None) \<and>
         (\<not> fs_open s \<and> kFileCapacity < tot \<longrightarrow> file_on_log se s e content n = Some s) \<and>
         (fs_open s \<and> kFileCapacity < tot \<longrightarrow> file_on_log se s e content n = None)"
proof -
  let ?ts = "time_text se e" and ?lv = "log_level_to_lower_str (e_level e)" and ?t = "take n content"
  obtain tb where tb: "format_timestamp se (e_timestamp_ns e) (replicate 32 (CHR 0x00)) = (tb, length ?ts)"
    "mem_read tb 0 (length ?ts) = Some ?ts" using format_timestamp_ok assms(4) by blast
  have rd: "mem_read content 0 n = Some ?t" using assms(3) by (simp add: mem_read_def)
  obtain P where P: "P = [?ts, ?lv, '': '', ?t]" by blast
  obtain V where V: "V = [(tb, length ?ts), (?lv, level_len (e_level e)), ('': '', 2), (content, n)]" by blast
  have len: "length (concat P) = tot" using assms(3,5) by (simp add: P level_len_def)
  have on: "file_on_log se s e content n = do {
      u \<leftarrow> (if fs_cursor s + tot > kFileCapacity then file_flush s else Some s);
      if tot > kFileCapacity then file_write_direct u V
      else do { (buf, cursor) \<leftarrow> write_parts (fs_buffer u) (fs_cursor u) P;
                Some (u\<lparr>fs_buffer := buf, fs_cursor := cursor\<rparr>) } }"
    unfolding file_on_log_def Let_def tb(1) prod.case assms(5) tb(2) rd bind.bind_lunit P V by simp
  have iov: "fill_iov 3 [] 0 V = None" by (simp add: V)
  have cl: "file_flush s = Some s" if "\<not> fs_open s" using that by (simp add: file_flush_def)
  have "file_on_log se s e content n = None"
    if "\<not> fs_open s" "tot \<le> kFileCapacity" "kFileCapacity < fs_cursor s + tot"
    unfolding on using that cl len assms(1,2) write_parts_eq [of "fs_cursor s" "fs_buffer s" P]
    by (simp add: memcpy_None)
  moreover have "file_on_log se s e content n = Some s" if "\<not> fs_open s" "kFileCapacity < tot"
    unfolding on using that cl by (simp add: file_write_direct_def)
  moreover have "file_on_log se s e content n = None" if o: "fs_open s" "kFileCapacity < tot"
    unfolding on using o iov file_flush_ok [of s] assms(1,2) by (simp add: file_write_direct_def)
  ultimately show ?thesis by blast
qed

theorem file_sink_overruns_witness:
  "let se = \<lparr>se_tty = False, se_time = (\<lambda>_ _. ''[t] ''), se_dec = (\<lambda>_. ''0'')\<rparr>;
       e = \<lparr>e_payload_len = 2, e_format_id = 0, e_thread_id = 1, e_timestamp_ns = 5, e_level = kWarn\<rparr>
   in file_on_log se ((file_new (-1))\<lparr>fs_cursor := 4090\<rparr>) e ''hi'' 2 = None"
proof -
  let ?se = "\<lparr>se_tty = False, se_time = (\<lambda>_ _. ''[t] ''), se_dec = (\<lambda>_. ''0'')\<rparr>"
  let ?e = "\<lparr>e_payload_len = 2, e_format_id = 0, e_thread_id = 1, e_timestamp_ns = 5, e_level = kWarn\<rparr>"
  have t: "time_text ?se ?e = ''[t] ''" by (simp add: time_text_def)
  have c: "length (fs_buffer ((file_new (-1))\<lparr>fs_cursor := 4090\<rparr>)) = kFileCapacity"
    "fs_cursor ((file_new (-1))\<lparr>fs_cursor := 4090\<rparr>) \<le> kFileCapacity"
    "\<not> fs_open ((file_new (-1))\<lparr>fs_cursor := 4090\<rparr>)"
    by (simp_all add: file_new_def kFileCapacity_def)
  show ?thesis
    using file_sink_overruns [OF c(1,2), of 2 "''hi''" ?se ?e 12] c(3)
    by (simp add: t level_len_def kFileCapacity_def file_new_def)
qed



end
