(* ===== verification/File_Path.thy ===== *)
theory File_Path
  imports Prelude
begin

unbundle bit_operations_syntax

text \<open>
  The pure part of \<^verbatim>\<open>src/src/core/base/file_util.cc\<close> and its header: the functions that take paths
  apart and put them together, and the two versions of \<^verbatim>\<open>read_lines\<close>, the scalar one and the one
  that finds the line breaks 32 bytes at a time. The Unix values of the separators are used.
\<close>

definition FEMTOLOG_DIR_SEPARATOR :: char where
  "FEMTOLOG_DIR_SEPARATOR = CHR ''/''"

definition FEMTOLOG_PATH_SEPARATOR :: char where
  "FEMTOLOG_PATH_SEPARATOR = CHR '':''"

text \<open>\<^verbatim>\<open>std::string::find_last_of\<close> of one character; the text behind a \<^verbatim>\<open>const char*\<close>.\<close>

fun find_last_of :: "char \<Rightarrow> string \<Rightarrow> nat option" where
  "find_last_of c [] = None"
| "find_last_of c (x # xs) =
     (case find_last_of c xs of Some k \<Rightarrow> Some (Suc k) | None \<Rightarrow> if x = c then Some 0 else None)"

fun find_char :: "char \<Rightarrow> string \<Rightarrow> nat option" where
  "find_char c [] = None"
| "find_char c (x # xs) = (if x = c then Some 0 else map_option Suc (find_char c xs))"

definition c_string :: "string \<Rightarrow> string" where
  "c_string s = takeWhile (\<lambda>c. c \<noteq> CHR 0x00) s"

subsection \<open>Paths\<close>

definition parent_dir :: "string \<Rightarrow> string" where
  "parent_dir path =
     (case find_last_of FEMTOLOG_DIR_SEPARATOR path of None \<Rightarrow> [] | Some pos \<Rightarrow> take pos path)"

definition base_name :: "string \<Rightarrow> string" where
  "base_name path =
     (case find_last_of FEMTOLOG_DIR_SEPARATOR path of None \<Rightarrow> [] | Some pos \<Rightarrow> drop (pos + 1) path)"

definition file_extension :: "string \<Rightarrow> string" where
  "file_extension path =
     (let last_slash = find_last_of FEMTOLOG_DIR_SEPARATOR path;
          last_dot = find_last_of (CHR ''.'') path
      in case last_dot of
           None \<Rightarrow> []
         | Some dot \<Rightarrow>
             if (case last_slash of None \<Rightarrow> False | Some sl \<Rightarrow> dot < sl) then []
             else if dot = 0 \<or> (case last_slash of None \<Rightarrow> False | Some sl \<Rightarrow> dot = sl + 1) then []
             else drop (dot + 1) path)"

definition file_name_without_extension :: "string \<Rightarrow> string" where
  "file_name_without_extension path =
     (let last_slash = find_last_of FEMTOLOG_DIR_SEPARATOR path;
          last_dot = find_last_of (CHR ''.'') path;
          filename_part = (case last_slash of None \<Rightarrow> path | Some sl \<Rightarrow> drop (sl + 1) path)
      in case last_dot of
           None \<Rightarrow> filename_part
         | Some dot \<Rightarrow>
             if (case last_slash of None \<Rightarrow> False | Some sl \<Rightarrow> dot < sl) \<or> dot = 0 \<or>
                (case last_slash of None \<Rightarrow> False | Some sl \<Rightarrow> dot = sl + 1)
             then filename_part
             else let relative_dot_pos = (case last_slash of None \<Rightarrow> dot | Some sl \<Rightarrow> dot - (sl + 1))
                  in take relative_dot_pos filename_part)"

definition sanitize_component :: "string \<Rightarrow> bool \<Rightarrow> string" where
  "sanitize_component part is_first =
     (let result = c_string part;
          result = (if \<not> is_first \<and> result \<noteq> [] \<and> hd result = FEMTOLOG_DIR_SEPARATOR
                    then drop 1 result else result)
      in if result \<noteq> [] \<and> last result = FEMTOLOG_DIR_SEPARATOR then butlast result else result)"

fun join_parts :: "string list \<Rightarrow> string \<Rightarrow> bool \<Rightarrow> string" where
  "join_parts [] joined is_first = joined"
| "join_parts (part # parts) joined is_first =
     (let sanitized = sanitize_component part is_first
      in if sanitized \<noteq> []
         then join_parts parts
                ((if \<not> is_first then joined @ [FEMTOLOG_DIR_SEPARATOR] else joined) @ sanitized) False
         else join_parts parts joined is_first)"

definition join_path :: "string list \<Rightarrow> string" where
  "join_path parts = join_parts parts [] True"

subsection \<open>Lines\<close>

abbreviation LF :: char where "LF \<equiv> CHR 0x0A"
abbreviation CR :: char where "CR \<equiv> CHR 0x0D"

text \<open>A line of \<open>n\<close> bytes at the front of \<open>rest\<close>, without a carriage return at its end.\<close>

definition line_at :: "string \<Rightarrow> nat \<Rightarrow> string" where
  "line_at rest n =
     (let line_length = (if 0 < n \<and> rest ! (n - 1) = CR then n - 1 else n) in take line_length rest)"

function default_loop :: "string \<Rightarrow> string list \<Rightarrow> string list" where
  "default_loop current_pos lines =
     (if current_pos = [] then lines
      else let next_newline = find_char LF current_pos;
               line_end = (case next_newline of Some k \<Rightarrow> k | None \<Rightarrow> length current_pos)
           in default_loop (case next_newline of Some k \<Rightarrow> drop (Suc k) current_pos | None \<Rightarrow> [])
                (lines @ [line_at current_pos line_end]))"
  by pat_completeness auto
termination
  by (relation "measure (length \<circ> fst)") (auto split: option.splits)

declare default_loop.simps [simp del]

definition read_lines_default :: "string \<Rightarrow> string list" where
  "read_lines_default content = (if content = [] then [] else default_loop content [])"

text \<open>\<^verbatim>\<open>_mm256_cmpeq_epi8\<close> and \<^verbatim>\<open>_mm256_movemask_epi8\<close>: one bit for each byte equal to a line feed;
  \<^verbatim>\<open>__builtin_ctz\<close> of a non-zero mask.\<close>

definition newline_mask :: "byte list \<Rightarrow> u32" where
  "newline_mask chunk = horner_sum of_bool 2 (map (\<lambda>c. c = LF) chunk)"

fun ctz_from :: "nat \<Rightarrow> nat \<Rightarrow> u32 \<Rightarrow> nat" where
  "ctz_from 0 i m = i"
| "ctz_from (Suc k) i m = (if bit m i then i else ctz_from k (Suc i) m)"

definition ctz :: "u32 \<Rightarrow> nat" where
  "ctz m = ctz_from 32 0 m"

lemma clear_lowest_less: "m \<noteq> 0 \<Longrightarrow> unat (m AND (m - 1)) < unat (m :: u32)"
proof -
  assume m: "m \<noteq> 0"
  have "m AND (m - 1) \<le> m - 1" by (rule word_and_le1)
  then have "unat (m AND (m - 1)) \<le> unat (m - 1)" by (simp add: word_le_nat_alt)
  also have "unat (m - 1) < unat m" using m unat_minus_one [OF m] by (simp add: unat_gt_0)
  finally show ?thesis .
qed

function mask_loop :: "u32 \<Rightarrow> nat \<Rightarrow> nat list \<Rightarrow> nat list" where
  "mask_loop m pos newline_positions =
     (if m = 0 then newline_positions
      else mask_loop (m AND (m - 1)) pos (newline_positions @ [pos + ctz m]))"
  by pat_completeness auto
termination
  by (relation "measure (\<lambda>(m, _, _). unat m)") (auto intro: clear_lowest_less)

declare mask_loop.simps [simp del]

function chunk_loop :: "string \<Rightarrow> nat \<Rightarrow> nat list \<Rightarrow> nat \<times> nat list" where
  "chunk_loop data pos newline_positions =
     (if pos + 32 \<le> length data
      then chunk_loop data (pos + 32)
             (mask_loop (newline_mask (take 32 (drop pos data))) pos newline_positions)
      else (pos, newline_positions))"
  by pat_completeness auto
termination
  by (relation "measure (\<lambda>(data, pos, _). length data - pos)") auto

declare chunk_loop.simps [simp del]

function scalar_loop :: "string \<Rightarrow> nat \<Rightarrow> nat list \<Rightarrow> nat list" where
  "scalar_loop data pos newline_positions =
     (if pos < length data
      then scalar_loop data (pos + 1)
             (if data ! pos = LF then newline_positions @ [pos] else newline_positions)
      else newline_positions)"
  by pat_completeness auto
termination
  by (relation "measure (\<lambda>(data, pos, _). length data - pos)") auto

declare scalar_loop.simps [simp del]

fun position_lines :: "string \<Rightarrow> nat list \<Rightarrow> nat \<Rightarrow> string list \<Rightarrow> nat \<times> string list" where
  "position_lines data [] line_start lines = (line_start, lines)"
| "position_lines data (newline_pos # ps) line_start lines =
     position_lines data ps (newline_pos + 1)
       (lines @ [line_at (drop line_start data) (newline_pos - line_start)])"

definition read_lines_with_avx2 :: "string \<Rightarrow> string list" where
  "read_lines_with_avx2 content =
     (if content = [] then []
      else let (pos, newline_positions) = (if 32 \<le> length content then chunk_loop content 0 [] else (0, []));
               newline_positions = scalar_loop content pos newline_positions;
               (line_start, lines) = position_lines content newline_positions 0 []
           in if line_start < length content
              then lines @ [line_at (drop line_start content) (length content - line_start)]
              else lines)"

definition read_lines :: "bool \<Rightarrow> string \<Rightarrow> string list" where
  "read_lines use_avx2_if_available content =
     (if use_avx2_if_available then read_lines_with_avx2 content else read_lines_default content)"

subsection \<open>The text as lines\<close>

text \<open>The reference: every line feed ends a line, a last line may lack its line feed, and a
  carriage return before a line end is dropped.\<close>

definition chomp :: "string \<Rightarrow> string" where
  "chomp l = (if l \<noteq> [] \<and> last l = CR then butlast l else l)"

fun text_lines :: "string \<Rightarrow> string \<Rightarrow> string list" where
  "text_lines l [] = (if l = [] then [] else [chomp l])"
| "text_lines l (c # cs) = (if c = LF then chomp l # text_lines [] cs else text_lines (l @ [c]) cs)"

subsection \<open>Lemmas on lines\<close>

lemma chomp_plain: "CR \<notin> set l \<Longrightarrow> chomp l = l"
  by (metis chomp_def last_in_set)

lemma line_at_chomp: "n \<le> length rest \<Longrightarrow> line_at rest n = chomp (take n rest)"
proof -
  assume n: "n \<le> length rest"
  have "last (take n rest) = rest ! (n - 1)" if "0 < n"
    using that n by (subst last_conv_nth) (auto simp: min_def)
  then show ?thesis using n
    by (cases "n = 0") (auto simp: line_at_def chomp_def butlast_take)
qed

lemma find_char_None: "find_char c s = None \<longleftrightarrow> c \<notin> set s"
  by (induction s) auto

lemma find_char_Some:
  "find_char c s = Some k \<Longrightarrow> k < length s \<and> s ! k = c \<and> c \<notin> set (take k s)"
  by (induction s arbitrary: k) (auto split: if_splits)

lemma text_lines_find:
  "text_lines l rest =
     (case find_char LF rest of
        None \<Rightarrow> if l @ rest = [] then [] else [chomp (l @ rest)]
      | Some k \<Rightarrow> chomp (l @ take k rest) # text_lines [] (drop (Suc k) rest))"
  by (induction rest arbitrary: l) (auto split: option.splits)

lemma default_loop_eq: "default_loop rest lines = lines @ text_lines [] rest"
proof (induction rest lines rule: default_loop.induct)
  case (1 rest lines)
  show ?case
  proof (cases "rest = []")
    case True
    then show ?thesis by (subst default_loop.simps) simp
  next
    case False
    then show ?thesis using 1 [OF False refl refl] find_char_Some [of LF rest] text_lines_find [of "[]" rest]
      by (subst default_loop.simps) (auto simp: line_at_chomp default_loop.simps [of "[]"] split: option.splits)
  qed
qed

lemma read_lines_default_eq: "read_lines_default content = text_lines [] content"
  by (simp add: read_lines_default_def default_loop_eq)

text \<open>Clearing the lowest set bit of a mask.\<close>

lemma ctz_from_spec:
  assumes "\<exists>j. i \<le> j \<and> j < i + k \<and> bit m j"
  shows "i \<le> ctz_from k i m \<and> ctz_from k i m < i + k \<and> bit m (ctz_from k i m) \<and>
         (\<forall>j. i \<le> j \<and> j < ctz_from k i m \<longrightarrow> \<not> bit m j)"
  using assms
proof (induction k i m rule: ctz_from.induct)
  case (2 k i m)
  show ?case
  proof (cases "bit m i")
    case False
    then have "\<exists>j. Suc i \<le> j \<and> j < Suc i + k \<and> bit m j"
      using "2.prems" by (metis Suc_leI add_Suc add_Suc_right le_neq_implies_less)
    from "2.IH" [OF False this] False show ?thesis
      by (auto simp: Suc_le_eq) (metis le_neq_implies_less)
  qed (auto simp: not_less)
next
  case (1 i m)
  then show ?case by (metis add.right_neutral leD)
qed

lemma ctz_spec:
  assumes "m \<noteq> 0"
  shows "ctz m < 32" "bit m (ctz m)" "j < ctz m \<Longrightarrow> \<not> bit m j"
proof -
  obtain b where "bit m b" using assms by (metis bit_eqI bit_0_eq bot_apply bot_bool_def)
  moreover from this have "b < 32" using bit_imp_le_length [of m b] by simp
  ultimately have "\<exists>b. 0 \<le> b \<and> b < 0 + 32 \<and> bit m b" by auto
  from ctz_from_spec [OF this] show "ctz m < 32" "bit m (ctz m)" "j < ctz m \<Longrightarrow> \<not> bit m j"
    by (auto simp: ctz_def)
qed

lemma bit_nat_pred:
  assumes "bit (n :: nat) c" "\<And>j. j < c \<Longrightarrow> \<not> bit n j"
  shows "bit (n - 1) i \<longleftrightarrow> (if i < c then True else if i = c then False else bit n i)"
proof -
  have "take_bit c n = 0"
    by (rule bit_eqI) (use assms(2) in \<open>simp add: bit_take_bit_iff\<close>)
  then have m: "n mod 2 ^ c = 0" by (simp add: take_bit_eq_mod)
  define q where "q = n div 2 ^ c"
  have n: "n = 2 ^ c * q" using m by (simp add: q_def mult.commute mod_0_imp_dvd)
  have "odd q" using assms(1) by (simp add: bit_iff_odd q_def)
  then obtain r where r: "q = 2 * r + 1" by (auto elim: oddE)
  have p: "n - 1 = 2 ^ c * (2 * r) + (2 ^ c - 1)" unfolding n r by (simp add: algebra_simps)
  have lo: "(2 ^ c - 1) div 2 ^ c = (0 :: nat)" by simp
  have d: "(n - 1) div 2 ^ c = 2 * r" unfolding p by (subst div_mult_self4) (simp_all add: lo)
  show ?thesis
  proof (cases "i < c")
    case True
    then have "bit (2 ^ c - 1 :: nat) i"
      by (metis bit_mask_iff mask_eq_exp_minus_1 possible_bit_nat)
    moreover have "bit (n - 1) i = bit (take_bit c (n - 1)) i" using True by (simp add: bit_take_bit_iff)
    moreover have "take_bit c (n - 1) = 2 ^ c - 1"
      unfolding p take_bit_eq_mod by (subst mod_mult_self4) simp
    ultimately show ?thesis using True by simp
  next
    case False
    then obtain k where i: "i = c + k" by (metis le_add_diff_inverse not_less)
    have "bit (n - 1) i = bit ((n - 1) div 2 ^ c) k" "bit n i = bit q k"
      unfolding i q_def by (simp_all add: bit_iff_odd power_add div_mult2_eq)
    then show ?thesis unfolding d i r by (cases k) (auto simp: bit_0 bit_Suc)
  qed
qed

lemma bit_clear_lowest:
  assumes "(m :: u32) \<noteq> 0"
  shows "bit (m AND (m - 1)) i \<longleftrightarrow> bit m i \<and> i \<noteq> ctz m"
proof -
  have n: "bit (unat m) j = bit m j" for j
    by (auto simp: bit_unsigned_iff dest: bit_imp_le_length)
  have n1: "bit (m - 1) j = bit (unat m - 1) j" for j
    unfolding unat_minus_one [OF assms, symmetric]
    by (auto simp: bit_unsigned_iff dest: bit_imp_le_length)
  show ?thesis
    using ctz_spec [OF assms] bit_nat_pred [of "unat m" "ctz m" i]
    by (auto simp: bit_and_iff n n1)
qed

lemma filter_lowest:
  assumes "o' < n" "P o'" "\<And>j. j < o' \<Longrightarrow> \<not> P j"
  shows "filter P [0..<n] = o' # filter (\<lambda>i. P i \<and> i \<noteq> o') [0..<n]"
proof -
  have "[0..<n] = [0..<o'] @ o' # [Suc o'..<n]"
    using assms(1) upt_add_eq_append [of 0 o' "n - o'"] by (simp add: upt_conv_Cons)
  moreover have "filter P [0..<o'] = []" "filter (\<lambda>i. P i \<and> i \<noteq> o') [0..<o'] = []"
    using assms(3) by (auto simp: filter_empty_conv)
  moreover have "filter (\<lambda>i. P i \<and> i \<noteq> o') [Suc o'..<n] = filter P [Suc o'..<n]"
    by (rule filter_cong) auto
  ultimately show ?thesis using assms(2) by simp
qed

lemma mask_loop_eq: "mask_loop m pos ps = ps @ map ((+) pos) (filter (bit m) [0..<32])"
proof (induction m pos ps rule: mask_loop.induct)
  case (1 m pos ps)
  show ?case
  proof (cases "m = 0")
    case True
    then show ?thesis by (subst mask_loop.simps) simp
  next
    case False
    have "bit (m AND (m - 1)) = (\<lambda>i. bit m i \<and> i \<noteq> ctz m)" using bit_clear_lowest [OF False] by blast
    then have "filter (bit m) [0..<32] = ctz m # filter (bit (m AND (m - 1))) [0..<32]"
      using filter_lowest [of "ctz m" 32 "bit m"] ctz_spec [OF False] by simp
    then show ?thesis using 1 [OF False] False by (subst mask_loop.simps) simp
  qed
qed

lemma bit_newline_mask:
  "length chunk = 32 \<Longrightarrow> i < 32 \<Longrightarrow> bit (newline_mask chunk) i \<longleftrightarrow> chunk ! i = LF"
  by (simp add: newline_mask_def bit_horner_sum_bit_word_iff)

definition newlines :: "string \<Rightarrow> nat \<Rightarrow> nat \<Rightarrow> nat list" where
  "newlines data a b = filter (\<lambda>i. data ! i = LF) [a..<b]"

lemma newlines_append: "a \<le> b \<Longrightarrow> b \<le> c \<Longrightarrow> newlines data a c = newlines data a b @ newlines data b c"
  using upt_add_eq_append [of a b "c - b"] by (simp add: newlines_def flip: filter_append)

lemma chunk_newlines:
  assumes "pos + 32 \<le> length data"
  shows "mask_loop (newline_mask (take 32 (drop pos data))) pos ps = ps @ newlines data pos (pos + 32)"
proof -
  let ?c = "take 32 (drop pos data)"
  have "filter (bit (newline_mask ?c)) [0..<32] = filter (\<lambda>i. data ! (pos + i) = LF) [0..<32]"
    using assms by (intro filter_cong) (auto simp: bit_newline_mask)
  moreover have "[pos..<pos + 32] = map ((+) pos) [0..<32]"
    by (rule nth_equalityI) simp_all
  ultimately show ?thesis by (simp add: mask_loop_eq newlines_def filter_map comp_def)
qed

lemma chunk_loop_eq:
  "pos \<le> length data \<Longrightarrow> ps = newlines data 0 pos \<Longrightarrow>
   \<exists>pos'. chunk_loop data pos ps = (pos', newlines data 0 pos') \<and> pos' \<le> length data"
proof (induction data pos ps rule: chunk_loop.induct)
  case (1 data pos ps)
  show ?case
  proof (cases "pos + 32 \<le> length data")
    case True
    have "mask_loop (newline_mask (take 32 (drop pos data))) pos ps = newlines data 0 (pos + 32)"
      using chunk_newlines [OF True] newlines_append [of 0 pos "pos + 32" data] "1.prems" by simp
    from 1(1) [OF True True this] True show ?thesis by (subst chunk_loop.simps) simp
  next
    case False
    then show ?thesis using "1.prems" by (subst chunk_loop.simps) simp
  qed
qed

lemma scalar_loop_eq:
  "pos \<le> length data \<Longrightarrow> scalar_loop data pos ps = ps @ newlines data pos (length data)"
proof (induction data pos ps rule: scalar_loop.induct)
  case (1 data pos ps)
  show ?case
  proof (cases "pos < length data")
    case True
    then have "newlines data pos (length data) =
        (if data ! pos = LF then [pos] else []) @ newlines data (pos + 1) (length data)"
      by (simp add: newlines_def upt_conv_Cons)
    then show ?thesis using 1 True by (subst scalar_loop.simps) simp
  next
    case False
    then show ?thesis using "1.prems" by (subst scalar_loop.simps) (simp add: newlines_def)
  qed
qed

lemma newlines_find:
  "s \<le> length data \<Longrightarrow> newlines data s (length data) =
     (case find_char LF (drop s data) of None \<Rightarrow> []
      | Some k \<Rightarrow> (s + k) # newlines data (s + k + 1) (length data))"
proof (induction "length data - s" arbitrary: s)
  case 0
  then show ?case by (simp add: newlines_def)
next
  case (Suc n)
  then have s: "s < length data" by linarith
  then have "newlines data s (length data) =
      (if data ! s = LF then [s] else []) @ newlines data (Suc s) (length data)"
    by (simp add: newlines_def upt_conv_Cons)
  moreover have "find_char LF (drop s data) =
      (if data ! s = LF then Some 0 else map_option Suc (find_char LF (drop (Suc s) data)))"
    using s by (simp flip: Cons_nth_drop_Suc)
  ultimately show ?case using Suc.hyps(1) [of "Suc s"] Suc.hyps(2) s
    by (auto split: option.splits)
qed

lemma position_lines_eq:
  assumes "s \<le> length data"
  shows "\<exists>s' ls. position_lines data (newlines data s (length data)) s lines = (s', lines @ ls) \<and>
     s' \<le> length data \<and>
     ls @ (if s' < length data then [line_at (drop s' data) (length data - s')] else []) =
       text_lines [] (drop s data)"
  using assms
proof (induction "length data - s" arbitrary: s lines rule: less_induct)
  case less
  show ?case
  proof (cases "find_char LF (drop s data)")
    case None
    then show ?thesis
      using newlines_find [OF less.prems] text_lines_find [of "[]" "drop s data"] less.prems
      by (auto simp: line_at_chomp)
  next
    case (Some k)
    from find_char_Some [OF this] have k: "s + k < length data" by auto
    have "length data - (s + k + 1) < length data - s" "s + k + 1 \<le> length data" using k by linarith+
    from less.hyps [OF this, of "lines @ [line_at (drop s data) k]"] obtain s' ls where
      ls: "position_lines data (newlines data (s + k + 1) (length data)) (s + k + 1)
         (lines @ [line_at (drop s data) k]) = (s', (lines @ [line_at (drop s data) k]) @ ls)"
      "s' \<le> length data"
      "ls @ (if s' < length data then [line_at (drop s' data) (length data - s')] else []) =
        text_lines [] (drop (s + k + 1) data)" by blast
    show ?thesis
      using ls Some newlines_find [OF less.prems] text_lines_find [of "[]" "drop s data"] k
      by (intro exI [of _ s'] exI [of _ "line_at (drop s data) k # ls"])
        (simp add: line_at_chomp add.commute)
  qed
qed

lemma read_lines_with_avx2_eq: "read_lines_with_avx2 content = text_lines [] content"
proof (cases "content = []")
  case False
  obtain pos where pos: "(if 32 \<le> length content then chunk_loop content 0 [] else (0, [])) =
      (pos, newlines content 0 pos)" "pos \<le> length content"
  proof (cases "32 \<le> length content")
    case True
    obtain pos' where "chunk_loop content 0 [] = (pos', newlines content 0 pos')" "pos' \<le> length content"
      using chunk_loop_eq [of 0 content "[]"] by (auto simp: newlines_def)
    then show thesis using that True by simp
  next
    case False
    then show thesis using that [of 0] by (simp add: newlines_def)
  qed
  have ps: "scalar_loop content pos (newlines content 0 pos) = newlines content 0 (length content)"
    using scalar_loop_eq [OF pos(2)] newlines_append [of 0 pos "length content" content] pos(2) by simp
  obtain s' ls where "position_lines content (newlines content 0 (length content)) 0 [] = (s', ls)"
    "ls @ (if s' < length content then [line_at (drop s' content) (length content - s')] else []) =
       text_lines [] content" using position_lines_eq [of 0 content "[]"] by auto
  then show ?thesis using False pos(1) ps by (auto simp: read_lines_with_avx2_def split: if_splits)
qed (simp add: read_lines_with_avx2_def)

subsection \<open>Lemmas on paths\<close>

lemma find_last_of_None: "find_last_of c s = None \<longleftrightarrow> c \<notin> set s"
  by (induction s) (auto split: option.splits)

lemma find_last_of_Some:
  "find_last_of c s = Some k \<Longrightarrow> s = take k s @ c # drop (Suc k) s \<and> k < length s \<and> c \<notin> set (drop (Suc k) s)"
proof (induction s arbitrary: k)
  case (Cons x s)
  then show ?case by (auto simp: find_last_of_None split: option.splits if_splits)
qed simp

lemma find_last_of_nth: "find_last_of c s = Some k \<Longrightarrow> s ! k = c"
  by (induction s arbitrary: k) (auto split: option.splits if_splits)

lemma find_last_of_append:
  "c \<notin> set b \<Longrightarrow> find_last_of c (a @ c # b) = Some (length a)"
  using find_last_of_None [of c b] by (induction a) auto

text \<open>A path with a separator is its directory, a separator and its base name.\<close>

lemma parent_base:
  assumes "FEMTOLOG_DIR_SEPARATOR \<in> set path"
  shows "path = parent_dir path @ FEMTOLOG_DIR_SEPARATOR # base_name path"
    "FEMTOLOG_DIR_SEPARATOR \<notin> set (base_name path)"
proof -
  obtain k where k: "find_last_of FEMTOLOG_DIR_SEPARATOR path = Some k"
    using assms find_last_of_None by fastforce
  from find_last_of_Some [OF k] show "path = parent_dir path @ FEMTOLOG_DIR_SEPARATOR # base_name path"
    "FEMTOLOG_DIR_SEPARATOR \<notin> set (base_name path)"
    by (simp_all add: parent_dir_def base_name_def k)
qed

lemma base_name_plain: "FEMTOLOG_DIR_SEPARATOR \<notin> set path \<Longrightarrow> parent_dir path = [] \<and> base_name path = []"
  by (simp add: parent_dir_def base_name_def find_last_of_None [THEN iffD2])

lemma parent_dir_join: "FEMTOLOG_DIR_SEPARATOR \<notin> set b \<Longrightarrow> parent_dir (a @ FEMTOLOG_DIR_SEPARATOR # b) = a"
  by (simp add: parent_dir_def find_last_of_append)

text \<open>The name after the last separator, or the whole path: what the extension functions split.\<close>

definition file_part :: "string \<Rightarrow> string" where
  "file_part path =
     (case find_last_of FEMTOLOG_DIR_SEPARATOR path of None \<Rightarrow> path | Some sl \<Rightarrow> drop (Suc sl) path)"

lemma find_last_of_drop:
  "find_last_of c s = Some k \<Longrightarrow> m \<le> k \<Longrightarrow> find_last_of c (drop m s) = Some (k - m)"
  "find_last_of c s = Some k \<Longrightarrow> k < m \<Longrightarrow> find_last_of c (drop m s) = None"
proof -
  assume k: "find_last_of c s = Some k"
  note d = find_last_of_Some [OF k]
  show "find_last_of c (drop m s) = Some (k - m)" if "m \<le> k"
  proof -
    have "drop m s = drop m (take k s) @ c # drop (Suc k) s" using d that
      by (metis append_take_drop_id drop_append drop_eq_Nil2 length_take less_imp_le min.absorb2 diff_is_0_eq drop0)
    then show ?thesis using find_last_of_append [of c "drop (Suc k) s" "drop m (take k s)"] d by simp
  qed
  show "find_last_of c (drop m s) = None" if "k < m"
    using d that find_last_of_None set_drop_subset_set_drop [of "Suc k" m s] by (auto simp: Suc_le_eq)
qed

lemma file_extension_part:
  "file_extension path =
     (case find_last_of (CHR ''.'') (file_part path) of
        None \<Rightarrow> [] | Some 0 \<Rightarrow> [] | Some (Suc k) \<Rightarrow> drop (Suc (Suc k)) (file_part path))"
  "file_name_without_extension path =
     (case find_last_of (CHR ''.'') (file_part path) of
        None \<Rightarrow> file_part path | Some 0 \<Rightarrow> file_part path | Some (Suc k) \<Rightarrow> take (Suc k) (file_part path))"
proof -
  let ?sl = "find_last_of FEMTOLOG_DIR_SEPARATOR path" and ?d = "find_last_of (CHR ''.'') path"
  have ne: "?d \<noteq> Some k" if "?sl = Some k" for k
    using find_last_of_nth [OF that] find_last_of_nth [of "CHR ''.''" path k]
    by (auto simp: FEMTOLOG_DIR_SEPARATOR_def)
  have none: "find_last_of (CHR ''.'') (drop m path) = None" if "?d = None" for m
    using that set_drop_subset [of m path] by (auto simp: find_last_of_None)
  show "file_extension path =
     (case find_last_of (CHR ''.'') (file_part path) of
        None \<Rightarrow> [] | Some 0 \<Rightarrow> [] | Some (Suc k) \<Rightarrow> drop (Suc (Suc k)) (file_part path))"
    "file_name_without_extension path =
     (case find_last_of (CHR ''.'') (file_part path) of
        None \<Rightarrow> file_part path | Some 0 \<Rightarrow> file_part path | Some (Suc k) \<Rightarrow> take (Suc k) (file_part path))"
    using ne none find_last_of_drop [of "CHR ''.''" path]
    by (auto simp: file_extension_def file_name_without_extension_def file_part_def Let_def
        split: option.splits nat.splits intro: arg_cong [where f = "\<lambda>k. drop k path"])
qed

text \<open>A plain component: no separator, no terminator, not empty.\<close>

definition plain_component :: "string \<Rightarrow> bool" where
  "plain_component s \<longleftrightarrow> s \<noteq> [] \<and> CHR 0x00 \<notin> set s \<and> FEMTOLOG_DIR_SEPARATOR \<notin> set s"

lemma c_string_id: "CHR 0x00 \<notin> set s \<Longrightarrow> c_string s = s"
  by (auto simp: c_string_def takeWhile_eq_all_conv)

lemma sanitize_plain: "plain_component s \<Longrightarrow> sanitize_component s b = s"
proof -
  assume s: "plain_component s"
  then have "hd s \<noteq> FEMTOLOG_DIR_SEPARATOR" "last s \<noteq> FEMTOLOG_DIR_SEPARATOR"
    unfolding plain_component_def by (metis hd_in_set, metis last_in_set)
  with s show ?thesis by (simp add: sanitize_component_def plain_component_def c_string_id)
qed

lemma sanitize_first:
  "CHR 0x00 \<notin> set d \<Longrightarrow> d \<noteq> [] \<Longrightarrow> last d \<noteq> FEMTOLOG_DIR_SEPARATOR \<Longrightarrow> sanitize_component d True = d"
  by (simp add: sanitize_component_def c_string_id)

lemma join_parts_plain:
  "list_all plain_component ps \<Longrightarrow>
   join_parts ps joined False = joined @ concat (map (\<lambda>p. FEMTOLOG_DIR_SEPARATOR # p) ps)"
  by (induction ps arbitrary: joined) (auto simp: sanitize_plain plain_component_def)

lemma join_path_plain:
  assumes "CHR 0x00 \<notin> set d" "d \<noteq> []" "last d \<noteq> FEMTOLOG_DIR_SEPARATOR" "list_all plain_component ps"
  shows "join_path (d # ps) = d @ concat (map (\<lambda>p. FEMTOLOG_DIR_SEPARATOR # p) ps)"
  using assms by (simp add: join_path_def sanitize_first join_parts_plain)

lemma join_path_inverse:
  assumes "CHR 0x00 \<notin> set d" "d \<noteq> []" "last d \<noteq> FEMTOLOG_DIR_SEPARATOR" "plain_component f"
  shows "parent_dir (join_path [d, f]) = d" "base_name (join_path [d, f]) = f"
proof -
  have j: "join_path [d, f] = d @ FEMTOLOG_DIR_SEPARATOR # f"
    using join_path_plain [OF assms(1-3), of "[f]"] assms(4) by simp
  have f: "FEMTOLOG_DIR_SEPARATOR \<notin> set f" using assms(4) by (simp add: plain_component_def)
  show "parent_dir (join_path [d, f]) = d" "base_name (join_path [d, f]) = f"
    using find_last_of_append [OF f, of d] by (simp_all add: j parent_dir_def base_name_def)
qed

text \<open>The root directory is lost: its only separator is taken for a trailing one.\<close>

lemma join_path_root:
  assumes "plain_component f"
  shows "join_path [[FEMTOLOG_DIR_SEPARATOR], f] = f"
proof -
  have "sanitize_component [FEMTOLOG_DIR_SEPARATOR] True = []"
    by (simp add: sanitize_component_def c_string_def FEMTOLOG_DIR_SEPARATOR_def)
  with assms show ?thesis by (simp add: join_path_def sanitize_plain plain_component_def)
qed

subsection \<open>Properties\<close>

text \<open>C23: the vectorised reader of lines returns what the scalar reader returns, for every text: the
  chunks of 32 bytes, their bit masks and the scalar rest find every line feed once and in order,
  and carriage returns before a line end are dropped in both. Without carriage returns the lines,
  each closed by a line feed, are the text, up to a line feed the last line may lack.\<close>

theorem read_lines_equivalent:
  "read_lines True content = read_lines False content \<and>
   (CR \<notin> set content \<longrightarrow>
      concat (map (\<lambda>l. l @ [LF]) (read_lines True content)) =
        (if content = [] \<or> last content = LF then content else content @ [LF]))"
proof -
  have "concat (map (\<lambda>l. l @ [LF]) (text_lines l s)) =
          (if l @ s = [] \<or> s \<noteq> [] \<and> last s = LF then l @ s else l @ s @ [LF])"
    if "CR \<notin> set l" "CR \<notin> set s" for l s
    using that
  proof (induction l s rule: text_lines.induct)
    case (1 l)
    then show ?case by (simp add: chomp_plain)
  next
    case (2 l c cs)
    then show ?case by (auto simp: chomp_plain)
  qed
  then show ?thesis
    by (simp add: read_lines_def read_lines_default_eq read_lines_with_avx2_eq)
qed

theorem read_lines_equivalent_witness:
  "concat (map (\<lambda>l. l @ [LF]) (read_lines True [CHR ''a'', LF, LF, CHR ''b''])) =
     [CHR ''a'', LF, LF, CHR ''b'', LF]"
  by (subst read_lines_equivalent [THEN conjunct2, rule_format]) simp_all

end
