(* ===== verification/File_Ops.thy ===== *)
theory File_Ops
  imports File_Path
begin

text \<open>
  The part of \<^verbatim>\<open>src/src/core/base/file_util.cc\<close> that talks to the operating system. The calls it
  makes (POSIX and C library file functions, the environment, zlib) are a parameter: a record of
  functions on a world \<open>'w\<close> that the theorems leave open or restrict by \<open>file_contract\<close>. Messages
  on \<^verbatim>\<open>std::cerr\<close> are left out; the Unix branches are modelled.
\<close>

datatype open_mode = O_read | O_write_create_truncate | O_write_create_append
datatype stat_result = Stat_failed | Stat_regular | Stat_directory | Stat_other
datatype mkdir_result = Mkdir_ok | Mkdir_eexist | Mkdir_failed

record 'w os =
  os_open :: "'w \<Rightarrow> string \<Rightarrow> open_mode \<Rightarrow> int \<times> 'w"
  os_fstat :: "'w \<Rightarrow> int \<Rightarrow> int \<times> int"
  os_read :: "'w \<Rightarrow> int \<Rightarrow> nat \<Rightarrow> int \<times> byte list \<times> 'w"
  os_write :: "'w \<Rightarrow> int \<Rightarrow> byte list \<Rightarrow> int \<times> 'w"
  os_close :: "'w \<Rightarrow> int \<Rightarrow> 'w"
  os_stat :: "'w \<Rightarrow> string \<Rightarrow> stat_result"
  os_access_x :: "'w \<Rightarrow> string \<Rightarrow> int"
  os_mkdir :: "'w \<Rightarrow> string \<Rightarrow> mkdir_result \<times> 'w"
  os_remove :: "'w \<Rightarrow> string \<Rightarrow> int \<times> 'w"
  os_rmdir :: "'w \<Rightarrow> string \<Rightarrow> int \<times> 'w"
  os_rename :: "'w \<Rightarrow> string \<Rightarrow> string \<Rightarrow> int \<times> 'w"
  os_readdir :: "'w \<Rightarrow> string \<Rightarrow> string list option"
  os_readlink :: "'w \<Rightarrow> string \<Rightarrow> nat \<Rightarrow> int \<times> string"
  os_getenv :: "'w \<Rightarrow> string \<Rightarrow> string option"
  os_fopen :: "'w \<Rightarrow> string \<Rightarrow> string \<Rightarrow> int option \<times> 'w"
  os_fread :: "'w \<Rightarrow> int \<Rightarrow> nat \<Rightarrow> byte list \<times> 'w"
  os_fwrite :: "'w \<Rightarrow> int \<Rightarrow> byte list \<Rightarrow> nat \<times> 'w"
  os_fflush :: "'w \<Rightarrow> int \<Rightarrow> 'w"
  os_fclose :: "'w \<Rightarrow> int \<Rightarrow> 'w"
  os_gzopen :: "'w \<Rightarrow> string \<Rightarrow> int option \<times> 'w"
  os_gzwrite :: "'w \<Rightarrow> int \<Rightarrow> byte list \<Rightarrow> int \<times> 'w"
  os_gzclose :: "'w \<Rightarrow> int \<Rightarrow> 'w"

subsection \<open>Files\<close>

definition file_exists :: "'w os \<Rightarrow> 'w \<Rightarrow> string \<Rightarrow> bool" where
  "file_exists os w file_name \<longleftrightarrow> os_stat os w (c_string file_name) = Stat_regular"

definition dir_exists :: "'w os \<Rightarrow> 'w \<Rightarrow> string \<Rightarrow> bool" where
  "dir_exists os w dir_name \<longleftrightarrow> os_stat os w (c_string dir_name) = Stat_directory"

text \<open>The loop of \<^verbatim>\<open>read_file\<close>: \<open>contents\<close> has been resized to the size of the file.\<close>

function read_loop ::
  "'w os \<Rightarrow> 'w \<Rightarrow> int \<Rightarrow> byte list \<Rightarrow> nat \<Rightarrow> (byte list \<times> nat \<times> 'w) option" where
  "read_loop os w fd contents total_read =
     (if total_read < length contents
      then (let (bytes, placed, w) = os_read os w fd (length contents - total_read)
            in if bytes \<le> 0 then Some (contents, total_read, w)
               else (case memcpy contents total_read placed of
                       None \<Rightarrow> None
                     | Some contents' \<Rightarrow> read_loop os w fd contents' (total_read + nat bytes)))
      else Some (contents, total_read, w))"
  by pat_completeness auto
termination
  by (relation "measure (\<lambda>(os, w, fd, contents, total_read). length contents - total_read)")
    (auto dest!: memcpy_length)

declare read_loop.simps [simp del]

definition string_resize :: "string \<Rightarrow> nat \<Rightarrow> string" where
  "string_resize s n = take n s @ replicate (n - length s) (CHR 0x00)"

definition read_file :: "'w os \<Rightarrow> 'w \<Rightarrow> string \<Rightarrow> (string \<times> 'w) option" where
  "read_file os w path =
     (let (fd, w) = os_open os w (c_string path) O_read
      in if fd < 0 then Some ([], w)
         else let (rc, st_size) = os_fstat os w fd
         in if rc \<noteq> 0 then Some ([], os_close os w fd)
         else if 0 < st_size then do {
           (contents, total_read, w) \<leftarrow> read_loop os w fd (string_resize [] (nat st_size)) 0;
           Some (string_resize contents total_read, os_close os w fd)
         } else Some ([], os_close os w fd))"

function write_loop :: "'w os \<Rightarrow> 'w \<Rightarrow> int \<Rightarrow> byte list \<Rightarrow> nat \<Rightarrow> int \<times> 'w" where
  "write_loop os w fd data total_written =
     (if total_written < length data
      then (let (bytes, w) = os_write os w fd (drop total_written data)
            in if bytes \<le> 0 then (-1, os_close os w fd)
               else write_loop os w fd data (total_written + nat bytes))
      else (0, os_close os w fd))"
  by pat_completeness auto
termination
  by (relation "measure (\<lambda>(os, w, fd, data, total_written). length data - total_written)") auto

declare write_loop.simps [simp del]

definition write_file :: "'w os \<Rightarrow> 'w \<Rightarrow> string \<Rightarrow> string \<Rightarrow> int \<times> 'w" where
  "write_file os w path content =
     (let (fd, w) = os_open os w (c_string path) O_write_create_truncate
      in if fd < 0 then (-1, w) else write_loop os w fd content 0)"

definition write_binary_to_file ::
  "'w os \<Rightarrow> 'w \<Rightarrow> byte list option \<Rightarrow> string \<Rightarrow> int \<times> 'w" where
  "write_binary_to_file os w binary_data output_path =
     (case binary_data of
        None \<Rightarrow> (4, w)
      | Some data \<Rightarrow>
          if length data = 0 then (4, w)
          else (case os_fopen os w (c_string output_path) ''wb'' of
                  (None, w) \<Rightarrow> (2, w)
                | (Some fp, w) \<Rightarrow>
                    let (written, w) = os_fwrite os w fp data;
                        w = os_fclose os (os_fflush os w fp) fp
                    in if written \<noteq> length data then (1, w) else (0, w)))"

definition create_file :: "'w os \<Rightarrow> 'w \<Rightarrow> string \<Rightarrow> int \<times> 'w" where
  "create_file os w path =
     (case os_fopen os w (c_string path) ''wx'' of
        (None, w) \<Rightarrow> (-1, w)
      | (Some fp, w) \<Rightarrow> (0, os_fclose os w fp))"

definition remove_file :: "'w os \<Rightarrow> 'w \<Rightarrow> string \<Rightarrow> int \<times> 'w" where
  "remove_file os w path = os_remove os w (c_string path)"

definition remove_directory :: "'w os \<Rightarrow> 'w \<Rightarrow> string \<Rightarrow> int \<times> 'w" where
  "remove_directory os w path = os_rmdir os w (c_string path)"

definition rename_file :: "'w os \<Rightarrow> 'w \<Rightarrow> string \<Rightarrow> string \<Rightarrow> int \<times> 'w" where
  "rename_file os w old_path new_path = os_rename os w (c_string old_path) (c_string new_path)"

text \<open>
  \<^verbatim>\<open>compress\<close>: the loop ends when \<^verbatim>\<open>fread\<close> delivers nothing, which is the end of the file or an
  error; a source that never ends is the value \<open>None\<close>.
\<close>

definition kBufSize :: nat where
  "kBufSize = 8192"

partial_function (option) compress_loop :: "'w os \<Rightarrow> 'w \<Rightarrow> int \<Rightarrow> int \<Rightarrow> (bool \<times> 'w) option" where
  "compress_loop os w src dst =
     (let (buf, w) = os_fread os w src kBufSize
      in if buf = [] then Some (True, w)
         else let (rc, w) = os_gzwrite os w dst buf
              in if rc = 0 then Some (False, w) else compress_loop os w src dst)"

definition compress :: "'w os \<Rightarrow> 'w \<Rightarrow> string \<Rightarrow> string \<Rightarrow> bool \<Rightarrow> (bool \<times> 'w) option" where
  "compress os w src_path dest_path remove_after_compress =
     (case os_fopen os w (c_string src_path) ''rb'' of
        (None, w) \<Rightarrow> Some (False, w)
      | (Some src, w) \<Rightarrow>
          (case os_gzopen os w (c_string dest_path) of
             (None, w) \<Rightarrow> Some (False, os_fclose os w src)
           | (Some dst, w) \<Rightarrow> do {
               (ok, w) \<leftarrow> compress_loop os w src dst;
               let w = os_fclose os (os_gzclose os w dst) src;
               if \<not> ok then Some (False, w)
               else Some (True, if remove_after_compress then snd (os_remove os w (c_string src_path)) else w)
             }))"

subsection \<open>Directories\<close>

definition create_directory :: "'w os \<Rightarrow> 'w \<Rightarrow> string \<Rightarrow> int \<times> 'w" where
  "create_directory os w path =
     (let (r, w) = os_mkdir os w (c_string path)
      in (if r = Mkdir_ok \<or> r = Mkdir_eexist then 0 else -1, w))"

text \<open>One round of the loop of \<^verbatim>\<open>create_directories\<close>: the next prefix, created when it is missing.\<close>

definition make_prefix :: "'w os \<Rightarrow> string \<Rightarrow> int \<times> 'w \<Rightarrow> int \<times> 'w" where
  "make_prefix os dir rw = (case rw of (result, w) \<Rightarrow>
     if dir \<noteq> [] \<and> \<not> dir_exists os w dir
     then (let (rc, w) = create_directory os w dir in if rc \<noteq> 0 then (result + 1, w) else (result, w))
     else (result, w))"

function directories_loop :: "'w os \<Rightarrow> string \<Rightarrow> nat \<Rightarrow> int \<times> 'w \<Rightarrow> int \<times> 'w" where
  "directories_loop os sanitized_path pos rw =
     (if pos < length sanitized_path
      then (case find_char FEMTOLOG_DIR_SEPARATOR (drop pos sanitized_path) of
              Some k \<Rightarrow> directories_loop os sanitized_path (pos + k + 1)
                          (make_prefix os (take (pos + k) sanitized_path) rw)
            | None \<Rightarrow> directories_loop os sanitized_path (length sanitized_path)
                        (make_prefix os sanitized_path rw))
      else rw)"
  by pat_completeness auto
termination
  by (relation "measure (\<lambda>(os, path, pos, rw). length path - pos)") auto

declare directories_loop.simps [simp del]

definition create_directories :: "'w os \<Rightarrow> 'w \<Rightarrow> string \<Rightarrow> int \<times> 'w" where
  "create_directories os w path = directories_loop os (sanitize_component path True) 0 (0, w)"

text \<open>The names \<^verbatim>\<open>readdir\<close> yields, one after the other.\<close>

fun collect_names :: "string list \<Rightarrow> string list \<Rightarrow> string list" where
  "collect_names [] files = files"
| "collect_names (name # names) files =
     collect_names names (if name \<noteq> ''.'' \<and> name \<noteq> ''..'' then files @ [name] else files)"

definition list_files :: "'w os \<Rightarrow> 'w \<Rightarrow> string \<Rightarrow> string list" where
  "list_files os w path =
     (case os_readdir os w (c_string path) of None \<Rightarrow> [] | Some names \<Rightarrow> collect_names names [])"

subsection \<open>The executable, the environment and temporary files\<close>

definition kPathMaxLength :: nat where
  "kPathMaxLength = 4096"

definition exe_path :: "'w os \<Rightarrow> 'w \<Rightarrow> string" where
  "exe_path os w =
     (let (len, path) = os_readlink os w ''/proc/self/exe'' (kPathMaxLength - 1)
      in if len = -1 then [] else take (nat len) path)"

definition exe_dir :: "'w os \<Rightarrow> 'w \<Rightarrow> string" where
  "exe_dir os w = (let this_exe_path = exe_path os w in if this_exe_path = [] then [] else parent_dir this_exe_path)"

definition resources_dir :: "'w os \<Rightarrow> 'w \<Rightarrow> string" where
  "resources_dir os w = join_path [exe_dir os w, ''resources'']"

definition executable_at :: "'w os \<Rightarrow> 'w \<Rightarrow> string \<Rightarrow> bool" where
  "executable_at os w full_path \<longleftrightarrow> file_exists os w full_path \<and> os_access_x os w (c_string full_path) = 0"

function path_search :: "'w os \<Rightarrow> 'w \<Rightarrow> string \<Rightarrow> string \<Rightarrow> bool" where
  "path_search os w path path_var =
     (case find_char FEMTOLOG_PATH_SEPARATOR path_var of
        Some k \<Rightarrow>
          executable_at os w (take k path_var @ FEMTOLOG_DIR_SEPARATOR # c_string path) \<or>
          path_search os w path (drop (Suc k) path_var)
      | None \<Rightarrow> executable_at os w (path_var @ FEMTOLOG_DIR_SEPARATOR # c_string path))"
  by pat_completeness auto
termination
  by (relation "measure (\<lambda>(os, w, path, path_var). length path_var)")
    (auto dest!: find_char_Some)

declare path_search.simps [simp del]

definition is_executable_in_path :: "'w os \<Rightarrow> 'w \<Rightarrow> string \<Rightarrow> bool" where
  "is_executable_in_path os w path =
     (case os_getenv os w ''PATH'' of None \<Rightarrow> False | Some path_env \<Rightarrow> path_search os w path path_env)"

fun first_set :: "'w os \<Rightarrow> 'w \<Rightarrow> string list \<Rightarrow> string option" where
  "first_set os w [] = None"
| "first_set os w (var # vars) =
     (case os_getenv os w var of
        Some value \<Rightarrow> if value \<noteq> [] then Some value else first_set os w vars
      | None \<Rightarrow> first_set os w vars)"

definition temp_directory :: "'w os \<Rightarrow> 'w \<Rightarrow> string" where
  "temp_directory os w =
     (case first_set os w [''TMPDIR'', ''TMP'', ''TEMP'', ''TEMPDIR''] of
        Some value \<Rightarrow> value @ [FEMTOLOG_DIR_SEPARATOR] | None \<Rightarrow> ''/tmp/'')"

text \<open>The eight draws of the random distribution, each between 0 and 61, are a parameter.\<close>

definition charset :: string where
  "charset = ''0123456789ABCDEFGHIJKLMNOPQRSTUVWXYZabcdefghijklmnopqrstuvwxyz''"

definition temp_path :: "'w os \<Rightarrow> 'w \<Rightarrow> nat list \<Rightarrow> string \<Rightarrow> string" where
  "temp_path os w draws prefix =
     temp_directory os w @ prefix @ ''femtolog_'' @ map (\<lambda>i. charset ! i) draws"

record temp_entry =
  te_path :: string
  te_valid :: bool

definition temp_file_new :: "'w os \<Rightarrow> 'w \<Rightarrow> nat list \<Rightarrow> string \<Rightarrow> string \<Rightarrow> temp_entry \<times> 'w" where
  "temp_file_new os w draws prefix content =
     (let path = temp_path os w draws prefix;
          (rc, w) = create_file os w path
      in if rc \<noteq> 0 then (\<lparr>te_path = path, te_valid = False\<rparr>, w)
         else if content \<noteq> [] then
           (let (rc, w) = write_file os w path content in (\<lparr>te_path = path, te_valid = (rc = 0)\<rparr>, w))
         else (\<lparr>te_path = path, te_valid = True\<rparr>, w))"

definition temp_file_delete :: "'w os \<Rightarrow> 'w \<Rightarrow> temp_entry \<Rightarrow> 'w" where
  "temp_file_delete os w t = (if te_valid t then snd (remove_file os w (te_path t)) else w)"

definition temp_dir_new :: "'w os \<Rightarrow> 'w \<Rightarrow> nat list \<Rightarrow> string \<Rightarrow> temp_entry \<times> 'w" where
  "temp_dir_new os w draws prefix =
     (let path = temp_path os w draws prefix;
          (rc, w) = create_directory os w path
      in (\<lparr>te_path = path, te_valid = (rc = 0)\<rparr>, w))"

definition temp_dir_delete :: "'w os \<Rightarrow> 'w \<Rightarrow> temp_entry \<Rightarrow> 'w" where
  "temp_dir_delete os w t = (if te_valid t then snd (remove_directory os w (te_path t)) else w)"

text \<open>\<^verbatim>\<open>File\<close>: a name, its text and its lines. In a release build a line number out of range is an
  access outside the vector.\<close>

record file_obj =
  fo_file_name :: string
  fo_source :: string
  fo_lines :: "string list"

definition file_from_source :: "bool \<Rightarrow> string \<Rightarrow> string \<Rightarrow> file_obj" where
  "file_from_source avx2 file_name source =
     \<lparr>fo_file_name = file_name, fo_source = source, fo_lines = read_lines avx2 source\<rparr>"

definition file_load :: "'w os \<Rightarrow> 'w \<Rightarrow> bool \<Rightarrow> string \<Rightarrow> (file_obj \<times> 'w) option" where
  "file_load os w avx2 file_name = do {
     (source, w) \<leftarrow> read_file os w file_name;
     Some (file_from_source avx2 file_name source, w)
   }"

definition file_line :: "file_obj \<Rightarrow> nat \<Rightarrow> string option" where
  "file_line f line_no =
     (if 1 \<le> line_no \<and> line_no \<le> length (fo_lines f) then Some (fo_lines f ! (line_no - 1)) else None)"

subsection \<open>What the documentation of the calls promises\<close>

text \<open>
  \<open>file w p\<close> is the content of the regular file \<open>p\<close>, \<open>desc w fd\<close> the file and the offset behind an
  open descriptor. Opening for writing truncates; a write appends a prefix of what it was given; a
  read delivers at most what was asked for, from the offset on, and advances it; nothing else
  changes the file. \<open>call_cost\<close> is any counter of calls.
\<close>

definition file_contract ::
  "'w os \<Rightarrow> ('w \<Rightarrow> string \<Rightarrow> byte list option) \<Rightarrow> ('w \<Rightarrow> int \<Rightarrow> (string \<times> nat) option) \<Rightarrow> bool" where
  "file_contract os file desc \<longleftrightarrow>
     (\<forall>w p. let (fd, w1) = os_open os w p O_write_create_truncate in
        0 \<le> fd \<longrightarrow> file w1 p = Some [] \<and> desc w1 fd = Some (p, 0)) \<and>
     (\<forall>w p. let (fd, w1) = os_open os w p O_read in
        file w1 = file w \<and> (0 \<le> fd \<longrightarrow> file w p \<noteq> None \<and> desc w1 fd = Some (p, 0))) \<and>
     (\<forall>w fd p k c. desc w fd = Some (p, k) \<and> file w p = Some c \<longrightarrow>
        (\<forall>bs. k = length c \<longrightarrow> (let (r, w1) = os_write os w fd bs in
           r \<le> int (length bs) \<and> file w1 p = Some (c @ take (nat r) bs) \<and> desc w1 fd = Some (p, k + nat r))) \<and>
        (let (rc, sz) = os_fstat os w fd in rc = 0 \<longrightarrow> sz = int (length c)) \<and>
        (\<forall>n. let (r, bs, w1) = os_read os w fd n in
           file w1 = file w \<and> r \<le> int n \<and>
           (0 < r \<longrightarrow> bs = take (nat r) (drop k c) \<and> length bs = nat r \<and> desc w1 fd = Some (p, k + nat r)))) \<and>
     (\<forall>w fd. file (os_close os w fd) = file w)"

definition call_cost :: "'w os \<Rightarrow> ('w \<Rightarrow> nat) \<Rightarrow> bool" where
  "call_cost os cnt \<longleftrightarrow>
     (\<forall>w fd bs. cnt (snd (os_write os w fd bs)) \<le> cnt w + 1) \<and>
     (\<forall>w fd n. cnt (snd (snd (os_read os w fd n))) \<le> cnt w + 1) \<and>
     (\<forall>w p m. cnt (snd (os_open os w p m)) = cnt w) \<and>
     (\<forall>w fd. cnt (os_close os w fd) = cnt w) \<and>
     (\<forall>w p. cnt (snd (os_mkdir os w p)) \<le> cnt w + 1)"

text \<open>A source stream with \<open>left w\<close> bytes to go.\<close>

definition finite_stream :: "'w os \<Rightarrow> ('w \<Rightarrow> nat) \<Rightarrow> bool" where
  "finite_stream os left \<longleftrightarrow>
     (\<forall>w s n. let (bs, w1) = os_fread os w s n in left w1 + length bs \<le> left w) \<and>
     (\<forall>w d bs. left (snd (os_gzwrite os w d bs)) = left w)"

subsection \<open>Lemmas\<close>

lemma write_loop_cost:
  assumes "call_cost os cnt"
  shows "cnt (snd (write_loop os w fd data n)) \<le> cnt w + (length data - n)"
  using assms
proof (induction os w fd data n rule: write_loop.induct)
  case (1 os w fd data n)
  show ?case
  proof (cases "n < length data")
    case True
    obtain r w1 where r: "os_write os w fd (drop n data) = (r, w1)" by fastforce
    have c: "cnt w1 \<le> cnt w + 1" "\<And>w. cnt (os_close os w fd) = cnt w"
      using "1.prems" r by (auto simp: call_cost_def) (metis Suc_eq_plus1 snd_conv)
    show ?thesis
    proof (cases "r \<le> 0")
      case True
      then show ?thesis using \<open>n < length data\<close> r c by (subst write_loop.simps) simp
    next
      case False
      from "1.IH" [OF True r [symmetric] refl False "1.prems"]
      have "cnt (snd (write_loop os w1 fd data (n + nat r))) \<le> cnt w1 + (length data - (n + nat r))" .
      also have "\<dots> \<le> cnt w + (length data - n)" using c(1) True False by linarith
      finally show ?thesis using True r False by (subst write_loop.simps) simp
    qed
  next
    case False
    then show ?thesis using "1.prems" by (subst write_loop.simps) (simp add: call_cost_def)
  qed
qed

lemma read_loop_cost:
  assumes "call_cost os cnt" "read_loop os w fd contents n = Some (c', n', w')"
  shows "cnt w' \<le> cnt w + (length contents - n)"
  using assms
proof (induction os w fd contents n rule: read_loop.induct)
  case (1 os w fd contents n)
  show ?case
  proof (cases "n < length contents")
    case True
    obtain r bs w1 where r: "os_read os w fd (length contents - n) = (r, bs, w1)" by (metis prod_cases3)
    have c: "cnt w1 \<le> cnt w + 1" using "1.prems"(1) r by (auto simp: call_cost_def) (metis Suc_eq_plus1 snd_conv)
    show ?thesis
    proof (cases "r \<le> 0")
      case True
      then show ?thesis using \<open>n < length contents\<close> r c "1.prems"(2)
        by (subst (asm) read_loop.simps) simp
    next
      case False
      then obtain contents' where m: "memcpy contents n bs = Some contents'"
        and rl: "read_loop os w1 fd contents' (n + nat r) = Some (c', n', w')"
        using True r "1.prems"(2) by (subst (asm) read_loop.simps) (simp split: option.splits)
      from "1.IH" [OF True r [symmetric] refl refl False m "1.prems"(1) rl]
      have "cnt w' \<le> cnt w1 + (length contents' - (n + nat r))" .
      also have "\<dots> \<le> cnt w + (length contents - n)" using c True False memcpy_length [OF m] by linarith
      finally show ?thesis .
    qed
  next
    case False
    then show ?thesis using "1.prems"(2) by (subst (asm) read_loop.simps) simp
  qed
qed

text \<open>\<^verbatim>\<open>create_directories\<close> visits the prefixes of the path that end before a separator or at its end.\<close>

function path_prefixes :: "string \<Rightarrow> nat \<Rightarrow> string list" where
  "path_prefixes path pos =
     (if pos < length path
      then (case find_char FEMTOLOG_DIR_SEPARATOR (drop pos path) of
              Some k \<Rightarrow> take (pos + k) path # path_prefixes path (pos + k + 1)
            | None \<Rightarrow> [path])
      else [])"
  by pat_completeness auto
termination
  by (relation "measure (\<lambda>(path, pos). length path - pos)") auto

declare path_prefixes.simps [simp del]

lemma directories_loop_fold:
  "directories_loop os path pos rw = foldl (\<lambda>rw dir. make_prefix os dir rw) rw (path_prefixes path pos)"
proof (induction os path pos rw rule: directories_loop.induct)
  case (1 os path pos rw)
  show ?case
  proof (cases "pos < length path")
    case True
    then show ?thesis using 1
      by (subst directories_loop.simps, subst path_prefixes.simps)
        (auto simp: directories_loop.simps [of os path "length path"] split: option.splits)
  qed (simp add: directories_loop.simps path_prefixes.simps)
qed

lemma length_path_prefixes: "length (path_prefixes path pos) \<le> length path - pos"
proof (induction path pos rule: path_prefixes.induct)
  case (1 path pos)
  show ?case
  proof (cases "pos < length path")
    case True
    then show ?thesis using 1 by (subst path_prefixes.simps) (fastforce split: option.splits)
  qed (simp add: path_prefixes.simps)
qed

lemma make_prefix_cost:
  assumes "call_cost os cnt"
  shows "cnt (snd (make_prefix os dir rw)) \<le> cnt (snd rw) + 1"
proof -
  have "cnt (snd (os_mkdir os w p)) \<le> cnt w + 1" for w p using assms by (simp add: call_cost_def)
  then show ?thesis
    by (cases rw) (auto simp: make_prefix_def create_directory_def Let_def split: prod.splits, (metis Suc_eq_plus1 snd_conv)+)
qed

lemma make_prefixes_cost:
  assumes "call_cost os cnt"
  shows "cnt (snd (foldl (\<lambda>rw dir. make_prefix os dir rw) rw ds)) \<le> cnt (snd rw) + length ds"
proof (induction ds arbitrary: rw)
  case (Cons d ds)
  from Cons.IH [of "make_prefix os d rw"] make_prefix_cost [OF assms, of d rw] show ?case by simp
qed simp

lemma compress_loop_returns:
  assumes "finite_stream os left"
  shows "\<exists>r. compress_loop os w src dst = Some r"
proof (induction "left w" arbitrary: w rule: less_induct)
  case less
  obtain buf w1 where f: "os_fread os w src kBufSize = (buf, w1)" by fastforce
  obtain rc w2 where g: "os_gzwrite os w1 dst buf = (rc, w2)" by fastforce
  have "left w1 + length buf \<le> left w" using assms f unfolding finite_stream_def by (metis case_prod_conv)
  moreover have "left w2 = left w1" using assms g unfolding finite_stream_def by (metis snd_conv)
  ultimately have "buf \<noteq> [] \<Longrightarrow> left w2 < left w" by (cases buf) auto
  then show ?case using less [of w2] f g by (subst compress_loop.simps) auto
qed

text \<open>The clauses of the contract, one by one.\<close>

lemma contract_write:
  assumes "file_contract os file desc" "desc w fd = Some (p, length c)" "file w p = Some c"
    and "os_write os w fd bs = (r, w1)"
  shows "r \<le> int (length bs)" "file w1 p = Some (c @ take (nat r) bs)" "desc w1 fd = Some (p, length c + nat r)"
proof -
  from assms(1) have "\<forall>w fd p k c. desc w fd = Some (p, k) \<and> file w p = Some c \<longrightarrow>
      (\<forall>bs. k = length c \<longrightarrow> (let (r, w1) = os_write os w fd bs in
         r \<le> int (length bs) \<and> file w1 p = Some (c @ take (nat r) bs) \<and> desc w1 fd = Some (p, k + nat r)))"
    unfolding file_contract_def by blast
  from this [rule_format, OF conjI, OF assms(2,3) refl, of bs] assms(4)
  show "r \<le> int (length bs)" "file w1 p = Some (c @ take (nat r) bs)" "desc w1 fd = Some (p, length c + nat r)"
    by simp_all
qed

lemma contract_read:
  assumes "file_contract os file desc" "desc w fd = Some (p, k)" "file w p = Some c"
    and "os_read os w fd n = (r, bs, w1)"
  shows "file w1 = file w" "r \<le> int n"
    "0 < r \<Longrightarrow> bs = take (nat r) (drop k c) \<and> length bs = nat r \<and> desc w1 fd = Some (p, k + nat r)"
proof -
  from assms(1) have "\<forall>w fd p k c. desc w fd = Some (p, k) \<and> file w p = Some c \<longrightarrow>
      (\<forall>n. let (r, bs, w1) = os_read os w fd n in
         file w1 = file w \<and> r \<le> int n \<and>
         (0 < r \<longrightarrow> bs = take (nat r) (drop k c) \<and> length bs = nat r \<and> desc w1 fd = Some (p, k + nat r)))"
    unfolding file_contract_def by blast
  from this [rule_format, OF conjI, OF assms(2,3), of n]
  have "file w1 = file w \<and> r \<le> int n \<and>
      (0 < r \<longrightarrow> bs = take (nat r) (drop k c) \<and> length bs = nat r \<and> desc w1 fd = Some (p, k + nat r))"
    unfolding assms(4) Let_def prod.case .
  then show "file w1 = file w" "r \<le> int n"
    "0 < r \<Longrightarrow> bs = take (nat r) (drop k c) \<and> length bs = nat r \<and> desc w1 fd = Some (p, k + nat r)"
    by blast+
qed

lemma contract_fstat:
  assumes "file_contract os file desc" "desc w fd = Some (p, k)" "file w p = Some c"
    and "os_fstat os w fd = (0, sz)"
  shows "sz = int (length c)"
proof -
  from assms(1) have "\<forall>w fd p k c. desc w fd = Some (p, k) \<and> file w p = Some c \<longrightarrow>
      (let (rc, sz) = os_fstat os w fd in rc = 0 \<longrightarrow> sz = int (length c))"
    unfolding file_contract_def by blast
  from this [rule_format, OF conjI, OF assms(2,3)] assms(4) show ?thesis by simp
qed

lemma contract_open_close:
  assumes "file_contract os file desc"
  shows "os_open os w p O_write_create_truncate = (fd, w1) \<Longrightarrow> 0 \<le> fd \<Longrightarrow>
      file w1 p = Some [] \<and> desc w1 fd = Some (p, 0)"
    "os_open os w p O_read = (fd, w1) \<Longrightarrow> file w1 = file w \<and>
      (0 \<le> fd \<longrightarrow> file w p \<noteq> None \<and> desc w1 fd = Some (p, 0))"
    "file (os_close os w fd) = file w"
proof -
  note c = assms [unfolded file_contract_def, THEN conjunct1, rule_format, of w p]
    assms [unfolded file_contract_def, THEN conjunct2, THEN conjunct1, rule_format, of w p]
    assms [unfolded file_contract_def, THEN conjunct2, THEN conjunct2, THEN conjunct2, rule_format, of w fd]
  show "os_open os w p O_write_create_truncate = (fd, w1) \<Longrightarrow> 0 \<le> fd \<Longrightarrow>
      file w1 p = Some [] \<and> desc w1 fd = Some (p, 0)"
    "os_open os w p O_read = (fd, w1) \<Longrightarrow> file w1 = file w \<and>
      (0 \<le> fd \<longrightarrow> file w p \<noteq> None \<and> desc w1 fd = Some (p, 0))"
    "file (os_close os w fd) = file w"
    using c by simp_all
qed

text \<open>No read fails while there are bytes to deliver.\<close>

definition reads_succeed ::
  "'w os \<Rightarrow> ('w \<Rightarrow> string \<Rightarrow> byte list option) \<Rightarrow> ('w \<Rightarrow> int \<Rightarrow> (string \<times> nat) option) \<Rightarrow> bool" where
  "reads_succeed os file desc \<longleftrightarrow>
     (\<forall>w fd p k c n. desc w fd = Some (p, k) \<and> file w p = Some c \<and> k < length c \<and> 0 < n \<longrightarrow>
        0 < fst (os_read os w fd n))"

text \<open>The loops under the contract: what \<^verbatim>\<open>write_file\<close> has written, what \<^verbatim>\<open>read_file\<close> has read.\<close>

lemma write_loop_file:
  assumes "file_contract os file desc"
    and "desc w fd = Some (p, n)" "file w p = Some (take n data)" "n \<le> length data"
    and "write_loop os w fd data n = (rc, w')"
  shows "(rc = 0 \<and> file w' p = Some data) \<or> (rc = -1 \<and> (\<exists>m < length data. file w' p = Some (take m data)))"
  using assms
proof (induction os w fd data n arbitrary: rc w' rule: write_loop.induct)
  case (1 os w fd data n)
  have close: "file (os_close os w fd) = file w" for w using "1.prems"(1) by (simp add: file_contract_def)
  show ?case
  proof (cases "n < length data")
    case True
    obtain r w1 where r: "os_write os w fd (drop n data) = (r, w1)" by fastforce
    have l: "length (take n data) = n" using "1.prems"(4) by simp
    have c: "r \<le> int (length data - n)" "file w1 p = Some (take (n + nat r) data)"
      "desc w1 fd = Some (p, n + nat r)"
      using contract_write [OF "1.prems"(1) _ "1.prems"(3) r] "1.prems"(2) l by (simp_all add: take_add)
    show ?thesis
    proof (cases "r \<le> 0")
      case True
      then show ?thesis using \<open>n < length data\<close> r c "1.prems"(5) close
        by (subst (asm) write_loop.simps) auto
    next
      case False
      have "n + nat r \<le> length data" using c(1) True by linarith
      from "1.IH" [OF True r [symmetric] refl False "1.prems"(1) c(3,2) this, of rc w'] "1.prems"(5) True r False
      show ?thesis by (simp add: write_loop.simps [of os w])
    qed
  next
    case False
    then show ?thesis using "1.prems" close by (subst (asm) write_loop.simps) auto
  qed
qed

lemma read_loop_file:
  assumes "file_contract os file desc"
    and "desc w fd = Some (p, n)" "file w p = Some data" "length contents = length data"
    and "take n contents = take n data" "n \<le> length data"
  shows "\<exists>c' n' w'. read_loop os w fd contents n = Some (c', n', w') \<and> file w' = file w \<and>
           n' \<le> length data \<and> length c' = length data \<and> take n' c' = take n' data \<and>
           (reads_succeed os file desc \<longrightarrow> n' = length data)"
  using assms
proof (induction os w fd contents n rule: read_loop.induct)
  case (1 os w fd contents n)
  show ?case
  proof (cases "n < length contents")
    case True
    obtain r bs w1 where r: "os_read os w fd (length contents - n) = (r, bs, w1)" by (metis prod_cases3)
    note c = contract_read [OF "1.prems"(1-3) r]
    show ?thesis
    proof (cases "r \<le> 0")
      case True
      have n: "n < length data" "0 < length contents - n" using \<open>n < length contents\<close> "1.prems"(4) by simp_all
      have "\<not> reads_succeed os file desc"
      proof
        assume "reads_succeed os file desc"
        then have "0 < fst (os_read os w fd (length contents - n))"
          using "1.prems"(2,3) n unfolding reads_succeed_def by blast
        then show False using r True by simp
      qed
      then show ?thesis using \<open>n < length contents\<close> True r c(1) "1.prems"(4-6)
        by (subst read_loop.simps) simp
    next
      case False
      then have b: "bs = take (nat r) (drop n data)" "length bs = nat r" "desc w1 fd = Some (p, n + nat r)"
        using c(3) by auto
      have nr: "n + nat r \<le> length data" using c(2) True "1.prems"(4) by linarith
      then obtain contents' where m: "memcpy contents n bs = Some contents'"
        using b(2) "1.prems"(4) by (simp add: mem_simps)
      have "take (n + nat r) contents' = take n contents @ bs"
        using m b(2) nr "1.prems"(4) by (simp add: memcpy_def split: if_splits) (auto simp: b(2))
      then have t: "take (n + nat r) contents' = take (n + nat r) data" using b(1) "1.prems"(5) by (simp add: take_add)
      have f: "file w1 p = Some data" "length contents' = length data"
        using c(1) "1.prems"(3,4) memcpy_length [OF m] by simp_all
      from "1.IH" [OF True r [symmetric] refl refl False m "1.prems"(1) b(3) f t nr]
      show ?thesis using True r False m c(1) by (subst read_loop.simps) simp
    qed
  next
    case False
    then show ?thesis using "1.prems" by (subst read_loop.simps) auto
  qed
qed

lemma string_resize_shorter: "n \<le> length s \<Longrightarrow> string_resize s n = take n s"
  by (simp add: string_resize_def)

definition opens_succeed ::
  "'w os \<Rightarrow> ('w \<Rightarrow> string \<Rightarrow> byte list option) \<Rightarrow> ('w \<Rightarrow> int \<Rightarrow> (string \<times> nat) option) \<Rightarrow> bool" where
  "opens_succeed os file desc \<longleftrightarrow>
     (\<forall>w p. file w p \<noteq> None \<longrightarrow> 0 \<le> fst (os_open os w p O_read)) \<and>
     (\<forall>w fd p k c. desc w fd = Some (p, k) \<and> file w p = Some c \<longrightarrow> fst (os_fstat os w fd) = 0)"

lemma read_file_spec:
  assumes con: "file_contract os file desc" and c: "file w (c_string path) = Some content"
  shows "\<exists>r w' rest. read_file os w path = Some (r, w') \<and> file w' = file w \<and> content = r @ rest \<and>
           (opens_succeed os file desc \<and> reads_succeed os file desc \<longrightarrow> rest = [])"
proof -
  obtain fd w1 where o: "os_open os w (c_string path) O_read = (fd, w1)" by fastforce
  obtain rc sz where f: "os_fstat os w1 fd = (rc, sz)" by fastforce
  have close: "file (os_close os w fd) = file w" for w by (rule contract_open_close(3) [OF con])
  show ?thesis
  proof (cases "fd < 0")
    case True
    have "\<not> opens_succeed os file desc"
    proof
      assume "opens_succeed os file desc"
      then have "0 \<le> fst (os_open os w (c_string path) O_read)" using c unfolding opens_succeed_def by simp
      then show False using o True by simp
    qed
    then show ?thesis using True o contract_open_close(2) [OF con o] by (simp add: read_file_def)
  next
    case False
    note op = contract_open_close(2) [OF con o] 
    have fd: "file w1 = file w" "desc w1 fd = Some (c_string path, 0)" using op False by simp_all
    show ?thesis
    proof (cases "rc = 0 \<and> 0 < sz")
      case True
      have sz: "nat sz = length content" "content \<noteq> []"
        using contract_fstat [OF con fd(2), of content sz] c fd(1) f True by auto
      have "length (string_resize [] (nat sz)) = length content"
        by (simp add: string_resize_def sz)
      from read_loop_file [OF con fd(2) _ this, of ] c fd(1)
      obtain c' n' w' where r: "read_loop os w1 fd (string_resize [] (nat sz)) 0 = Some (c', n', w')"
        "file w' = file w1" "n' \<le> length content" "length c' = length content"
        "take n' c' = take n' content" "reads_succeed os file desc \<longrightarrow> n' = length content" by auto
      have res: "string_resize c' n' = take n' content" using r(3-5) by (simp add: string_resize_shorter)
      show ?thesis using o False f True r close fd(1) res
        by (intro exI [of _ "take n' content"] exI [of _ "os_close os w' fd"] exI [of _ "drop n' content"])
          (simp add: read_file_def)
    next
      case False
      have "opens_succeed os file desc \<Longrightarrow> rc = 0"
        using fd c f unfolding opens_succeed_def by (metis fst_conv)
      moreover have "rc = 0 \<Longrightarrow> content = []"
        using contract_fstat [OF con fd(2), of content sz] c fd(1) f False by auto
      ultimately show ?thesis using o \<open>\<not> fd < 0\<close> f False close fd(1)
        by (intro exI [of _ "[]"] exI [of _ "os_close os w1 fd"] exI [of _ content])
          (auto simp: read_file_def)
    qed
  qed
qed

lemma compress_returns:
  assumes "finite_stream os left"
  shows "\<exists>b w2. compress os w src_path dest_path rm = Some (b, w2)"
proof -
  obtain s w1 where s: "os_fopen os w (c_string src_path) ''rb'' = (s, w1)" by fastforce
  obtain d w2 where d: "os_gzopen os w1 (c_string dest_path) = (d, w2)" by fastforce
  show ?thesis
  proof (cases s)
    case (Some fp)
    show ?thesis
    proof (cases d)
      case (Some gz)
      obtain ok w3 where "compress_loop os w2 fp gz = Some (ok, w3)"
        using compress_loop_returns [OF assms, of w2 fp gz] by (metis prod.exhaust)
      then show ?thesis using s d Some \<open>s = Some fp\<close> by (cases ok) (auto simp: compress_def Let_def)
    qed (auto simp: compress_def s d Some)
  qed (auto simp: compress_def s)
qed

text \<open>A file system in memory whose writes are short: at most two bytes for each call.\<close>

record mem_fs =
  mf_files :: "string \<Rightarrow> byte list option"
  mf_desc :: "int \<Rightarrow> (string \<times> nat) option"
  mf_calls :: nat

definition mem_open :: "mem_fs \<Rightarrow> string \<Rightarrow> open_mode \<Rightarrow> int \<times> mem_fs" where
  "mem_open w p m =
     (case m of
        O_write_create_truncate \<Rightarrow>
          (3, w\<lparr>mf_files := (mf_files w)(p := Some []), mf_desc := (mf_desc w)(3 := Some (p, 0))\<rparr>)
      | O_write_create_append \<Rightarrow> (-1, w)
      | O_read \<Rightarrow> (case mf_files w p of None \<Rightarrow> (-1, w)
                   | Some c \<Rightarrow> (3, w\<lparr>mf_desc := (mf_desc w)(3 := Some (p, 0))\<rparr>)))"

definition mem_io :: "mem_fs \<Rightarrow> int \<Rightarrow> (string \<times> nat \<times> byte list) option" where
  "mem_io w fd = (case mf_desc w fd of None \<Rightarrow> None
     | Some (p, k) \<Rightarrow> map_option (\<lambda>c. (p, k, c)) (mf_files w p))"

definition mem_write :: "mem_fs \<Rightarrow> int \<Rightarrow> byte list \<Rightarrow> int \<times> mem_fs" where
  "mem_write w fd bs = (case mem_io w fd of None \<Rightarrow> (-1, w)
     | Some (p, k, c) \<Rightarrow> let n = min 2 (length bs) in
         (int n, w\<lparr>mf_files := (mf_files w)(p := Some (take k c @ take n bs @ drop (k + n) c)),
                   mf_desc := (mf_desc w)(fd := Some (p, k + n)), mf_calls := mf_calls w + 1\<rparr>))"

definition mem_read_fd :: "mem_fs \<Rightarrow> int \<Rightarrow> nat \<Rightarrow> int \<times> byte list \<times> mem_fs" where
  "mem_read_fd w fd n = (case mem_io w fd of None \<Rightarrow> (-1, [], w)
     | Some (p, k, c) \<Rightarrow> let bs = take n (drop k c) in
         (int (length bs), bs, w\<lparr>mf_desc := (mf_desc w)(fd := Some (p, k + length bs)), mf_calls := mf_calls w + 1\<rparr>))"

definition mem_os :: "mem_fs os" where
  "mem_os = \<lparr>os_open = mem_open,
     os_fstat = (\<lambda>w fd. case mem_io w fd of None \<Rightarrow> (-1, 0) | Some (p, k, c) \<Rightarrow> (0, int (length c))),
     os_read = mem_read_fd, os_write = mem_write, os_close = (\<lambda>w fd. w),
     os_stat = (\<lambda>w p. if mf_files w p = None then Stat_failed else Stat_regular), os_access_x = (\<lambda>w p. 0),
     os_mkdir = (\<lambda>w p. (Mkdir_failed, w\<lparr>mf_calls := mf_calls w + 1\<rparr>)),
     os_remove = (\<lambda>w p. (0, w\<lparr>mf_files := (mf_files w)(p := None)\<rparr>)), os_rmdir = (\<lambda>w p. (0, w)),
     os_rename = (\<lambda>w p p'. (0, w)), os_readdir = (\<lambda>w p. None), os_readlink = (\<lambda>w p n. (-1, [])),
     os_getenv = (\<lambda>w v. None), os_fopen = (\<lambda>w p m. (Some 7, w)),
     os_fread = (\<lambda>w s n. ([], w)), os_fwrite = (\<lambda>w s bs. (length bs, w)),
     os_fflush = (\<lambda>w s. w), os_fclose = (\<lambda>w s. w), os_gzopen = (\<lambda>w p. (Some 8, w)),
     os_gzwrite = (\<lambda>w d bs. (int (length bs), w)), os_gzclose = (\<lambda>w d. w)\<rparr>"

definition mem_start :: mem_fs where
  "mem_start = \<lparr>mf_files = (\<lambda>p. None), mf_desc = (\<lambda>fd. None), mf_calls = 0\<rparr>"

lemma take_min_drop:
  "take (min (length c - k) n) (drop k c) = take n (drop k c)"
  "take (min n (length c - k)) (drop k c) = take n (drop k c)"
  by (simp_all add: min_def)

lemma mem_os_contract: "file_contract mem_os mf_files mf_desc"
  by (auto simp: file_contract_def mem_os_def mem_open_def mem_write_def mem_read_fd_def mem_io_def Let_def
      take_min_drop split: option.splits)

lemma mem_os_cost: "call_cost mem_os mf_calls"
  by (auto simp: call_cost_def mem_os_def mem_open_def mem_write_def mem_read_fd_def Let_def
      split: option.splits open_mode.splits)

lemma mem_os_stream: "finite_stream mem_os (\<lambda>_. 0)"
  by (simp add: finite_stream_def mem_os_def)

lemma mem_os_succeeds: "opens_succeed mem_os mf_files mf_desc" "reads_succeed mem_os mf_files mf_desc"
  by (auto simp: opens_succeed_def reads_succeed_def mem_os_def mem_open_def mem_read_fd_def mem_io_def Let_def)

subsection \<open>Properties\<close>

text \<open>C21: what \<^verbatim>\<open>write_file\<close> reports as written is what \<^verbatim>\<open>read_file\<close> finds, however the operating system
  splits the writes and the reads: a return value of zero means that the file holds exactly the
  content, a failure after opening that it holds a proper prefix; a later \<^verbatim>\<open>read_file\<close> stays within
  its buffer, returns a prefix of the content and, unless a call fails, all of it.\<close>

theorem write_then_read:
  assumes "file_contract os file desc" and "write_file os w path content = (rc, w1)"
    and "0 \<le> fst (os_open os w (c_string path) O_write_create_truncate)"
  shows "(rc = 0 \<and> file w1 (c_string path) = Some content \<and>
           (\<exists>r w2 rest. read_file os w1 path = Some (r, w2) \<and> file w2 = file w1 \<and> content = r @ rest \<and>
              (opens_succeed os file desc \<and> reads_succeed os file desc \<longrightarrow> rest = []))) \<or>
         (rc = -1 \<and> (\<exists>m < length content. file w1 (c_string path) = Some (take m content)))"
proof -
  obtain fd w0 where o: "os_open os w (c_string path) O_write_create_truncate = (fd, w0)" by fastforce
  have fd: "0 \<le> fd" using assms(3) o by simp
  note op = contract_open_close(1) [OF assms(1) o fd]
  have "write_loop os w0 fd content 0 = (rc, w1)" using assms(2) o fd by (simp add: write_file_def)
  from write_loop_file [OF assms(1) _ _ _ this, of "c_string path"] op
  have "(rc = 0 \<and> file w1 (c_string path) = Some content) \<or>
        (rc = -1 \<and> (\<exists>m < length content. file w1 (c_string path) = Some (take m content)))" by auto
  then show ?thesis using read_file_spec [OF assms(1), of w1 path content] by blast
qed

theorem write_then_read_witness:
  "\<exists>w1 w2. write_file mem_os mem_start ''f'' ''hello'' = (0, w1) \<and>
     read_file mem_os w1 ''f'' = Some (''hello'', w2)"
proof -
  obtain rc w1 where w: "write_file mem_os mem_start ''f'' ''hello'' = (rc, w1)" by fastforce
  have o: "0 \<le> fst (os_open mem_os mem_start (c_string ''f'') O_write_create_truncate)"
    by (simp add: mem_os_def mem_open_def)
  have "rc = 0" using w
    by (simp add: write_file_def mem_os_def mem_start_def mem_open_def write_loop.simps mem_write_def
        mem_io_def c_string_def)
  with write_then_read [OF mem_os_contract w o] mem_os_succeeds w show ?thesis by auto
qed



end
