(* ===== verification/Sink_Files.thy ===== *)
theory Sink_Files
  imports Sinks File_Ops
begin

text \<open>
  How \<^verbatim>\<open>FileSink\<close> and \<^verbatim>\<open>JsonLinesSink\<close> open their file: the constructors under
  \<^verbatim>\<open>src/src/include/femtolog/sinks/\<close>, which create the directory, move an existing log into a
  compressed archive with a fresh name and open a new log for appending. The text of the time
  stamp comes from the fmt library and the clock and is a parameter.
\<close>



definition archive_name :: "string \<Rightarrow> string \<Rightarrow> string \<Rightarrow> nat \<Rightarrow> string" where
  "archive_name stem timestamp extension counter =
     (let compressed_file_name = stem @ ''_'' @ timestamp;
          compressed_file_name =
            (if 0 < counter then compressed_file_name @ ''-'' @ decimal counter else compressed_file_name)
      in compressed_file_name @ ''.'' @ extension @ ''.gz'')"

definition archive_path :: "string \<Rightarrow> string \<Rightarrow> nat \<Rightarrow> string" where
  "archive_path file_path timestamp counter =
     join_path [parent_dir file_path,
       archive_name (file_name_without_extension file_path) timestamp (file_extension file_path) counter]"

text \<open>The \<^verbatim>\<open>do\<close> loop over the counter; it need not end, and then its value is \<open>None\<close>.\<close>

partial_function (option) archive_search ::
  "'w os \<Rightarrow> 'w \<Rightarrow> string \<Rightarrow> string \<Rightarrow> nat \<Rightarrow> string option" where
  "archive_search os w file_path timestamp counter =
     (let dest_path = archive_path file_path timestamp counter
      in if file_exists os w dest_path then archive_search os w file_path timestamp (counter + 1)
         else Some dest_path)"

definition prepare_directory :: "'w os \<Rightarrow> 'w \<Rightarrow> string \<Rightarrow> 'w" where
  "prepare_directory os w file_path =
     (let dir = parent_dir file_path
      in if \<not> dir_exists os w dir then snd (create_directories os w dir) else w)"

definition archive_log :: "'w os \<Rightarrow> 'w \<Rightarrow> string \<Rightarrow> string \<Rightarrow> 'w option" where
  "archive_log os w timestamp file_path =
     (if file_exists os w file_path then do {
        dest_path \<leftarrow> archive_search os w file_path timestamp 0;
        (ok, w) \<leftarrow> compress os w file_path dest_path True;
        Some w
      } else Some w)"

definition open_log_file :: "'w os \<Rightarrow> 'w \<Rightarrow> string \<Rightarrow> string \<Rightarrow> (int \<times> 'w) option" where
  "open_log_file os w timestamp file_path = do {
     w \<leftarrow> archive_log os (prepare_directory os w file_path) timestamp file_path;
     let (rc, w) = create_file os w file_path;
     Some (os_open os w (c_string file_path) O_write_create_append)
   }"

definition file_sink_new :: "'w os \<Rightarrow> 'w \<Rightarrow> string \<Rightarrow> string \<Rightarrow> (file_sink \<times> 'w) option" where
  "file_sink_new os w timestamp file_path = do {
     (fd, w) \<leftarrow> open_log_file os w timestamp file_path;
     Some (file_new fd, w)
   }"

definition file_sink_default_path :: "'w os \<Rightarrow> 'w \<Rightarrow> string" where
  "file_sink_default_path os w = join_path [exe_dir os w, ''logs'', ''latest.log'']"

definition json_sink_new :: "'w os \<Rightarrow> 'w \<Rightarrow> bool \<Rightarrow> string \<Rightarrow> string \<Rightarrow> (json_sink \<times> 'w) option" where
  "json_sink_new os w enable_buffering timestamp file_path = do {
     (fd, w) \<leftarrow> open_log_file os w timestamp file_path;
     Some (json_new enable_buffering fd, w)
   }"

definition json_sink_default_path :: "'w os \<Rightarrow> 'w \<Rightarrow> string" where
  "json_sink_default_path os w = join_path [exe_dir os w, ''logs'', ''jsonl'', ''latest.jsonl'']"

subsection \<open>Lemmas\<close>

lemma archive_search_spec:
  assumes "\<not> file_exists os w (archive_path p ts (c + n))"
  shows "\<exists>k \<le> n. archive_search os w p ts c = Some (archive_path p ts (c + k)) \<and>
           \<not> file_exists os w (archive_path p ts (c + k)) \<and>
           (\<forall>j < k. file_exists os w (archive_path p ts (c + j)))"
  using assms
proof (induction n arbitrary: c)
  case 0
  then show ?case by (subst archive_search.simps) simp
next
  case (Suc n)
  show ?case
  proof (cases "file_exists os w (archive_path p ts c)")
    case True
    from Suc.IH [of "c + 1"] Suc.prems obtain k where k: "k \<le> n"
      "archive_search os w p ts (c + 1) = Some (archive_path p ts (c + 1 + k))"
      "\<not> file_exists os w (archive_path p ts (c + 1 + k))"
      "\<forall>j < k. file_exists os w (archive_path p ts (c + 1 + j))" by auto
    have "file_exists os w (archive_path p ts (c + j))" if "j < Suc k" for j
      using that k(4) True by (cases j) auto
    then show ?thesis using k True
      by (intro exI [of _ "Suc k"]) (subst archive_search.simps, simp)
  next
    case False
    then show ?thesis by (intro exI [of _ 0]) (subst archive_search.simps, simp)
  qed
qed

text \<open>Once its streams are open, \<^verbatim>\<open>compress\<close> takes a failed read for the end of the file: the source is
  removed although nothing of it was copied.\<close>

lemma compress_read_error:
  assumes "os_fopen os w (c_string src_path) ''rb'' = (Some src, w1)"
    and "os_gzopen os w1 (c_string dest_path) = (Some dst, w2)"
    and "os_fread os w2 src kBufSize = ([], w3)"
  shows "compress os w src_path dest_path True =
           Some (True, snd (os_remove os (os_fclose os (os_gzclose os w3 dst) src) (c_string src_path)))"
  using assms by (simp add: compress_def compress_loop.simps Let_def)

subsection \<open>Properties\<close>

text \<open>C24: a sink never archives over an existing file. Whenever some counter value gives a name that
  is free, the search for the archive name ends, at the first such value; opening the log then
  compresses the old log into that name, and into no other.\<close>

theorem archive_name_fresh:
  assumes "\<not> file_exists os w (archive_path file_path timestamp n)" and "file_exists os w file_path"
  shows "\<exists>k \<le> n. \<not> file_exists os w (archive_path file_path timestamp k) \<and>
           (\<forall>j < k. file_exists os w (archive_path file_path timestamp j)) \<and>
           archive_log os w timestamp file_path =
             map_option snd (compress os w file_path (archive_path file_path timestamp k) True)"
proof -
  from archive_search_spec [of os w file_path timestamp 0 n] assms(1) obtain k where k: "k \<le> n"
    "archive_search os w file_path timestamp 0 = Some (archive_path file_path timestamp k)"
    "\<not> file_exists os w (archive_path file_path timestamp k)"
    "\<forall>j < k. file_exists os w (archive_path file_path timestamp j)" by auto
  have "archive_log os w timestamp file_path =
      map_option snd (compress os w file_path (archive_path file_path timestamp k) True)"
    using k(2) assms(2)
    by (cases "compress os w file_path (archive_path file_path timestamp k) True")
      (auto simp: archive_log_def)
  then show ?thesis using k by blast
qed

definition logged_fs :: mem_fs where
  "logged_fs = mem_start\<lparr>mf_files := [''d/a.log'' \<mapsto> ''old'', ''d/a_T.log.gz'' \<mapsto> ''zip'']\<rparr>"

theorem archive_name_fresh_witness:
  "archive_log mem_os logged_fs ''T'' ''d/a.log'' =
     map_option snd (compress mem_os logged_fs ''d/a.log'' ''d/a_T-1.log.gz'' True)"
proof -
  have p: "archive_path ''d/a.log'' ''T'' 0 = ''d/a_T.log.gz''"
    "archive_path ''d/a.log'' ''T'' (Suc 0) = ''d/a_T-1.log.gz''"
    by (simp_all add: archive_path_def archive_name_def join_path_def sanitize_component_def
        file_name_without_extension_def file_extension_def parent_dir_def c_string_def
        FEMTOLOG_DIR_SEPARATOR_def decimal.simps)
  have ex: "file_exists mem_os logged_fs ''d/a.log''" "file_exists mem_os logged_fs ''d/a_T.log.gz''"
    "\<not> file_exists mem_os logged_fs ''d/a_T-1.log.gz''"
    by (simp_all add: file_exists_def mem_os_def logged_fs_def mem_start_def c_string_def)
  have "\<not> file_exists mem_os logged_fs (archive_path ''d/a.log'' ''T'' (Suc 0))" using ex p by simp
  from archive_name_fresh [OF this ex(1)] obtain k where k: "k \<le> Suc 0"
    "\<not> file_exists mem_os logged_fs (archive_path ''d/a.log'' ''T'' k)"
    "archive_log mem_os logged_fs ''T'' ''d/a.log'' =
      map_option snd (compress mem_os logged_fs ''d/a.log'' (archive_path ''d/a.log'' ''T'' k) True)" by blast
  have "k = Suc 0" using k(1,2) ex(2) p(1) by (cases k) auto
  then show ?thesis using k(3) p(2) by simp
qed

end
