(* ===== verification/Internal_Logger.thy ===== *)
theory Internal_Logger
  imports Backend_Worker
begin

text \<open>
  The producer side, \<^verbatim>\<open>src/src/include/femtolog/logging/impl/internal_logger.h\<close> and
  \<^verbatim>\<open>src/src/logging/impl/internal_logger.cc\<close>, and the public \<^verbatim>\<open>Logger\<close> that forwards to it. A call that
  ends in \<^verbatim>\<open>std::terminate\<close> is the outcome \<open>Terminated\<close>.
\<close>

record 's internal_logger =
  il_level :: log_level
  il_thread_id :: u32
  il_enqueued_count :: size_t
  il_dropped_count :: size_t
  il_string_registry :: string_registry
  il_serializer :: serialized_args
  il_queue :: spsc_queue
  il_entry_buffer :: "byte list"
  il_backend :: "'s backend_worker"
  il_terminate_on_fatal :: bool

datatype 'a outcome = Returned 'a | Terminated 'a

definition current_thread_id :: "u64 \<Rightarrow> u32" where
  "current_thread_id hash_val = ucast hash_val OR 1"

definition internal_logger_new :: "nat \<Rightarrow> u64 \<Rightarrow> 's internal_logger" where
  "internal_logger_new inline_size tid_hash = \<lparr>il_level = kInfo, il_thread_id = current_thread_id tid_hash,
     il_enqueued_count = 0, il_dropped_count = 0, il_string_registry = registry_new,
     il_serializer = \<lparr>sa_buffer = replicate 2048 (CHR 0x00), sa_size = 0\<rparr>, il_queue = spsc_new,
     il_entry_buffer = replicate (sizeof_LogEntry + kMaxPayloadSize) (CHR 0x00),
     il_backend = backend_new inline_size, il_terminate_on_fatal = True\<rparr>"

definition internal_logger_init ::
  "memalign \<Rightarrow> (byte list \<Rightarrow> nat \<Rightarrow> byte list) \<Rightarrow> femtolog_options \<Rightarrow> 's internal_logger \<Rightarrow>
   's internal_logger option" where
  "internal_logger_init pm fmt_reserve options l = do {
     q \<leftarrow> spsc_reserve pm (il_queue l) (opt_spsc_queue_size options);
     let l = l\<lparr>il_queue := q\<rparr>;
     let l = (if bw_status (il_backend l) = Bw_kUninitialized
              then l\<lparr>il_backend := backend_init fmt_reserve options (il_backend l)\<rparr> else l);
     Some (l\<lparr>il_terminate_on_fatal := opt_terminate_on_fatal options\<rparr>)
   }"

definition logger_register_sink :: "'s internal_logger \<Rightarrow> 's \<Rightarrow> 's internal_logger" where
  "logger_register_sink l s = l\<lparr>il_backend := register_sink (il_backend l) s\<rparr>"

definition logger_clear_sinks ::
  "('s \<Rightarrow> 's option) \<Rightarrow> 's internal_logger \<Rightarrow> ('s internal_logger \<times> 's list) option" where
  "logger_clear_sinks destroy l = do {
     (w, destroyed) \<leftarrow> clear_sinks destroy (il_backend l);
     Some (l\<lparr>il_backend := w\<rparr>, destroyed)
   }"

definition start_worker :: "'s internal_logger \<Rightarrow> 's internal_logger option" where
  "start_worker l = do { w \<leftarrow> backend_start (il_backend l); Some (l\<lparr>il_backend := w\<rparr>) }"

definition stop_worker :: "'s env \<Rightarrow> 's internal_logger \<Rightarrow> 's internal_logger option" where
  "stop_worker env l = do {
     (w, q) \<leftarrow> backend_stop env (il_backend l, il_queue l);
     Some (l\<lparr>il_backend := w, il_queue := q\<rparr>)
   }"

definition logger_flush :: "'s env \<Rightarrow> 's internal_logger \<Rightarrow> 's internal_logger option" where
  "logger_flush env l = do {
     (w, q) \<leftarrow> backend_flush env (il_backend l, il_queue l);
     Some (l\<lparr>il_backend := w, il_queue := q\<rparr>)
   }"

text \<open>The destructor, with that of the member \<^verbatim>\<open>backend_worker_\<close>: what becomes of the sinks.\<close>

definition internal_logger_destroy ::
  "'s env \<Rightarrow> ('s \<Rightarrow> 's option) \<Rightarrow> 's internal_logger \<Rightarrow> 's list option" where
  "internal_logger_destroy env destroy l = do {
     l \<leftarrow> (if bw_status (il_backend l) = Bw_kRunning then stop_worker env l else Some l);
     backend_destroy env destroy (il_backend l, il_queue l)
   }"

definition reset_count :: "'s internal_logger \<Rightarrow> 's internal_logger" where
  "reset_count l = l\<lparr>il_enqueued_count := 0, il_dropped_count := 0\<rparr>"

definition set_level :: "log_level \<Rightarrow> 's internal_logger \<Rightarrow> 's internal_logger" where
  "set_level lvl l = l\<lparr>il_level := lvl\<rparr>"

text \<open>\<^verbatim>\<open>Logger::level(const char*)\<close>: an unknown name leaves the level alone.\<close>

definition set_level_str :: "string \<Rightarrow> 's internal_logger \<Rightarrow> 's internal_logger" where
  "set_level_str level_str l =
     (let new_level = log_level_from_string level_str
      in if new_level \<noteq> kUnknownLevel then set_level new_level l else l)"

subsection \<open>Logging\<close>

definition enqueue_log_entry :: "'s env \<Rightarrow> 's internal_logger \<Rightarrow> 's internal_logger outcome option" where
  "enqueue_log_entry env l = do {
     entry \<leftarrow> entry_fields (il_entry_buffer l);
     bytes \<leftarrow> mem_read (il_entry_buffer l) 0 (unat (entry_total_size entry));
     (result, q) \<leftarrow> spsc_enqueue_bytes (il_queue l) bytes;
     let l = l\<lparr>il_queue := q\<rparr>;
     let l = (if result = Spsc_kOk then l\<lparr>il_enqueued_count := il_enqueued_count l + 1\<rparr>
              else l\<lparr>il_dropped_count := il_dropped_count l + 1\<rparr>);
     if e_level entry = kFatal \<and> il_terminate_on_fatal l
     then do {
       (w, q) \<leftarrow> backend_stop env (il_backend l, il_queue l);
       Some (Terminated (l\<lparr>il_backend := w, il_queue := q\<rparr>))
     }
     else Some (Returned l)
   }"

definition drop_entry :: "'s internal_logger \<Rightarrow> 's internal_logger" where
  "drop_entry l = l\<lparr>il_dropped_count := il_dropped_count l + 1\<rparr>"

definition log_literal ::
  "'s env \<Rightarrow> log_level \<Rightarrow> string \<Rightarrow> 's internal_logger \<Rightarrow> 's internal_logger outcome option" where
  "log_literal env level message l =
     (if length message \<ge> kMaxPayloadSize then Some (Returned (drop_entry l))
      else do {
        b \<leftarrow> entry_create (il_entry_buffer l) (il_thread_id l) kLiteralLogStringId level 0 message;
        enqueue_log_entry env (l\<lparr>il_entry_buffer := b\<rparr>)
      })"

definition log_serialized ::
  "'s env \<Rightarrow> log_level \<Rightarrow> u16 \<Rightarrow> 's internal_logger \<Rightarrow> 's internal_logger outcome option" where
  "log_serialized env level format_id l =
     (let sa = il_serializer l; n = unat (sa_size sa) in
      if n \<ge> kMaxPayloadSize \<or> n = 0 then Some (Returned (drop_entry l))
      else do {
        data \<leftarrow> mem_read (sa_buffer sa) 0 n;
        b \<leftarrow> entry_create (il_entry_buffer l) (il_thread_id l) format_id level 0 data;
        enqueue_log_entry env (l\<lparr>il_entry_buffer := b\<rparr>)
      })"

text \<open>
  \<^verbatim>\<open>log<level, fmt, ref_mode>(args...)\<close>. The addresses of the two functions the call site is
  instantiated with are its arguments \<open>ff\<close> and \<open>df\<close>. The two branches of the level test only differ
  in the branch hint.
\<close>

definition log_call ::
  "'s env \<Rightarrow> log_level \<Rightarrow> string \<Rightarrow> bool \<Rightarrow> u64 \<Rightarrow> u64 \<Rightarrow> (cxx_type \<times> arg_value) list \<Rightarrow>
   's internal_logger \<Rightarrow> 's internal_logger outcome option" where
  "log_call env level fmt ref_mode ff df args l =
     (if level > il_level l then Some (Returned l)
      else if bw_status (il_backend l) \<noteq> Bw_kRunning then Some (Returned l)
      else if args = [] then log_literal env level fmt l
      else do {
        let format_id = get_string_id fmt;
        let l = l\<lparr>il_string_registry := register_fixed_string (il_string_registry l) fmt\<rparr>;
        sa \<leftarrow> serialize ref_mode ff df args (il_serializer l);
        log_serialized env level format_id (l\<lparr>il_serializer := sa\<rparr>)
      })"

subsection \<open>The public interface\<close>

datatype log_method = Log_raw | Log_fatal | Log_error | Log_warn | Log_info | Log_debug | Log_trace

fun method_level :: "log_method \<Rightarrow> log_level" where
  "method_level Log_raw = kRaw"
| "method_level Log_fatal = kFatal"
| "method_level Log_error = kError"
| "method_level Log_warn = kWarn"
| "method_level Log_info = kInfo"
| "method_level Log_debug = kDebug"
| "method_level Log_trace = kTrace"

definition logger_method ::
  "'s env \<Rightarrow> log_method \<Rightarrow> string \<Rightarrow> u64 \<Rightarrow> u64 \<Rightarrow> (cxx_type \<times> arg_value) list \<Rightarrow>
   's internal_logger \<Rightarrow> 's internal_logger outcome option" where
  "logger_method env m fmt = log_call env (method_level m) fmt False"

definition logger_method_ref ::
  "'s env \<Rightarrow> log_method \<Rightarrow> string \<Rightarrow> u64 \<Rightarrow> u64 \<Rightarrow> (cxx_type \<times> arg_value) list \<Rightarrow>
   's internal_logger \<Rightarrow> 's internal_logger outcome option" where
  "logger_method_ref env m fmt = log_call env (method_level m) fmt True"

subsection \<open>What a call site promises\<close>

text \<open>
  The arguments are of the kinds the codec carries, the addresses are those of the functions the
  call site was instantiated with, referenced strings are intact, and the text fits the format
  buffer.
\<close>

definition call_ok ::
  "'s env \<Rightarrow> nat \<Rightarrow> string \<Rightarrow> bool \<Rightarrow> u64 \<Rightarrow> u64 \<Rightarrow> (cxx_type \<times> arg_value) list \<Rightarrow> bool" where
  "call_ok env fcap fmt ref_mode ff df args \<longleftrightarrow> list_all plain_arg args \<and>
     (args \<noteq> [] \<longrightarrow>
       ff \<noteq> 0 \<and> df \<noteq> 0 \<and> env_format_func env ff = Some fmt \<and>
       env_deserialize_func env df = Some (ref_mode, map fst args) \<and>
       (length args < 5 \<or> env_order env (length args) = [0..<length args]) \<and>
       (ref_mode \<longrightarrow> (\<forall>T p s. (T, V_text p s) \<in> set args \<longrightarrow> env_mem env p (length s) = Some s)) \<and>
       (if ref_mode then 16 + length (enc_args True args) \<le> 2048
        else 16 + length (enc_args False args) < 2 ^ 64) \<and>
       length (env_vformat env fmt (map fmt_value args)) \<le> fcap)"

definition call_text :: "'s env \<Rightarrow> string \<Rightarrow> (cxx_type \<times> arg_value) list \<Rightarrow> string" where
  "call_text env fmt args = (if args = [] then fmt else env_vformat env fmt (map fmt_value args))"

definition call_payload :: "string \<Rightarrow> bool \<Rightarrow> u64 \<Rightarrow> u64 \<Rightarrow> (cxx_type \<times> arg_value) list \<Rightarrow> byte list" where
  "call_payload fmt ref_mode ff df args =
     (if args = [] then fmt else args_header ff df @ enc_args ref_mode args)"

definition call_format_id :: "string \<Rightarrow> (cxx_type \<times> arg_value) list \<Rightarrow> u16" where
  "call_format_id fmt args = (if args = [] then kLiteralLogStringId else get_string_id fmt)"

definition logger_inv :: "'s internal_logger \<Rightarrow> bool" where
  "logger_inv l \<longleftrightarrow> length (il_entry_buffer l) = 1024 \<and> length (sa_buffer (il_serializer l)) = 2048 \<and>
     spsc_inv (il_queue l)"

subsection \<open>Lemmas\<close>

lemma framed_image:
  assumes "length pad = 7" "length p < 1000"
  shows "framed (entry_image tid fid l ts pad p)"
proof -
  have "take 2 (entry_image tid fid l ts pad p) = le_enc 2 (length p)" by (simp add: entry_image_def)
  moreover have "length p < 256 ^ 2" using assms(2) by simp
  ultimately have "le_dec (take 2 (entry_image tid fid l ts pad p)) = length p"
    by (simp add: le_dec_le_enc_id)
  then show ?thesis using assms by (simp add: framed_def sizeof_LogEntry_def kMaxPayloadSize_def)
qed

lemma image_fields:
  assumes "length p < 1000"
  shows "entry_fields (entry_image tid fid l ts pad p) =
           Some \<lparr>e_payload_len = of_nat (length p), e_format_id = fid, e_thread_id = tid,
                 e_timestamp_ns = ts, e_level = l\<rparr>"
  using entry_fields_image [of p tid fid l ts pad "[]"] assms by simp

lemma formatted_message_image:
  assumes pad: "length pad = 7" and p: "p = args_header ff df @ enc_args m args"
    and ok: "call_ok env fcap fmt m ff df args" "args \<noteq> []"
  shows "formatted_message env (entry_image tid fid l ts pad p) = Some (env_vformat env fmt (map fmt_value args))"
proof -
  let ?r = "entry_image tid fid l ts pad p"
  have d: "drop 24 ?r = p" using pad by (simp add: entry_image_def)
  have len: "40 \<le> length ?r" using pad p by simp
  have f: "mem_read ?r 24 8 = Some (le_enc 8 (unat ff))"
    using len d by (simp add: mem_read_def p args_header_def)
  have dd: "drop 32 xs = drop 8 (drop 24 xs)" "drop 40 xs = drop 16 (drop 24 xs)" for xs :: "byte list" by simp_all
  have "drop 32 ?r = drop 8 p" unfolding dd d ..
  then have df: "mem_read ?r 32 8 = Some (le_enc 8 (unat df))"
    using len by (simp add: mem_read_def p args_header_def)
  have "drop 40 ?r = drop 16 p" unfolding dd d ..
  then have d40: "drop 40 ?r = enc_args m args" by (simp add: p)
  have b: "unat ff < 256 ^ 8" "unat df < 256 ^ 8"
    using unsigned_less [of ff, where 'a = nat] unsigned_less [of df, where 'a = nat] by simp_all
  have plain: "list_all plain_arg args" using ok by (simp add: call_ok_def)
  have o: "length args < 5 \<or> env_order env (length args) = [0..<length args]" using ok by (simp add: call_ok_def)
  have vs: "deserialize_args (env_order env (length args)) m (map fst args) (enc_args m args) =
      Some (map (delivered m \<circ> snd) args)"
    using deserialize_args_seq [OF plain ok(2) o, of m "[]"] by simp
  have as: "make_format_args (env_mem env) (map decay (map fst args)) (map (delivered m \<circ> snd) args) =
      Some (map fmt_value args)"
    by (rule make_format_args_plain [OF plain]) (use ok in \<open>auto simp: call_ok_def\<close>)
  have nz: "unat ff \<noteq> 0" "unat df \<noteq> 0" using ok by (simp_all add: call_ok_def unat_eq_zero)
  show ?thesis
    using f df d40 vs as nz ok
    by (simp add: formatted_message_def sizeof_LogEntry_def le_dec_le_enc_id [OF b(1)] le_dec_le_enc_id [OF b(2)]
          call_ok_def)
qed

lemma image_ready:
  assumes pad: "length pad = 7" and ok: "call_ok env fcap fmt m ff df args"
    and len: "length (call_payload fmt m ff df args) < 1000"
  shows "ready env fcap (entry_image tid (call_format_id fmt args) l ts pad (call_payload fmt m ff df args)) \<and>
     message_of env (entry_image tid (call_format_id fmt args) l ts pad (call_payload fmt m ff df args)) =
       Some (call_text env fmt args)"
proof -
  let ?p = "call_payload fmt m ff df args" and ?fid = "call_format_id fmt args"
  let ?r = "entry_image tid ?fid l ts pad ?p"
  note fr = framed_image [OF pad len, of tid ?fid l ts] and e = image_fields [OF len, of tid ?fid l ts pad]
  have "message_of env ?r = Some (call_text env fmt args)"
  proof (cases "args = []")
    case True
    then show ?thesis using e message_view_image [OF pad, of ?p tid ?fid l ts "[]"] len
      by (simp add: message_of_def call_format_id_def call_payload_def call_text_def)
  next
    case False
    then have "?fid \<noteq> kLiteralLogStringId" using get_string_id_not_literal by (simp add: call_format_id_def)
    then show ?thesis using e False formatted_message_image [OF pad _ ok False, of ?p]
      by (simp add: message_of_def call_payload_def call_text_def)
  qed
  moreover have "?fid \<noteq> kLiteralLogStringId \<longrightarrow> length (call_text env fmt args) \<le> fcap"
    using ok by (auto simp: call_format_id_def call_text_def call_ok_def)
  ultimately show ?thesis using fr e by (simp add: ready_def)
qed

text \<open>A logger in service whose queue has four bytes.\<close>

definition demo_logger :: "unit internal_logger" where
  "demo_logger = (internal_logger_new 0 0)\<lparr>il_queue := idle_queue,
     il_backend := (backend_new 0)\<lparr>bw_thread := Some W_check, bw_status := Bw_kRunning\<rparr>\<rparr>"

definition queue1024 :: spsc_queue where
  "queue1024 = \<lparr>sq_buffer = Some (replicate 1024 (CHR 0x00)), sq_capacity = 1024, sq_mask = 1023,
     sq_tail_idx = 0, sq_tail_cached = 0, sq_head_cached_snapshot = 0, sq_head_idx = 0, sq_head_cached = 0,
     sq_tail_cached_snapshot = 0, sq_allocation_size = 1024\<rparr>"

definition small_logger :: "unit internal_logger" where
  "small_logger = (internal_logger_new 0 0)\<lparr>il_queue := queue1024,
     il_backend := (backend_init (\<lambda>b n. b) kMemorySavingOptions (backend_new 0))
       \<lparr>bw_status := Bw_kRunning, bw_thread := Some W_check\<rparr>\<rparr>"

lemma queue1024_ok: "spsc_inv queue1024" "spsc_contents queue1024 = []" "spsc_cap queue1024 = 1024"
  by (auto simp: queue1024_def spsc_inv_def spsc_contents_def spsc_cap_def ring_read_def ring_capacity_def
        intro!: bexI [of _ 10])

definition counted :: "bool \<Rightarrow> 's internal_logger \<Rightarrow> 's internal_logger" where
  "counted ok l = (if ok then l\<lparr>il_enqueued_count := il_enqueued_count l + 1\<rparr> else drop_entry l)"

text \<open>How a call ends that has offered its record: a fatal one stops the worker and terminates.\<close>

definition settle :: "'s env \<Rightarrow> log_level \<Rightarrow> 's internal_logger \<Rightarrow> 's internal_logger outcome option" where
  "settle env level l =
     (if level = kFatal \<and> il_terminate_on_fatal l then map_option Terminated (stop_worker env l)
      else Some (Returned l))"

lemma settle_returns: "\<not> (level = kFatal \<and> il_terminate_on_fatal l) \<Longrightarrow> settle env level l = Some (Returned l)"
  by (auto simp: settle_def)

lemma enqueue_entry:
  assumes b: "il_entry_buffer l = entry_image tid fid level 0 pad p @ rest" "length pad = 7" "length p < 1000"
    and inv: "spsc_inv (il_queue l)"
    and ok: "ok \<longleftrightarrow> length (spsc_contents (il_queue l)) + (24 + length p) \<le> spsc_cap (il_queue l)"
  shows "\<exists>q. enqueue_log_entry env l = settle env level (counted ok (l\<lparr>il_queue := q\<rparr>)) \<and> spsc_inv q \<and>
           spsc_cap q = spsc_cap (il_queue l) \<and>
           spsc_contents q = spsc_contents (il_queue l) @ (if ok then entry_image tid fid level 0 pad p else [])"
proof -
  let ?r = "entry_image tid fid level 0 pad p"
  let ?e = "\<lparr>e_payload_len = of_nat (length p), e_format_id = fid, e_thread_id = tid,
      e_timestamp_ns = 0, e_level = level\<rparr>"
  have p16: "length p < 2 ^ 16" using b(3) by simp
  have e: "entry_fields (il_entry_buffer l) = Some ?e" unfolding b(1) by (rule entry_fields_image [OF p16])
  have n: "unat (entry_total_size ?e) = length ?r"
    unfolding entry_total_size_image [OF p16] using b(2,3) by (simp add: unat_of_nat del: of_nat_add)
  have rd: "mem_read (il_entry_buffer l) 0 (length ?r) = Some ?r" by (simp add: b(1) mem_read_def)
  have r: "?r \<noteq> []" "length ?r < 2 ^ 64" "length ?r = 24 + length p"
    using b(2,3) by (auto simp: entry_image_def)
  obtain st q where q: "spsc_enqueue_bytes (il_queue l) ?r = Some (st, q)" "spsc_inv q"
      "spsc_cap q = spsc_cap (il_queue l)"
      "spsc_contents q = spsc_contents (il_queue l) @ (if st = Spsc_kOk then ?r else [])"
      "st = Spsc_kOk \<longleftrightarrow> ok"
    using spsc.enq_total [OF inv r(1,2)] r(3) ok by auto
  have st: "enqueue_log_entry env l = (let l = counted ok (l\<lparr>il_queue := q\<rparr>) in
      if level = kFatal \<and> il_terminate_on_fatal l
      then do { (w, q) \<leftarrow> backend_stop env (il_backend l, il_queue l);
                Some (Terminated (l\<lparr>il_backend := w, il_queue := q\<rparr>)) }
      else Some (Returned l))"
    using e n rd q(1,5) by (auto simp: enqueue_log_entry_def counted_def drop_entry_def Let_def)
  have "enqueue_log_entry env l = settle env level (counted ok (l\<lparr>il_queue := q\<rparr>))"
    unfolding st settle_def stop_worker_def Let_def by (auto split: bind_splits)
  then show ?thesis using q(2-5) by auto
qed

lemma entry_create_1024:
  assumes "length buf = 1024" "length p < 1000"
  shows "\<exists>pad rest. entry_create buf tid fid l ts p = Some (entry_image tid fid l ts pad p @ rest) \<and>
           length pad = 7 \<and> length (entry_image tid fid l ts pad p @ rest) = 1024"
proof -
  have "sizeof_LogEntry + length p \<le> length buf" "length p < 2 ^ 16" using assms by (simp_all add: sizeof_LogEntry_def)
  from entry_create_image [OF this] show ?thesis using assms
    by (intro exI [of _ "take 7 (drop 17 buf)"] exI [of _ "drop (24 + length p) buf"]) simp
qed

text \<open>A record the producer has just offered: accepted if the queue has room for it.\<close>

definition offered ::
  "'s internal_logger \<Rightarrow> log_level \<Rightarrow> u16 \<Rightarrow> byte list \<Rightarrow> 's internal_logger \<Rightarrow> bool" where
  "offered l level fid p l' \<longleftrightarrow>
     (let ok = (length p < 1000 \<and> length (spsc_contents (il_queue l)) + (24 + length p) \<le> spsc_cap (il_queue l)) in
      logger_inv l' \<and> il_backend l' = il_backend l \<and> il_level l' = il_level l \<and>
      il_thread_id l' = il_thread_id l \<and> il_terminate_on_fatal l' = il_terminate_on_fatal l \<and>
      spsc_cap (il_queue l') = spsc_cap (il_queue l) \<and>
      il_enqueued_count l' = il_enqueued_count l + (if ok then 1 else 0) \<and>
      il_dropped_count l' = il_dropped_count l + (if ok then 0 else 1) \<and>
      (if ok then \<exists>pad. length pad = 7 \<and> spsc_contents (il_queue l') =
                    spsc_contents (il_queue l) @ entry_image (il_thread_id l) fid level 0 pad p
       else spsc_contents (il_queue l') = spsc_contents (il_queue l)))"

lemma offer_entry:
  assumes inv: "logger_inv l" and p: "length p < 1000"
  shows "\<exists>l'. (do { b \<leftarrow> entry_create (il_entry_buffer l) (il_thread_id l) fid level 0 p;
                 enqueue_log_entry env (l\<lparr>il_entry_buffer := b\<rparr>) }) = settle env level l' \<and>
           offered l level fid p l'"
proof -
  obtain pad rest where c: "entry_create (il_entry_buffer l) (il_thread_id l) fid level 0 p =
      Some (entry_image (il_thread_id l) fid level 0 pad p @ rest)" "length pad = 7"
      "length (entry_image (il_thread_id l) fid level 0 pad p @ rest) = 1024"
    using entry_create_1024 [OF _ p, of "il_entry_buffer l"] inv unfolding logger_inv_def by blast
  let ?b = "entry_image (il_thread_id l) fid level 0 pad p @ rest"
  let ?ok = "length (spsc_contents (il_queue l)) + (24 + length p) \<le> spsc_cap (il_queue l)"
  have "spsc_inv (il_queue (l\<lparr>il_entry_buffer := ?b\<rparr>))" using inv by (simp add: logger_inv_def)
  then obtain q where q: "enqueue_log_entry env (l\<lparr>il_entry_buffer := ?b\<rparr>) =
        settle env level (counted ?ok (l\<lparr>il_entry_buffer := ?b, il_queue := q\<rparr>))" "spsc_inv q"
      "spsc_cap q = spsc_cap (il_queue l)" "spsc_contents q = spsc_contents (il_queue l) @
        (if ?ok then entry_image (il_thread_id l) fid level 0 pad p else [])"
    using enqueue_entry [of "l\<lparr>il_entry_buffer := ?b\<rparr>" "il_thread_id l" fid level pad p rest ?ok env] c p by auto
  show ?thesis
  proof (intro exI conjI)
    show "(do { b \<leftarrow> entry_create (il_entry_buffer l) (il_thread_id l) fid level 0 p;
        enqueue_log_entry env (l\<lparr>il_entry_buffer := b\<rparr>) }) =
        settle env level (counted ?ok (l\<lparr>il_entry_buffer := ?b, il_queue := q\<rparr>))"
      using c(1) q(1) by simp
    show "offered l level fid p (counted ?ok (l\<lparr>il_entry_buffer := ?b, il_queue := q\<rparr>))"
      using q(2-4) c(2,3) p inv by (auto simp: offered_def counted_def drop_entry_def logger_inv_def Let_def)
  qed
qed

lemma dropped_offer:
  assumes "logger_inv l" "1000 \<le> length p"
  shows "offered l level fid p (drop_entry l)"
  using assms by (simp add: offered_def drop_entry_def logger_inv_def)

lemma offered_registry [simp]:
  "offered (l\<lparr>il_string_registry := r, il_serializer := sa\<rparr>) level fid p l' = offered l level fid p l'"
  by (simp add: offered_def)

lemma log_serialized_offer:
  assumes inv: "logger_inv l"
    and sa: "(sa_size (il_serializer l) = 0 \<and> 1000 \<le> length p) \<or>
      (unat (sa_size (il_serializer l)) = length p \<and> p \<noteq> [] \<and>
       length p \<le> length (sa_buffer (il_serializer l)) \<and> take (length p) (sa_buffer (il_serializer l)) = p)"
  shows "\<exists>l'. log_serialized env level fid l =
           (if 1000 \<le> length p then Some (Returned l') else settle env level l') \<and> offered l level fid p l'"
proof (cases "1000 \<le> length p")
  case True
  then have "log_serialized env level fid l = Some (Returned (drop_entry l))"
    using sa by (auto simp: log_serialized_def Let_def kMaxPayloadSize_def sizeof_LogEntry_def)
  then show ?thesis using dropped_offer [OF inv True] True by auto
next
  case False
  then have s: "unat (sa_size (il_serializer l)) = length p" "p \<noteq> []"
      "mem_read (sa_buffer (il_serializer l)) 0 (length p) = Some p"
    using sa by (auto simp: mem_read_def)
  then have "log_serialized env level fid l =
      (do { b \<leftarrow> entry_create (il_entry_buffer l) (il_thread_id l) fid level 0 p;
            enqueue_log_entry env (l\<lparr>il_entry_buffer := b\<rparr>) })"
    using False by (simp add: log_serialized_def Let_def kMaxPayloadSize_def sizeof_LogEntry_def)
  then show ?thesis using offer_entry [OF inv, of p fid level env] False by simp
qed

lemma serialize_call:
  assumes inv: "logger_inv l" and ok: "call_ok env fcap fmt m ff df args" "args \<noteq> []"
    and p: "p = call_payload fmt m ff df args"
  shows "\<exists>sa. serialize m ff df args (il_serializer l) = Some sa \<and> length (sa_buffer sa) = 2048 \<and>
     ((sa_size sa = 0 \<and> 1000 \<le> length p) \<or>
      (unat (sa_size sa) = length p \<and> p \<noteq> [] \<and> length p \<le> length (sa_buffer sa) \<and>
       take (length p) (sa_buffer sa) = p))"
proof -
  let ?sa = "il_serializer l"
  have cap: "length (sa_buffer ?sa) = 2048" using inv by (simp add: logger_inv_def)
  have pl: "list_all plain_arg args" using ok(1) by (simp add: call_ok_def)
  have pe: "p = args_header ff df @ enc_args m args" using p ok(2) by (simp add: call_payload_def)
  have lp: "length p = 16 + length (enc_args m args)" by (simp add: pe)
  have "p \<noteq> []" using lp by auto
  have u: "unat (of_nat (length p) :: size_t) = length p" if "length p \<le> 2048"
    using that by (simp add: unat_of_nat)
  show ?thesis
  proof (cases m)
    case True
    then have fits: "length p \<le> 2048" using ok by (simp add: call_ok_def lp)
    have "serialize True ff df args ?sa = Some (?sa\<lparr>sa_buffer := p @ drop (length p) (sa_buffer ?sa),
        sa_size := of_nat (length p)\<rparr>)"
      using serialize_ref_plain [OF pl, of ?sa ff df] fits cap True unfolding lp pe by simp
    then show ?thesis using True u [OF fits] fits cap \<open>p \<noteq> []\<close> by simp
  next
    case False
    have bnd: "16 + length (enc_args False args) < 2 ^ 64" using ok False by (simp add: call_ok_def)
    have s: "serialize False ff df args ?sa =
        (if 2048 \<le> length p then Some (?sa\<lparr>sa_size := 0\<rparr>)
         else Some (?sa\<lparr>sa_buffer := p @ drop (length p) (sa_buffer ?sa), sa_size := of_nat (length p)\<rparr>))"
      using serialize_value_cases [OF pl bnd, of ?sa ff df] cap False unfolding lp pe by simp
    show ?thesis
    proof (cases "2048 \<le> length p")
      case True
      then show ?thesis using s False cap by simp
    next
      case lt: False
      then show ?thesis using s False cap u \<open>p \<noteq> []\<close> by simp
    qed
  qed
qed

lemma log_call_settles:
  assumes inv: "logger_inv l" and run: "bw_status (il_backend l) = Bw_kRunning" and lvl: "\<not> level > il_level l"
    and ok: "call_ok env fcap fmt m ff df args"
  shows "\<exists>l'. log_call env level fmt m ff df args l =
             (if 1000 \<le> length (call_payload fmt m ff df args) then Some (Returned l') else settle env level l') \<and>
           offered l level (call_format_id fmt args) (call_payload fmt m ff df args) l'"
proof (cases "args = []")
  case True
  show ?thesis
  proof (cases "1000 \<le> length fmt")
    case long: True
    then show ?thesis using True run lvl dropped_offer [OF inv long, of level "call_format_id fmt args"]
      by (auto simp: log_call_def log_literal_def kMaxPayloadSize_def sizeof_LogEntry_def call_payload_def)
  next
    case False
    then show ?thesis using True run lvl offer_entry [OF inv, of fmt kLiteralLogStringId level env]
      by (simp add: log_call_def log_literal_def kMaxPayloadSize_def sizeof_LogEntry_def call_payload_def
            call_format_id_def)
  qed
next
  case False
  obtain sa where sa: "serialize m ff df args (il_serializer l) = Some sa" "length (sa_buffer sa) = 2048"
     "(sa_size sa = 0 \<and> 1000 \<le> length (call_payload fmt m ff df args)) \<or>
      (unat (sa_size sa) = length (call_payload fmt m ff df args) \<and> call_payload fmt m ff df args \<noteq> [] \<and>
       length (call_payload fmt m ff df args) \<le> length (sa_buffer sa) \<and>
       take (length (call_payload fmt m ff df args)) (sa_buffer sa) = call_payload fmt m ff df args)"
    using serialize_call [OF inv ok False refl] by blast
  let ?l = "l\<lparr>il_string_registry := register_fixed_string (il_string_registry l) fmt, il_serializer := sa\<rparr>"
  have "logger_inv ?l" using inv sa(2) by (simp add: logger_inv_def)
  from log_serialized_offer [OF this, of "call_payload fmt m ff df args" env level "get_string_id fmt"] sa(3)
  show ?thesis using False run lvl sa(1) by (simp add: log_call_def call_format_id_def)
qed

lemma log_call_offers:
  assumes inv: "logger_inv l" and run: "bw_status (il_backend l) = Bw_kRunning" and lvl: "\<not> level > il_level l"
    and nf: "\<not> (level = kFatal \<and> il_terminate_on_fatal l)" and ok: "call_ok env fcap fmt m ff df args"
  shows "\<exists>l'. log_call env level fmt m ff df args l = Some (Returned l') \<and>
           offered l level (call_format_id fmt args) (call_payload fmt m ff df args) l'"
proof -
  from log_call_settles [OF inv run lvl ok] obtain l' where l': "log_call env level fmt m ff df args l =
      (if 1000 \<le> length (call_payload fmt m ff df args) then Some (Returned l') else settle env level l')"
    "offered l level (call_format_id fmt args) (call_payload fmt m ff df args) l'" by blast
  have "il_terminate_on_fatal l' = il_terminate_on_fatal l" using l'(2) by (simp add: offered_def Let_def)
  then have "settle env level l' = Some (Returned l')" using nf by (intro settle_returns) simp
  then show ?thesis using l' by (intro exI [of _ l']) simp
qed

lemma read_one_overrun:
  assumes inv: "spsc_inv q" and c: "spsc_contents q = r @ rest" and fr: "framed r"
    and small: "length (bw_dequeue_buffer w) < length r"
  shows "read_and_process_one env (w, q) = None"
proof -
  have l: "24 \<le> length r" "length r < 1024" using framed_length [OF fr] by auto
  have n: "24 + le_dec (take 2 r) = length r" using fr unfolding framed_def sizeof_LogEntry_def by linarith
  let ?n = "of_nat 24 + of_nat (le_dec (take 2 r)) :: size_t"
  have "?n = of_nat (length r)" by (metis n of_nat_add)
  then have un: "unat ?n = length r" using l by (simp add: unat_of_nat)
  have peek: "spsc_peek_bytes q (replicate 2 (CHR 0x00)) 2 = Some (Spsc_kOk, take 2 r)"
    using spsc.peek_avail [OF inv, of 2 "replicate 2 (CHR 0x00)"] c l by simp
  have "?n \<noteq> 0" using un l by (metis not_numeral_le_zero unat_0)
  then have "spsc_dequeue_bytes q (bw_dequeue_buffer w) ?n = None"
    using spsc.deq_overrun [OF inv] un c small by simp
  then show ?thesis using peek by (simp add: read_and_process_one_def sizeof_LogEntry_def)
qed

lemma unat_plus_small: "unat (x :: size_t) + k < 2 ^ 64 \<Longrightarrow> unat (x + of_nat k) = unat x + k"
  by (simp add: unat_word_ariths unat_of_nat)

subsection \<open>Properties\<close>

text \<open>C6: The effect of a log call on every branch. A call above the threshold, or while the worker
  is not running, changes nothing. Any other call that does not terminate the program offers one
  record: if its payload (the literal text, or the header and the encoded arguments) is shorter
  than 1000 bytes and the queue has room, the record is appended to the queue and the enqueued
  count rises by one, otherwise the queue is unchanged and the dropped count rises by one. A
  record that is appended decodes to the text of the call.\<close>

theorem log_call_effect:
  assumes "logger_inv l" "\<not> (level = kFatal \<and> il_terminate_on_fatal l)"
    and "call_ok env (length (bw_format_buffer (il_backend l))) fmt m ff df args"
  shows "\<exists>l'. log_call env level fmt m ff df args l = Some (Returned l') \<and>
     (if level > il_level l \<or> bw_status (il_backend l) \<noteq> Bw_kRunning then l' = l
      else offered l level (call_format_id fmt args) (call_payload fmt m ff df args) l') \<and>
     (\<forall>pad. length pad = 7 \<and> length (call_payload fmt m ff df args) < 1000 \<longrightarrow>
        message_of env (entry_image (il_thread_id l) (call_format_id fmt args) level 0 pad
          (call_payload fmt m ff df args)) = Some (call_text env fmt args))"
proof -
  have "message_of env (entry_image (il_thread_id l) (call_format_id fmt args) level 0 pad
      (call_payload fmt m ff df args)) = Some (call_text env fmt args)"
    if "length pad = 7" "length (call_payload fmt m ff df args) < 1000" for pad
    using image_ready [OF that(1) assms(3) that(2)] by blast
  moreover have "\<exists>l'. log_call env level fmt m ff df args l = Some (Returned l') \<and>
     (if level > il_level l \<or> bw_status (il_backend l) \<noteq> Bw_kRunning then l' = l
      else offered l level (call_format_id fmt args) (call_payload fmt m ff df args) l')"
  proof (cases "level > il_level l \<or> bw_status (il_backend l) \<noteq> Bw_kRunning")
    case True
    then show ?thesis by (auto simp: log_call_def)
  next
    case False
    then show ?thesis using log_call_offers [OF assms(1) _ _ assms(2,3)] by simp
  qed
  ultimately show ?thesis by blast
qed

theorem log_call_effect_witness:
  "\<exists>l'. log_call env0 kInfo ''hello'' False 0 0 [] demo_logger = Some (Returned l') \<and>
     il_dropped_count l' = 1 \<and> spsc_contents (il_queue l') = []"
proof -
  have i: "logger_inv demo_logger" "il_level demo_logger = kInfo" "bw_status (il_backend demo_logger) = Bw_kRunning"
      "il_queue demo_logger = idle_queue" "il_dropped_count demo_logger = 0"
    using idle_queue_ok by (simp_all add: demo_logger_def logger_inv_def internal_logger_new_def
        sizeof_LogEntry_def kMaxPayloadSize_def)
  have c: "call_ok env0 (length (bw_format_buffer (il_backend demo_logger))) ''hello'' False 0 0 []"
    by (simp add: call_ok_def)
  have "spsc_cap idle_queue = 4" by (simp add: spsc_cap_def idle_queue_def)
  then show ?thesis
    using log_call_effect [OF i(1) _ c, of kInfo] i idle_queue_ok
    by (auto simp: offered_def call_payload_def less_log_level_def)
qed

text \<open>C33: With the memory-saving preset the worker's buffer has 512 bytes, yet records of up to 1023
  bytes are accepted: after a literal message of more than 488 characters is accepted, the next
  attempt of the worker to read the queue writes past its buffer.\<close>

theorem memory_saving_overrun:
  assumes "logger_inv l" "bw_status (il_backend l) = Bw_kRunning" "\<not> level > il_level l" "level \<noteq> kFatal"
    and "il_backend l = (backend_init fr kMemorySavingOptions w0)\<lparr>bw_status := Bw_kRunning, bw_thread := pc\<rparr>"
    and "spsc_contents (il_queue l) = []" "spsc_cap (il_queue l) = 1024"
    and "488 < length fmt" "length fmt < 1000"
  shows "\<exists>l'. log_call env level fmt False ff df [] l = Some (Returned l') \<and>
           il_enqueued_count l' = il_enqueued_count l + 1 \<and>
           read_and_process_one env (il_backend l', il_queue l') = None"
proof -
  have nf: "\<not> (level = kFatal \<and> il_terminate_on_fatal l)" using assms(4) by simp
  have "call_ok env 0 fmt False ff df []" by (simp add: call_ok_def)
  from log_call_offers [OF assms(1-3) nf this] obtain l' where l':
    "log_call env level fmt False ff df [] l = Some (Returned l')"
    "offered l level kLiteralLogStringId fmt l'"
    by (auto simp: call_format_id_def call_payload_def)
  have ok: "length fmt < 1000 \<and> length (spsc_contents (il_queue l)) + (24 + length fmt) \<le> spsc_cap (il_queue l)"
    using assms(6,7,9) by simp
  obtain pad where p: "length pad = 7" "spsc_contents (il_queue l') =
      entry_image (il_thread_id l) kLiteralLogStringId level 0 pad fmt"
      "il_enqueued_count l' = il_enqueued_count l + 1" "logger_inv l'" "il_backend l' = il_backend l"
    using l'(2) ok assms(6) unfolding offered_def Let_def by auto
  have small: "length (bw_dequeue_buffer (il_backend l')) < length (entry_image (il_thread_id l) kLiteralLogStringId level 0 pad fmt)"
    using assms(8) p(1,5) assms(5)
    by (simp add: backend_init_def kMemorySavingOptions_def vector_resize_def min_def)
  have "read_and_process_one env (il_backend l', il_queue l') = None"
    by (rule read_one_overrun [where rest = "[]", OF _ _ framed_image [OF p(1) assms(9)] small])
      (use p(2,4) in \<open>simp_all add: logger_inv_def\<close>)
  then show ?thesis using l'(1) p(3) by blast
qed

theorem memory_saving_overrun_witness:
  "\<exists>l'. log_call env0 kInfo (replicate 600 (CHR ''x'')) False 0 0 [] small_logger = Some (Returned l') \<and>
     il_enqueued_count l' = il_enqueued_count small_logger + 1 \<and>
     read_and_process_one env0 (il_backend l', il_queue l') = None"
proof (rule memory_saving_overrun)
  show "logger_inv small_logger"
    using queue1024_ok by (simp add: small_logger_def logger_inv_def internal_logger_new_def
        sizeof_LogEntry_def kMaxPayloadSize_def)
  show "il_backend small_logger = (backend_init (\<lambda>b n. b) kMemorySavingOptions (backend_new 0))
      \<lparr>bw_status := Bw_kRunning, bw_thread := Some W_check\<rparr>"
    by (simp add: small_logger_def)
qed (simp_all add: small_logger_def internal_logger_new_def queue1024_ok less_log_level_def)


end
