(* ===== verification/System.thy ===== *)
theory System
  imports Internal_Logger Sinks
begin

text \<open>
  The logger as a whole: the calls of its one producer thread interleaved with steps of the
  worker thread, in any order. A schedule is a list of operations; between two calls of the
  producer the worker may take any number of steps. The result of a run is the logger it leaves
  and the calls that were accepted, recognised by the enqueued count.
\<close>

datatype sys_op =
    Op_log log_level string bool u64 u64 "(cxx_type \<times> arg_value) list"
  | Op_level log_level
  | Op_flush
  | Op_worker

definition returned :: "'a outcome option \<Rightarrow> 'a option" where
  "returned r = (case r of Some (Returned x) \<Rightarrow> Some x | _ \<Rightarrow> None)"

fun run_op :: "'s env \<Rightarrow> sys_op \<Rightarrow> 's internal_logger \<Rightarrow> 's internal_logger option" where
  "run_op env (Op_log level fmt m ff df args) l = returned (log_call env level fmt m ff df args l)"
| "run_op env (Op_level level) l = Some (set_level level l)"
| "run_op env Op_flush l = logger_flush env l"
| "run_op env Op_worker l = do {
     (w, q) \<leftarrow> worker_step env (il_backend l, il_queue l);
     Some (l\<lparr>il_backend := w, il_queue := q\<rparr>)
   }"

fun op_message :: "'s env \<Rightarrow> sys_op \<Rightarrow> (log_level \<times> string) list" where
  "op_message env (Op_log level fmt m ff df args) = [(level, call_text env fmt args)]"
| "op_message env _ = []"

fun run_ops ::
  "'s env \<Rightarrow> sys_op list \<Rightarrow> 's internal_logger \<Rightarrow> ('s internal_logger \<times> (log_level \<times> string) list) option" where
  "run_ops env [] l = Some (l, [])"
| "run_ops env (op # ops) l = do {
     l1 \<leftarrow> run_op env op l;
     (l2, acc) \<leftarrow> run_ops env ops l1;
     Some (l2, (if il_enqueued_count l1 \<noteq> il_enqueued_count l then op_message env op else []) @ acc)
   }"

fun flushes :: "sys_op list \<Rightarrow> nat" where
  "flushes [] = 0"
| "flushes (op # ops) = (if op = Op_flush then Suc (flushes ops) else flushes ops)"

text \<open>The record of an accepted call.\<close>

definition carries :: "'s env \<Rightarrow> u32 \<Rightarrow> log_level \<times> string \<Rightarrow> byte list \<Rightarrow> bool" where
  "carries env tid m r \<longleftrightarrow> (\<exists>e. entry_fields r = Some e \<and> e_level e = fst m \<and> e_thread_id e = tid \<and>
     message_of env r = Some (snd m))"

subsection \<open>Every schedule\<close>

lemma carried_messages:
  assumes "list_all2 (carries env tid) ms rs"
  shows "map snd (messages env t rs) = map snd ms \<and> map (e_level \<circ> fst) (messages env t rs) = map fst ms \<and>
         (\<forall>m \<in> set (messages env t rs). e_thread_id (fst m) = tid)"
  using assms
proof (induction arbitrary: t rule: list_all2_induct)
  case (Cons m ms r rs)
  then show ?case by (auto simp: carries_def)
qed simp

text \<open>The destructor of a logger whose worker is running stops it and destroys the sinks.\<close>

lemma idle_destroy:
  "bw_status (il_backend l) = Bw_kIdling \<Longrightarrow>
     internal_logger_destroy env destroy l = those (map destroy (bw_sinks (il_backend l)))"
  by (cases "those (map destroy (bw_sinks (il_backend l)))")
    (simp_all add: internal_logger_destroy_def backend_destroy_def clear_sinks_def)

lemma destroy_stops:
  assumes "bw_status (il_backend l) = Bw_kRunning" "stop_worker env l = Some l2" "bw_status (il_backend l2) = Bw_kIdling"
  shows "internal_logger_destroy env destroy l = those (map destroy (bw_sinks (il_backend l2)))"
  using assms idle_destroy [OF assms(3), of env destroy] by (simp add: internal_logger_destroy_def)

context log_sink
begin

definition welcomes :: "'s list \<Rightarrow> log_level \<times> string \<Rightarrow> bool" where
  "welcomes sinks m \<longleftrightarrow> (\<forall>s \<in> set sinks. sink_inv s \<and> (\<forall>e. e_level e = fst m \<longrightarrow> accepts s e (snd m)))"

definition in_service :: "'s env \<Rightarrow> 's internal_logger \<Rightarrow> byte list list \<Rightarrow> bool" where
  "in_service env l rs \<longleftrightarrow> logger_inv l \<and> serving (il_backend l) \<and> backlog env (il_backend l) (il_queue l) rs \<and>
     (\<forall>s \<in> set (bw_sinks (il_backend l)). sink_inv s)"

definition same_taste :: "'s list \<Rightarrow> 's list \<Rightarrow> bool" where
  "same_taste sinks sinks' \<longleftrightarrow> list_all2 (\<lambda>s s'. sink_inv s' \<and> render s' = render s \<and> accepts s' = accepts s) sinks sinks'"

lemma fed_same_taste: "fed s1 ms s2 \<Longrightarrow> same_taste s1 s2"
  by (auto simp: fed_def same_taste_def elim: list_all2_mono)

lemma welcomes_same_taste: "same_taste s1 s2 \<Longrightarrow> welcomes s1 m \<Longrightarrow> welcomes s2 m"
  unfolding same_taste_def by (induction rule: list_all2_induct) (auto simp: welcomes_def)

lemma same_taste_inv: "same_taste s1 s2 \<Longrightarrow> \<forall>s \<in> set s2. sink_inv s"
  unfolding same_taste_def by (induction rule: list_all2_induct) auto

fun op_ok :: "'s env \<Rightarrow> nat \<Rightarrow> 's list \<Rightarrow> bool \<Rightarrow> sys_op \<Rightarrow> bool" where
  "op_ok env fcap sinks tof (Op_log level fmt m ff df args) \<longleftrightarrow>
     call_ok env fcap fmt m ff df args \<and> welcomes sinks (level, call_text env fmt args) \<and>
     \<not> (level = kFatal \<and> tof)"
| "op_ok env fcap sinks tof _ = True"

lemma op_ok_same_taste: "same_taste s1 s2 \<Longrightarrow> op_ok env fcap s1 tof op \<Longrightarrow> op_ok env fcap s2 tof op"
  by (cases op) (auto intro: welcomes_same_taste)

text \<open>What one operation does: records may be added at the end of the backlog and leave it at its
  front, to the sinks.\<close>

definition progressed ::
  "'s env \<Rightarrow> 's internal_logger \<Rightarrow> byte list list \<Rightarrow> byte list list \<Rightarrow> byte list list \<Rightarrow>
   's internal_logger \<Rightarrow> byte list list \<Rightarrow> bool" where
  "progressed env l rs new gone l' rs' \<longleftrightarrow> in_service env l' rs' \<and> rs @ new = gone @ rs' \<and>
     bw_ticks (il_backend l') = bw_ticks (il_backend l) + length gone \<and>
     fed (bw_sinks (il_backend l)) (messages env (bw_ticks (il_backend l)) gone) (bw_sinks (il_backend l')) \<and>
     il_thread_id l' = il_thread_id l \<and> il_terminate_on_fatal l' = il_terminate_on_fatal l \<and>
     length (bw_format_buffer (il_backend l')) = length (bw_format_buffer (il_backend l)) \<and>
     il_enqueued_count l' = il_enqueued_count l + of_nat (length new)"

lemma fed_nil_refl: "\<forall>s \<in> set sinks. sink_inv s \<Longrightarrow> fed sinks [] sinks"
  by (rule fed_refl [of _ "[]"]) (simp add: all_accept_def)

lemma progressed_trans:
  assumes a: "progressed env l rs new1 out1 l1 rs1" and b: "progressed env l1 rs1 new2 out2 l2 rs2"
  shows "progressed env l rs (new1 @ new2) (out1 @ out2) l2 rs2"
proof -
  have "rs @ new1 @ new2 = out1 @ out2 @ rs2"
    using a b unfolding progressed_def by (metis append.assoc)
  then show ?thesis using a b fed_append
    unfolding progressed_def messages_append by (auto simp: add.assoc)
qed

text \<open>A call that offers its record adds it to the backlog if it is accepted.\<close>

lemma offered_progress:
  assumes sv: "in_service env l rs" and ok: "call_ok env (length (bw_format_buffer (il_backend l))) fmt m ff df args"
    and wel: "welcomes (bw_sinks (il_backend l)) (level, call_text env fmt args)"
    and off: "offered l level (call_format_id fmt args) (call_payload fmt m ff df args) l'"
  shows "\<exists>new rs'. progressed env l rs new [] l' rs' \<and> il_backend l' = il_backend l \<and>
     list_all2 (carries env (il_thread_id l))
       (if il_enqueued_count l' \<noteq> il_enqueued_count l then [(level, call_text env fmt args)] else []) new"
proof -
  let ?w = "il_backend l" and ?p = "call_payload fmt m ff df args" and ?fid = "call_format_id fmt args"
  have inv: "logger_inv l" and srv: "serving ?w" and bl: "backlog env ?w (il_queue l) rs"
    and si: "\<forall>s \<in> set (bw_sinks ?w). sink_inv s"
    using sv by (auto simp: in_service_def)
  have fd: "fed (bw_sinks ?w) [] (bw_sinks ?w)" using fed_nil_refl [OF si] .
  let ?ok = "length ?p < 1000 \<and> length (spsc_contents (il_queue l)) + (24 + length ?p) \<le> spsc_cap (il_queue l)"
  have same: "logger_inv l'" "il_backend l' = ?w" "il_thread_id l' = il_thread_id l"
    "il_terminate_on_fatal l' = il_terminate_on_fatal l"
    "il_enqueued_count l' = il_enqueued_count l + (if ?ok then 1 else 0)"
    using off by (auto simp: offered_def Let_def)
  show ?thesis
  proof (cases ?ok)
    case True
    obtain pad where pad: "length pad = 7" "spsc_contents (il_queue l') =
        spsc_contents (il_queue l) @ entry_image (il_thread_id l) ?fid level 0 pad ?p"
      using off True by (auto simp: offered_def Let_def)
    let ?r = "entry_image (il_thread_id l) ?fid level 0 pad ?p"
    have len: "length ?p < 1000" using True by simp
    have rdy: "ready env (length (bw_format_buffer ?w)) ?r" "message_of env ?r = Some (call_text env fmt args)"
      using image_ready [OF pad(1) ok len, of "il_thread_id l" level 0] by blast+
    note ef = image_fields [OF len, of "il_thread_id l" ?fid level 0 pad]
    have car: "carries env (il_thread_id l) (level, call_text env fmt args) ?r"
      using ef rdy(2) by (simp add: carries_def)
    have "all_accept (bw_sinks ?w) (messages env (bw_ticks ?w + length rs) [?r])"
      using wel ef rdy(2) by (auto simp: all_accept_def welcomes_def)
    then have "backlog env ?w (il_queue l') (rs @ [?r])"
      using bl pad(2) rdy(1) same(1) by (auto simp: backlog_def messages_append all_accept_append logger_inv_def)
    then have "in_service env l' (rs @ [?r])" using same(1,2) srv si by (simp add: in_service_def)
    then have "progressed env l rs [?r] [] l' (rs @ [?r])" using same True fd by (simp add: progressed_def)
    then show ?thesis using car same(2,5) True by (intro exI [of _ "[?r]"] exI) auto
  next
    case f: False
    have "spsc_contents (il_queue l') = spsc_contents (il_queue l)"
      using off f by (auto simp: offered_def Let_def)
    then have "backlog env ?w (il_queue l') rs" using bl same(1) by (auto simp: backlog_def logger_inv_def)
    then have "in_service env l' rs" using same(1,2) srv si by (simp add: in_service_def)
    then have "progressed env l rs [] [] l' rs" using same f fd by (simp add: progressed_def)
    then show ?thesis using same(2,5) f by (intro exI [of _ "[]"] exI [of _ rs]) auto
  qed
qed

lemma log_op_progress:
  assumes sv: "in_service env l rs" and ok: "op_ok env (length (bw_format_buffer (il_backend l)))
      (bw_sinks (il_backend l)) (il_terminate_on_fatal l) (Op_log level fmt m ff df args)"
  shows "\<exists>l' new rs'. run_op env (Op_log level fmt m ff df args) l = Some l' \<and>
     progressed env l rs new [] l' rs' \<and> il_backend l' = il_backend l \<and>
     list_all2 (carries env (il_thread_id l))
       (if il_enqueued_count l' \<noteq> il_enqueued_count l then [(level, call_text env fmt args)] else []) new"
proof -
  let ?w = "il_backend l"
  have c: "call_ok env (length (bw_format_buffer ?w)) fmt m ff df args"
    "welcomes (bw_sinks ?w) (level, call_text env fmt args)" "\<not> (level = kFatal \<and> il_terminate_on_fatal l)"
    using ok by simp_all
  have si: "logger_inv l" "serving ?w" "\<forall>s \<in> set (bw_sinks ?w). sink_inv s"
    using sv by (auto simp: in_service_def)
  show ?thesis
  proof (cases "level > il_level l")
    case True
    then have "run_op env (Op_log level fmt m ff df args) l = Some l" by (simp add: log_call_def returned_def)
    then show ?thesis using sv fed_nil_refl [OF si(3)]
      by (intro exI [of _ l] exI [of _ "[]"] exI [of _ rs]) (simp add: progressed_def)
  next
    case False
    have "bw_status ?w = Bw_kRunning" using si(2) by (simp add: serving_def)
    from log_call_offers [OF si(1) this False c(3,1)] obtain l' where l':
      "log_call env level fmt m ff df args l = Some (Returned l')"
      "offered l level (call_format_id fmt args) (call_payload fmt m ff df args) l'" by blast
    then show ?thesis using offered_progress [OF sv c(1,2) l'(2)]
      by (intro exI [of _ l']) (simp add: returned_def)
  qed
qed

lemma worker_progress:
  assumes sv: "in_service env l rs" and adv: "advanced env (il_backend l) rs1 w'" and bl: "backlog env w' q' rs2"
    and rs: "rs = rs1 @ rs2" and srv: "serving w'" and l': "l' = l\<lparr>il_backend := w', il_queue := q'\<rparr>"
  shows "progressed env l rs [] rs1 l' rs2"
proof -
  have fd: "fed (bw_sinks (il_backend l)) (messages env (bw_ticks (il_backend l)) rs1) (bw_sinks w')"
    using adv by (simp add: advanced_def)
  have "\<forall>s \<in> set (bw_sinks w'). sink_inv s" using same_taste_inv [OF fed_same_taste [OF fd]] .
  then have "in_service env l' rs2" using sv bl srv l' by (auto simp: in_service_def logger_inv_def backlog_def)
  then show ?thesis using adv fd rs l' by (simp add: progressed_def advanced_def kept_def)
qed

lemma worker_op_progress:
  assumes sv: "in_service env l rs"
  shows "\<exists>l' gone rs'. run_op env Op_worker l = Some l' \<and> progressed env l rs [] gone l' rs' \<and>
           il_enqueued_count l' = il_enqueued_count l \<and>
           bw_flush_requested_seq (il_backend l') = bw_flush_requested_seq (il_backend l)"
proof -
  from sv have "backlog env (il_backend l) (il_queue l) rs" "serving (il_backend l)" by (auto simp: in_service_def)
  from worker_step_serving [OF this] obtain w' q' rs1 rs2 where s:
    "worker_step env (il_backend l, il_queue l) = Some (w', q')" "rs = rs1 @ rs2"
    "backlog env w' q' rs2" "advanced env (il_backend l) rs1 w'" "serving w'" by blast
  let ?l = "l\<lparr>il_backend := w', il_queue := q'\<rparr>"
  have "bw_flush_requested_seq w' = bw_flush_requested_seq (il_backend l)"
    using s(4) by (simp add: advanced_def kept_def)
  then show ?thesis using s(1) worker_progress [OF sv s(4,3,2,5) refl]
    by (intro exI [of _ ?l] exI [of _ rs1] exI [of _ rs2]) simp
qed

lemma flush_op_progress:
  assumes sv: "in_service env l rs" and n: "bw_flush_requested_seq (il_backend l) \<noteq> 0xFFFFFFFFFFFFFFFF"
  shows "\<exists>l'. logger_flush env l = Some l' \<and> progressed env l rs [] rs l' [] \<and>
           il_enqueued_count l' = il_enqueued_count l \<and>
           bw_flush_requested_seq (il_backend l') = bw_flush_requested_seq (il_backend l) + 1"
proof -
  from sv have b: "backlog env (il_backend l) (il_queue l) rs" "serving (il_backend l)" by (auto simp: in_service_def)
  from flush_met [OF b n] obtain w' q' where s:
    "backend_flush env (il_backend l, il_queue l) = Some (w', q')" "backlog env w' q' []" "serving w'"
    "advanced env ((il_backend l)\<lparr>bw_flush_requested_seq := bw_flush_requested_seq (il_backend l) + 1\<rparr>) rs w'" by blast
  let ?l = "l\<lparr>il_backend := w', il_queue := q'\<rparr>"
  have fd: "fed (bw_sinks (il_backend l)) (messages env (bw_ticks (il_backend l)) rs) (bw_sinks w')"
    "bw_flush_requested_seq w' = bw_flush_requested_seq (il_backend l) + 1"
    "bw_ticks w' = bw_ticks (il_backend l) + length rs"
    "length (bw_format_buffer w') = length (bw_format_buffer (il_backend l))"
    using s(4) by (simp_all add: advanced_def kept_def)
  have "\<forall>s \<in> set (bw_sinks w'). sink_inv s" using same_taste_inv [OF fed_same_taste [OF fd(1)]] .
  then have "in_service env ?l []" using sv s(2,3) by (auto simp: in_service_def logger_inv_def backlog_def)
  then have "progressed env l rs [] rs ?l []" using fd by (simp add: progressed_def)
  then show ?thesis using s(1) fd(2) by (intro exI [of _ ?l]) (simp add: logger_flush_def)
qed

lemma run_op_progress:
  assumes sv: "in_service env l rs" and ok: "op_ok env (length (bw_format_buffer (il_backend l)))
      (bw_sinks (il_backend l)) (il_terminate_on_fatal l) op"
    and n: "op = Op_flush \<Longrightarrow> bw_flush_requested_seq (il_backend l) \<noteq> 0xFFFFFFFFFFFFFFFF"
  shows "\<exists>l' new gone rs'. run_op env op l = Some l' \<and> progressed env l rs new gone l' rs' \<and>
     list_all2 (carries env (il_thread_id l))
       (if il_enqueued_count l' \<noteq> il_enqueued_count l then op_message env op else []) new \<and>
     bw_flush_requested_seq (il_backend l') = bw_flush_requested_seq (il_backend l) + (if op = Op_flush then 1 else 0)"
proof (cases op)
  case (Op_log level fmt m ff df args)
  from log_op_progress [OF sv ok [unfolded Op_log]] Op_log show ?thesis by fastforce
next
  case (Op_level level)
  have "\<forall>s \<in> set (bw_sinks (il_backend l)). sink_inv s" using sv by (simp add: in_service_def)
  then have "progressed env l rs [] [] (set_level level l) rs"
    using sv fed_nil_refl by (auto simp: progressed_def in_service_def logger_inv_def set_level_def)
  then show ?thesis using Op_level
    by (intro exI [of _ "set_level level l"] exI [of _ "[]"] exI [of _ rs]) (simp add: set_level_def)
next
  case Op_flush
  from flush_op_progress [OF sv n [OF Op_flush]] Op_flush show ?thesis by fastforce
next
  case Op_worker
  from worker_op_progress [OF sv] Op_worker show ?thesis by fastforce
qed

lemma run_ops_progress:
  assumes "in_service env l rs" and "list_all (op_ok env (length (bw_format_buffer (il_backend l)))
      (bw_sinks (il_backend l)) (il_terminate_on_fatal l)) ops"
    and "unat (bw_flush_requested_seq (il_backend l)) + flushes ops < 2 ^ 64"
  shows "\<exists>l' acc new gone rs'. run_ops env ops l = Some (l', acc) \<and> progressed env l rs new gone l' rs' \<and>
     list_all2 (carries env (il_thread_id l)) acc new \<and>
     unat (bw_flush_requested_seq (il_backend l')) = unat (bw_flush_requested_seq (il_backend l)) + flushes ops"
  using assms
proof (induction ops arbitrary: l rs)
  case Nil
  have "\<forall>s \<in> set (bw_sinks (il_backend l)). sink_inv s" using Nil(1) by (simp add: in_service_def)
  then have "progressed env l rs [] [] l rs" using Nil(1) fed_nil_refl by (simp add: progressed_def)
  then show ?case by fastforce
next
  case (Cons op ops)
  have ok: "op_ok env (length (bw_format_buffer (il_backend l))) (bw_sinks (il_backend l)) (il_terminate_on_fatal l) op"
    using Cons.prems(2) by simp
  have n: "bw_flush_requested_seq (il_backend l) \<noteq> 0xFFFFFFFFFFFFFFFF" if "op = Op_flush"
    using Cons.prems(3) that by auto
  obtain l1 new1 gone1 rs1 where s1: "run_op env op l = Some l1" "progressed env l rs new1 gone1 l1 rs1"
    "list_all2 (carries env (il_thread_id l))
       (if il_enqueued_count l1 \<noteq> il_enqueued_count l then op_message env op else []) new1"
    "bw_flush_requested_seq (il_backend l1) = bw_flush_requested_seq (il_backend l) + (if op = Op_flush then 1 else 0)"
    using run_op_progress [OF Cons.prems(1) ok n] by blast
  have p1: "in_service env l1 rs1" "il_thread_id l1 = il_thread_id l"
    "il_terminate_on_fatal l1 = il_terminate_on_fatal l"
    "length (bw_format_buffer (il_backend l1)) = length (bw_format_buffer (il_backend l))"
    "same_taste (bw_sinks (il_backend l)) (bw_sinks (il_backend l1))"
    using s1(2) by (auto simp: progressed_def intro: fed_same_taste)
  have ok1: "list_all (op_ok env (length (bw_format_buffer (il_backend l1)))
      (bw_sinks (il_backend l1)) (il_terminate_on_fatal l1)) ops"
    using Cons.prems(2) p1(3,4) op_ok_same_taste [OF p1(5)] by (auto simp: list_all_iff)
  have n0: "unat (bw_flush_requested_seq (il_backend l1)) + flushes ops =
      unat (bw_flush_requested_seq (il_backend l)) + flushes (op # ops)"
    using s1(4) unat_Suc_not_max [OF n] by (cases "op = Op_flush") simp_all
  then have n1: "unat (bw_flush_requested_seq (il_backend l1)) + flushes ops < 2 ^ 64"
    using Cons.prems(3) by simp
  from Cons.IH [OF p1(1) ok1 n1] obtain l2 acc2 new2 gone2 rs2 where s2:
    "run_ops env ops l1 = Some (l2, acc2)" "progressed env l1 rs1 new2 gone2 l2 rs2"
    "list_all2 (carries env (il_thread_id l1)) acc2 new2"
    "unat (bw_flush_requested_seq (il_backend l2)) = unat (bw_flush_requested_seq (il_backend l1)) + flushes ops"
    by blast
  let ?acc = "(if il_enqueued_count l1 \<noteq> il_enqueued_count l then op_message env op else []) @ acc2"
  have "run_ops env (op # ops) l = Some (l2, ?acc)" using s1(1) s2(1) by simp
  moreover have "list_all2 (carries env (il_thread_id l)) ?acc (new1 @ new2)"
    using s1(3) s2(3) p1(2) by (intro list_all2_appendI) simp_all
  ultimately show ?case using progressed_trans [OF s1(2) s2(2)] s2(4) n0 by metis
qed

lemma stop_progress:
  assumes sv: "in_service env l rs"
  shows "\<exists>l'. stop_worker env l = Some l' \<and> spsc_contents (il_queue l') = [] \<and>
     bw_status (il_backend l') = Bw_kIdling \<and> il_enqueued_count l' = il_enqueued_count l \<and>
     fed (bw_sinks (il_backend l)) (messages env (bw_ticks (il_backend l)) rs) (bw_sinks (il_backend l'))"
proof -
  from sv have b: "backlog env (il_backend l) (il_queue l) rs" "serving (il_backend l)" by (auto simp: in_service_def)
  from stop_met [OF b] obtain w' q' where s:
    "backend_stop env (il_backend l, il_queue l) = Some (w', q')" "backlog env w' q' []"
    "bw_status w' = Bw_kIdling"
    "advanced env ((il_backend l)\<lparr>bw_shutdown_required := True, bw_status := Bw_kIdling\<rparr>) rs w'" by blast
  let ?l = "l\<lparr>il_backend := w', il_queue := q'\<rparr>"
  have "fed (bw_sinks (il_backend l)) (messages env (bw_ticks (il_backend l)) rs) (bw_sinks w')"
    using s(4) by (simp add: advanced_def)
  then show ?thesis using s(1-3) by (intro exI [of _ ?l]) (simp add: stop_worker_def backlog_def)
qed

text \<open>A fatal call stops the worker, which leaves nothing in the queue, and terminates; its own
  record is among those delivered if it was accepted.\<close>

lemma fatal_progress:
  assumes sv: "in_service env l rs" and ok: "call_ok env (length (bw_format_buffer (il_backend l))) fmt m ff df args"
    and wel: "welcomes (bw_sinks (il_backend l)) (kFatal, call_text env fmt args)"
    and tof: "il_terminate_on_fatal l" "\<not> kFatal > il_level l" "length (call_payload fmt m ff df args) < 1000"
  shows "\<exists>l' new. log_call env kFatal fmt m ff df args l = Some (Terminated l') \<and>
     bw_status (il_backend l') = Bw_kIdling \<and> spsc_contents (il_queue l') = [] \<and>
     list_all2 (carries env (il_thread_id l))
       (if il_enqueued_count l' \<noteq> il_enqueued_count l then [(kFatal, call_text env fmt args)] else []) new \<and>
     fed (bw_sinks (il_backend l)) (messages env (bw_ticks (il_backend l)) (rs @ new)) (bw_sinks (il_backend l'))"
proof -
  have inv: "logger_inv l" "bw_status (il_backend l) = Bw_kRunning"
    using sv by (auto simp: in_service_def serving_def)
  from log_call_settles [OF inv tof(2) ok] tof(3) obtain l1 where l1:
    "log_call env kFatal fmt m ff df args l = settle env kFatal l1"
    "offered l kFatal (call_format_id fmt args) (call_payload fmt m ff df args) l1" by auto
  from offered_progress [OF sv ok wel l1(2)] obtain new rs' where n: "progressed env l rs new [] l1 rs'"
    "il_backend l1 = il_backend l" "list_all2 (carries env (il_thread_id l))
       (if il_enqueued_count l1 \<noteq> il_enqueued_count l then [(kFatal, call_text env fmt args)] else []) new" by blast
  have p: "in_service env l1 rs'" "rs' = rs @ new" "il_terminate_on_fatal l1"
    using n(1) tof(1) by (auto simp: progressed_def)
  from stop_progress [OF p(1)] obtain l' where s: "stop_worker env l1 = Some l'"
    "spsc_contents (il_queue l') = []" "bw_status (il_backend l') = Bw_kIdling"
    "il_enqueued_count l' = il_enqueued_count l1"
    "fed (bw_sinks (il_backend l1)) (messages env (bw_ticks (il_backend l1)) rs') (bw_sinks (il_backend l'))" by blast
  have "log_call env kFatal fmt m ff df args l = Some (Terminated l')"
    using l1(1) s(1) p(3) by (simp add: settle_def)
  then show ?thesis using s(2-5) n(2,3) p(2) by (intro exI [of _ l'] exI [of _ new]) simp
qed

text \<open>What the sinks have produced once the records of the calls \<open>ms\<close> have been fed to them.\<close>

lemma fed_rendered:
  assumes "fed ss (messages env t rs) ss'" "list_all2 (carries env tid) ms rs"
  shows "\<exists>es. length es = length ms \<and> map e_level es = map fst ms \<and> (\<forall>e \<in> set es. e_thread_id e = tid) \<and>
     list_all2 (\<lambda>s s'. sink_inv s' \<and> target s' = target s \<and> out s' = out s @ concat (map2 (\<lambda>e m. render s e (snd m)) es ms)) ss ss'"
proof -
  let ?ms = "messages env t rs" and ?es = "map fst (messages env t rs)"
  note c = carried_messages [OF assms(2), of t]
  have l: "length ?es = length ms" using list_all2_lengthD [OF assms(2)] by simp
  have r: "map (\<lambda>(e, t). render s e t) ?ms = map2 (\<lambda>e m. render s e (snd m)) ?es ms" for s
  proof -
    have "map (\<lambda>(e, t). render s e t) ?ms = map2 (\<lambda>e t. render s e t) ?es (map snd ?ms)"
      by (simp add: zip_map_fst_snd)
    then show ?thesis using c by (simp add: zip_map2 comp_def case_prod_beta)
  qed
  have "list_all2 (\<lambda>s s'. sink_inv s' \<and> target s' = target s \<and> out s' = out s @ concat (map2 (\<lambda>e m. render s e (snd m)) ?es ms)) ss ss'"
    using assms(1) by (auto simp: fed_def produced_def r elim: list_all2_mono)
  then show ?thesis using c l by (intro exI [of _ ?es]) auto
qed

text \<open>A schedule and the stop of the worker feed every sink the records of the accepted calls.\<close>

lemma delivered:
  assumes "in_service env l []" and "list_all (op_ok env (length (bw_format_buffer (il_backend l)))
      (bw_sinks (il_backend l)) (il_terminate_on_fatal l)) ops"
    and "unat (bw_flush_requested_seq (il_backend l)) + flushes ops < 2 ^ 64"
  shows "\<exists>l1 acc l2 es. run_ops env ops l = Some (l1, acc) \<and> stop_worker env l1 = Some l2 \<and>
     (\<forall>destroy. internal_logger_destroy env destroy l1 = those (map destroy (bw_sinks (il_backend l2)))) \<and>
     spsc_contents (il_queue l2) = [] \<and> il_enqueued_count l2 = il_enqueued_count l + of_nat (length acc) \<and>
     length es = length acc \<and> map e_level es = map fst acc \<and> (\<forall>e \<in> set es. e_thread_id e = il_thread_id l) \<and>
     list_all2 (\<lambda>s s'. sink_inv s' \<and> target s' = target s \<and> out s' = out s @ concat (map2 (\<lambda>e m. render s e (snd m)) es acc))
       (bw_sinks (il_backend l)) (bw_sinks (il_backend l2))"
proof -
  from run_ops_progress [OF assms] obtain l1 acc new gone rs where r: "run_ops env ops l = Some (l1, acc)"
    "progressed env l [] new gone l1 rs" "list_all2 (carries env (il_thread_id l)) acc new" by blast
  have p: "new = gone @ rs" "in_service env l1 rs"
    "bw_ticks (il_backend l1) = bw_ticks (il_backend l) + length gone"
    "fed (bw_sinks (il_backend l)) (messages env (bw_ticks (il_backend l)) gone) (bw_sinks (il_backend l1))"
    "il_enqueued_count l1 = il_enqueued_count l + of_nat (length new)"
    using r(2) by (auto simp: progressed_def)
  from stop_progress [OF p(2)] obtain l2 where s: "stop_worker env l1 = Some l2"
    "spsc_contents (il_queue l2) = []" "il_enqueued_count l2 = il_enqueued_count l1"
    "fed (bw_sinks (il_backend l1)) (messages env (bw_ticks (il_backend l1)) rs) (bw_sinks (il_backend l2))"
    and st: "bw_status (il_backend l2) = Bw_kIdling" by blast
  have d: "internal_logger_destroy env destroy l1 = those (map destroy (bw_sinks (il_backend l2)))" for destroy
    using destroy_stops [OF _ s(1) st] p(2) by (simp add: in_service_def serving_def)
  have "fed (bw_sinks (il_backend l)) (messages env (bw_ticks (il_backend l)) new) (bw_sinks (il_backend l2))"
    unfolding p(1) messages_append using fed_append [OF p(4) s(4) [unfolded p(3)]] .
  from fed_rendered [OF this r(3)] show ?thesis
    using r(1) s(1-3) d p(5) list_all2_lengthD [OF r(3)] by auto
qed

text \<open>A schedule that ends in a fatal call.\<close>

lemma fatal_delivered:
  assumes sv: "in_service env l []" and ops: "list_all (op_ok env (length (bw_format_buffer (il_backend l)))
      (bw_sinks (il_backend l)) (il_terminate_on_fatal l)) ops"
    and fl: "unat (bw_flush_requested_seq (il_backend l)) + flushes ops < 2 ^ 64"
    and ok: "call_ok env (length (bw_format_buffer (il_backend l))) fmt m ff df args"
    and wel: "welcomes (bw_sinks (il_backend l)) (kFatal, call_text env fmt args)"
    and tof: "il_terminate_on_fatal l" "length (call_payload fmt m ff df args) < 1000"
  shows "\<exists>l1 acc. run_ops env ops l = Some (l1, acc) \<and> (\<not> kFatal > il_level l1 \<longrightarrow>
     (\<exists>l2 acc2 es. log_call env kFatal fmt m ff df args l1 = Some (Terminated l2) \<and>
        bw_status (il_backend l2) = Bw_kIdling \<and> spsc_contents (il_queue l2) = [] \<and>
        acc2 = acc @ (if il_enqueued_count l2 \<noteq> il_enqueued_count l1 then [(kFatal, call_text env fmt args)] else []) \<and>
        length es = length acc2 \<and> map e_level es = map fst acc2 \<and> (\<forall>e \<in> set es. e_thread_id e = il_thread_id l) \<and>
        list_all2 (\<lambda>s s'. sink_inv s' \<and> target s' = target s \<and>
            out s' = out s @ concat (map2 (\<lambda>e m. render s e (snd m)) es acc2))
          (bw_sinks (il_backend l)) (bw_sinks (il_backend l2))))"
proof -
  from run_ops_progress [OF sv ops fl] obtain l1 acc new gone rs where r: "run_ops env ops l = Some (l1, acc)"
    "progressed env l [] new gone l1 rs" "list_all2 (carries env (il_thread_id l)) acc new" by blast
  have p: "new = gone @ rs" "in_service env l1 rs" "il_thread_id l1 = il_thread_id l"
    "bw_ticks (il_backend l1) = bw_ticks (il_backend l) + length gone" "il_terminate_on_fatal l1"
    "length (bw_format_buffer (il_backend l1)) = length (bw_format_buffer (il_backend l))"
    "fed (bw_sinks (il_backend l)) (messages env (bw_ticks (il_backend l)) gone) (bw_sinks (il_backend l1))"
    using r(2) tof(1) by (auto simp: progressed_def)
  have w: "welcomes (bw_sinks (il_backend l1)) (kFatal, call_text env fmt args)"
    using welcomes_same_taste [OF fed_same_taste [OF p(7)] wel] .
  have "\<exists>l2 acc2 es. log_call env kFatal fmt m ff df args l1 = Some (Terminated l2) \<and>
        bw_status (il_backend l2) = Bw_kIdling \<and> spsc_contents (il_queue l2) = [] \<and>
        acc2 = acc @ (if il_enqueued_count l2 \<noteq> il_enqueued_count l1 then [(kFatal, call_text env fmt args)] else []) \<and>
        length es = length acc2 \<and> map e_level es = map fst acc2 \<and> (\<forall>e \<in> set es. e_thread_id e = il_thread_id l) \<and>
        list_all2 (\<lambda>s s'. sink_inv s' \<and> target s' = target s \<and>
            out s' = out s @ concat (map2 (\<lambda>e m. render s e (snd m)) es acc2))
          (bw_sinks (il_backend l)) (bw_sinks (il_backend l2))" if lvl: "\<not> kFatal > il_level l1"
  proof -
    from fatal_progress [OF p(2) ok [folded p(6)] w p(5) lvl tof(2)] obtain l2 new2 where f:
      "log_call env kFatal fmt m ff df args l1 = Some (Terminated l2)" "bw_status (il_backend l2) = Bw_kIdling"
      "spsc_contents (il_queue l2) = []" "list_all2 (carries env (il_thread_id l))
        (if il_enqueued_count l2 \<noteq> il_enqueued_count l1 then [(kFatal, call_text env fmt args)] else []) new2"
      "fed (bw_sinks (il_backend l1)) (messages env (bw_ticks (il_backend l1)) (rs @ new2)) (bw_sinks (il_backend l2))"
      unfolding p(3) by blast
    have "messages env (bw_ticks (il_backend l)) (new @ new2) = messages env (bw_ticks (il_backend l)) gone @
        messages env (bw_ticks (il_backend l1)) (rs @ new2)"
      unfolding p(1,4) append_assoc messages_append ..
    then have "fed (bw_sinks (il_backend l)) (messages env (bw_ticks (il_backend l)) (new @ new2)) (bw_sinks (il_backend l2))"
      using fed_append [OF p(7) f(5)] by simp
    from fed_rendered [OF this list_all2_appendI [OF r(3) f(4)]] show ?thesis using f(1-3) by blast
  qed
  then show ?thesis using r(1) by blast
qed

end

subsection \<open>Properties\<close>

text \<open>The obligations of the calls of a schedule on a logger with the sinks of the library.\<close>

fun call_fine :: "sink_env \<Rightarrow> sink env \<Rightarrow> sink internal_logger \<Rightarrow> sys_op \<Rightarrow> bool" where
  "call_fine se env l (Op_log level fmt m ff df args) \<longleftrightarrow>
     call_ok env (length (bw_format_buffer (il_backend l))) fmt m ff df args \<and>
     (\<forall>s \<in> set (bw_sinks (il_backend l)). \<forall>e. e_level e = level \<longrightarrow> sink_accepts se s e (call_text env fmt args)) \<and>
     \<not> (level = kFatal \<and> il_terminate_on_fatal l)"
| "call_fine se env l _ = True"

definition idle_service :: "sink_env \<Rightarrow> sink env \<Rightarrow> sink internal_logger \<Rightarrow> bool" where
  "idle_service se env l \<longleftrightarrow> env_on_log env = sink_on_log se \<and> logger_inv l \<and> serving (il_backend l) \<and>
     spsc_contents (il_queue l) = [] \<and> 1024 \<le> length (bw_dequeue_buffer (il_backend l)) \<and>
     (\<forall>s \<in> set (bw_sinks (il_backend l)). sink_inv s)"

text \<open>The text a sink produces for messages of the given entries and texts.\<close>

definition rendered :: "sink_env \<Rightarrow> sink \<Rightarrow> log_entry list \<Rightarrow> (log_level \<times> string) list \<Rightarrow> string" where
  "rendered se s es ms = concat (map2 (\<lambda>e m. sink_render se s e (snd m)) es ms)"

lemma sinks_rendered:
  assumes "sinks.fed se ss (messages env t rs) ss'" "list_all2 (carries env tid) ms rs"
  shows "\<exists>es. length es = length ms \<and> map e_level es = map fst ms \<and> (\<forall>e \<in> set es. e_thread_id e = tid) \<and>
     list_all2 (\<lambda>s s'. sink_out s' = sink_out s @ rendered se s es ms) ss ss'"
  using sinks.fed_rendered [OF assms] by (fastforce simp: rendered_def elim: list_all2_mono)

lemma idle_service_in_service:
  "idle_service se env l \<Longrightarrow> sinks.in_service se env l []"
  by (auto simp: idle_service_def sinks.in_service_def sinks.backlog_def sinks.all_accept_def logger_inv_def)

lemma call_fine_op_ok:
  assumes "idle_service se env l" "call_fine se env l op"
  shows "sinks.op_ok se env (length (bw_format_buffer (il_backend l))) (bw_sinks (il_backend l))
           (il_terminate_on_fatal l) op"
  using assms by (cases op) (auto simp: sinks.welcomes_def idle_service_def)

text \<open>A logger in service with one file sink, and a short schedule.\<close>

definition demo_sink_env :: sink_env where
  "demo_sink_env = \<lparr>se_tty = False, se_time = (\<lambda>_ _. ''[t] ''), se_dec = (\<lambda>_. ''0'')\<rparr>"

definition demo_env :: "sink env" where
  "demo_env = \<lparr>env_on_log = sink_on_log demo_sink_env, env_clock = (\<lambda>_. 0), env_format_func = (\<lambda>_. None),
     env_deserialize_func = (\<lambda>_. None), env_vformat = (\<lambda>s _. s), env_order = (\<lambda>n. [0..<n]),
     env_mem = (\<lambda>_ _. None)\<rparr>"

definition demo_service :: "sink internal_logger" where
  "demo_service = (internal_logger_new 0 0)\<lparr>il_queue := queue1024,
     il_backend := (backend_init (\<lambda>b n. b) default_options (backend_new 0))
       \<lparr>bw_status := Bw_kRunning, bw_thread := Some W_check, bw_sinks := [File_sink (file_new 3)]\<rparr>\<rparr>"

definition demo_ops :: "sys_op list" where
  "demo_ops = [Op_log kInfo ''hello'' False 0 0 [], Op_worker, Op_flush, Op_log kError ''bye'' False 0 0 [],
     Op_level kError, Op_log kWarn ''no'' False 0 0 []]"

lemma demo_service_ok: "idle_service demo_sink_env demo_env demo_service"
  using queue1024_ok
  by (simp add: idle_service_def demo_env_def demo_service_def logger_inv_def internal_logger_new_def
        sizeof_LogEntry_def kMaxPayloadSize_def serving_def backend_init_def backend_new_def vector_resize_def
        default_options_def file_new_def)

lemma demo_ops_ok: "list_all (call_fine demo_sink_env demo_env demo_service) demo_ops"
  "unat (bw_flush_requested_seq (il_backend demo_service)) + flushes demo_ops + 1 < 2 ^ 64"
proof -
  have [simp]: "bw_sinks (il_backend demo_service) = [File_sink (file_new 3)]"
    by (simp add: demo_service_def)
  show "list_all (call_fine demo_sink_env demo_env demo_service) demo_ops"
    by (simp add: demo_ops_def call_ok_def call_text_def time_text_def demo_sink_env_def level_len_def
          kFileCapacity_def)
  show "unat (bw_flush_requested_seq (il_backend demo_service)) + flushes demo_ops + 1 < 2 ^ 64"
    by (simp add: demo_service_def demo_ops_def backend_init_def backend_new_def)
qed

text \<open>C1: Every accepted message reaches every sink exactly once, in order. For every schedule of
  log calls, level changes, flushes and worker steps that starts on a logger in service with an
  empty queue, no step is undefined, and when \<^verbatim>\<open>stop_worker\<close> returns (it does) the queue is empty
  and each sink has produced, behind what it had produced before, its rendering of exactly the
  accepted messages in the order of the calls, with their levels and the producer's thread id;
  the enqueued count has grown by their number.\<close>

theorem system_delivery:
  assumes "idle_service se env l" "list_all (call_fine se env l) ops"
    and "unat (bw_flush_requested_seq (il_backend l)) + flushes ops < 2 ^ 64"
  shows "\<exists>l1 acc l2 es. run_ops env ops l = Some (l1, acc) \<and> stop_worker env l1 = Some l2 \<and>
     spsc_contents (il_queue l2) = [] \<and> il_enqueued_count l2 = il_enqueued_count l + of_nat (length acc) \<and>
     length es = length acc \<and> map e_level es = map fst acc \<and> (\<forall>e \<in> set es. e_thread_id e = il_thread_id l) \<and>
     list_all2 (\<lambda>s s'. sink_out s' = sink_out s @ rendered se s es acc)
       (bw_sinks (il_backend l)) (bw_sinks (il_backend l2))"
proof -
  have ok: "list_all (sinks.op_ok se env (length (bw_format_buffer (il_backend l))) (bw_sinks (il_backend l))
      (il_terminate_on_fatal l)) ops"
    using assms(1,2) call_fine_op_ok by (auto simp: list_all_iff)
  from sinks.delivered [OF idle_service_in_service [OF assms(1)] ok assms(3)] show ?thesis
    by (fastforce simp: rendered_def elim: list_all2_mono)
qed

theorem system_delivery_witness:
  "\<exists>l1 acc l2 es. run_ops demo_env demo_ops demo_service = Some (l1, acc) \<and> stop_worker demo_env l1 = Some l2 \<and>
     spsc_contents (il_queue l2) = [] \<and>
     il_enqueued_count l2 = il_enqueued_count demo_service + of_nat (length acc) \<and>
     length es = length acc \<and> map e_level es = map fst acc \<and>
     (\<forall>e \<in> set es. e_thread_id e = il_thread_id demo_service) \<and>
     list_all2 (\<lambda>s s'. sink_out s' = sink_out s @ rendered demo_sink_env s es acc)
       (bw_sinks (il_backend demo_service)) (bw_sinks (il_backend l2))"
  by (rule system_delivery [OF demo_service_ok demo_ops_ok(1)]) (use demo_ops_ok(2) in simp)

text \<open>C2: \<^verbatim>\<open>flush\<close> returns and is a barrier. After any schedule as above, a flush on the logger in
  service terminates, leaves the queue empty and the logger in service, and at its return each
  sink has produced its rendering of exactly the messages accepted so far, in order.\<close>

theorem system_flush_barrier:
  assumes "idle_service se env l" "list_all (call_fine se env l) ops"
    and "unat (bw_flush_requested_seq (il_backend l)) + flushes ops + 1 < 2 ^ 64"
  shows "\<exists>l1 acc l2 es. run_ops env ops l = Some (l1, acc) \<and> logger_flush env l1 = Some l2 \<and>
     idle_service se env l2 \<and> length es = length acc \<and> map e_level es = map fst acc \<and>
     (\<forall>e \<in> set es. e_thread_id e = il_thread_id l) \<and>
     list_all2 (\<lambda>s s'. sink_out s' = sink_out s @ rendered se s es acc)
       (bw_sinks (il_backend l)) (bw_sinks (il_backend l2))"
proof -
  have ok: "list_all (sinks.op_ok se env (length (bw_format_buffer (il_backend l))) (bw_sinks (il_backend l))
      (il_terminate_on_fatal l)) ops"
    using assms(1,2) call_fine_op_ok by (auto simp: list_all_iff)
  have n: "unat (bw_flush_requested_seq (il_backend l)) + flushes ops < 2 ^ 64" using assms(3) by simp
  from sinks.run_ops_progress [OF idle_service_in_service [OF assms(1)] ok n]
  obtain l1 acc new gone rs where r: "run_ops env ops l = Some (l1, acc)"
    "sinks.progressed se env l [] new gone l1 rs" "list_all2 (carries env (il_thread_id l)) acc new"
    "unat (bw_flush_requested_seq (il_backend l1)) = unat (bw_flush_requested_seq (il_backend l)) + flushes ops"
    by blast
  have "bw_flush_requested_seq (il_backend l1) \<noteq> 0xFFFFFFFFFFFFFFFF" using r(4) assms(3) by auto
  moreover have "sinks.in_service se env l1 rs" using r(2) by (simp add: sinks.progressed_def)
  ultimately obtain l2 where f: "logger_flush env l1 = Some l2" "sinks.progressed se env l1 rs [] rs l2 []"
    using sinks.flush_op_progress by blast
  have p: "sinks.progressed se env l [] new (gone @ rs) l2 []"
    using sinks.progressed_trans [OF r(2) f(2)] by simp
  then have q: "sinks.in_service se env l2 []" "new = gone @ rs"
    "sinks.fed se (bw_sinks (il_backend l)) (messages env (bw_ticks (il_backend l)) new) (bw_sinks (il_backend l2))"
    by (auto simp: sinks.progressed_def)
  have "idle_service se env l2" using q(1) by (auto simp: idle_service_def sinks.in_service_def sinks.backlog_def)
  then show ?thesis using sinks_rendered [OF q(3) r(3)] r(1) f(1) by auto
qed

theorem system_flush_barrier_witness:
  "\<exists>l1 acc l2 es. run_ops demo_env demo_ops demo_service = Some (l1, acc) \<and> logger_flush demo_env l1 = Some l2 \<and>
     idle_service demo_sink_env demo_env l2 \<and> length es = length acc \<and> map e_level es = map fst acc \<and>
     (\<forall>e \<in> set es. e_thread_id e = il_thread_id demo_service) \<and>
     list_all2 (\<lambda>s s'. sink_out s' = sink_out s @ rendered demo_sink_env s es acc)
       (bw_sinks (il_backend demo_service)) (bw_sinks (il_backend l2))"
  by (rule system_flush_barrier [OF demo_service_ok demo_ops_ok])

text \<open>C3: At every moment of every schedule each sink has produced its rendering of a prefix of the
  accepted messages: nothing is delivered out of order, twice, or before it is accepted.\<close>

theorem system_prefix_order:
  assumes "idle_service se env l" "list_all (call_fine se env l) ops"
    and "unat (bw_flush_requested_seq (il_backend l)) + flushes ops < 2 ^ 64"
  shows "\<exists>l1 acc k es. run_ops env ops l = Some (l1, acc) \<and> k \<le> length acc \<and> length es = k \<and>
     map e_level es = map fst (take k acc) \<and>
     list_all2 (\<lambda>s s'. sink_out s' = sink_out s @ rendered se s es (take k acc))
       (bw_sinks (il_backend l)) (bw_sinks (il_backend l1))"
proof -
  have ok: "list_all (sinks.op_ok se env (length (bw_format_buffer (il_backend l))) (bw_sinks (il_backend l))
      (il_terminate_on_fatal l)) ops"
    using assms(1,2) call_fine_op_ok by (auto simp: list_all_iff)
  from sinks.run_ops_progress [OF idle_service_in_service [OF assms(1)] ok assms(3)]
  obtain l1 acc new gone rs where r: "run_ops env ops l = Some (l1, acc)"
    "sinks.progressed se env l [] new gone l1 rs" "list_all2 (carries env (il_thread_id l)) acc new" by blast
  have p: "new = gone @ rs"
    "sinks.fed se (bw_sinks (il_backend l)) (messages env (bw_ticks (il_backend l)) gone) (bw_sinks (il_backend l1))"
    using r(2) by (auto simp: sinks.progressed_def)
  let ?k = "length gone"
  have len: "length acc = length new" using list_all2_lengthD [OF r(3)] .
  have "list_all2 (carries env (il_thread_id l)) (take ?k acc) gone"
    using list_all2_takeI [OF r(3), of ?k] p(1) by simp
  from sinks_rendered [OF p(2) this] obtain es where "length es = length (take ?k acc)"
    "map e_level es = map fst (take ?k acc)"
    "list_all2 (\<lambda>s s'. sink_out s' = sink_out s @ rendered se s es (take ?k acc))
       (bw_sinks (il_backend l)) (bw_sinks (il_backend l1))" by blast
  then show ?thesis using r(1) len p(1) by (intro exI [of _ l1] exI [of _ acc] exI [of _ ?k] exI [of _ es]) simp
qed

theorem system_prefix_order_witness:
  "\<exists>l1 acc k es. run_ops demo_env demo_ops demo_service = Some (l1, acc) \<and> k \<le> length acc \<and> length es = k \<and>
     map e_level es = map fst (take k acc) \<and>
     list_all2 (\<lambda>s s'. sink_out s' = sink_out s @ rendered demo_sink_env s es (take k acc))
       (bw_sinks (il_backend demo_service)) (bw_sinks (il_backend l1))"
  by (rule system_prefix_order [OF demo_service_ok demo_ops_ok(1)]) (use demo_ops_ok(2) in simp)

text \<open>C38: A text longer than the format buffer is read past its end. The dispatcher returns the length
  of the text before it cut it to the buffer, and the worker passes that length to the sinks: after
  a call with arguments whose text does not fit the format buffer is accepted by an empty queue,
  the next attempt of the worker to read the queue makes the first sink read outside the buffer.\<close>

theorem long_text_overread:
  assumes "logger_inv l" "bw_status (il_backend l) = Bw_kRunning" "\<not> level > il_level l" "level \<noteq> kFatal"
    and "call_ok env (length (call_text env fmt args)) fmt m ff df args" "args \<noteq> []"
    and "length (call_payload fmt m ff df args) < 1000"
    and "spsc_contents (il_queue l) = []" "1024 \<le> spsc_cap (il_queue l)"
    and "1024 \<le> length (bw_dequeue_buffer (il_backend l))"
    and "length (bw_format_buffer (il_backend l)) < length (call_text env fmt args)"
    and "env_on_log env = sink_on_log se" "bw_sinks (il_backend l) = s # ss" "reads_text s"
  shows "\<exists>l'. log_call env level fmt m ff df args l = Some (Returned l') \<and>
           il_enqueued_count l' = il_enqueued_count l + 1 \<and>
           read_and_process_one env (il_backend l', il_queue l') = None"
proof -
  let ?p = "call_payload fmt m ff df args" and ?fid = "call_format_id fmt args" and ?t = "call_text env fmt args"
  have "\<not> (level = kFatal \<and> il_terminate_on_fatal l)" using assms(4) by simp
  from log_call_offers [OF assms(1-3) this assms(5)] obtain l' where l':
    "log_call env level fmt m ff df args l = Some (Returned l')" "offered l level ?fid ?p l'" by blast
  have fits: "length (spsc_contents (il_queue l)) + (24 + length ?p) \<le> spsc_cap (il_queue l)"
    using assms(7-9) by simp
  obtain pad where pad: "length pad = 7" "spsc_contents (il_queue l') = entry_image (il_thread_id l) ?fid level 0 pad ?p"
    "il_enqueued_count l' = il_enqueued_count l + 1" "spsc_inv (il_queue l')" "il_backend l' = il_backend l"
    using l'(2) fits assms(7,8) unfolding offered_def Let_def logger_inv_def by auto
  let ?r = "entry_image (il_thread_id l) ?fid level 0 pad ?p" and ?w = "il_backend l'"
  have fr: "framed ?r" using framed_image [OF pad(1) assms(7)] .
  have len: "24 \<le> length ?r" "length ?r \<le> length (bw_dequeue_buffer ?w)"
    using framed_length [OF fr] assms(10) pad(5) by auto
  let ?b = "drop (length ?r) (bw_dequeue_buffer ?w)"
  obtain q' where read: "read_and_process_one env (?w, il_queue l') =
      do { w' \<leftarrow> process_log_entry env (?w\<lparr>bw_dequeue_buffer := ?r @ ?b\<rparr>); Some (True, w', q') }"
    using read_one_record [OF pad(4), of ?r "[]" ?w] pad(2) fr len(2) by auto
  let ?c = "env_clock env (bw_ticks ?w)"
  let ?e = "\<lparr>e_payload_len = of_nat (length ?p), e_format_id = ?fid, e_thread_id = il_thread_id l,
      e_timestamp_ns = ?c, e_level = level\<rparr>"
  let ?w2 = "?w\<lparr>bw_dequeue_buffer := stamped ?c ?r @ ?b, bw_ticks := Suc (bw_ticks ?w)\<rparr>"
  have fid: "?fid \<noteq> kLiteralLogStringId" using assms(6) get_string_id_not_literal by (simp add: call_format_id_def)
  have "entry_fields (stamped ?c ?r @ ?b) = Some ?e"
    unfolding entry_fields_stamped [OF len(1)] image_fields [OF assms(7)] by simp
  then have proc: "process_log_entry env (?w\<lparr>bw_dequeue_buffer := ?r @ ?b\<rparr>) =
      process_formatted env ?w2 (stamped ?c ?r @ ?b) ?e"
    using fid by (simp add: process_log_entry_def set_timestamp_stamped [OF len(1)])
  have "formatted_message env ?r = Some ?t"
    using formatted_message_image [OF pad(1) _ assms(5,6), of ?p] assms(6) by (simp add: call_payload_def call_text_def)
  from process_formatted_text [OF len(1) this refl, of ?w2 ?c ?b ?e]
  have "process_formatted env ?w2 (stamped ?c ?r @ ?b) ?e = None"
    using assms(11-14) pad(5) short_content_None [OF assms(14)] by (simp add: Let_def)
  then show ?thesis using l'(1) pad(3) read proc by simp
qed

definition wide_env :: "sink env" where
  "wide_env = demo_env\<lparr>env_format_func := (\<lambda>_. Some ''{:600}''), env_deserialize_func := (\<lambda>_. Some (False, [T_trivial 4])),
     env_vformat := (\<lambda>_ _. replicate 600 (CHR '' ''))\<rparr>"

definition wide_service :: "sink internal_logger" where
  "wide_service = demo_service\<lparr>il_backend := (il_backend demo_service)
     \<lparr>bw_format_buffer := replicate 500 (CHR 0x00)\<rparr>\<rparr>"

theorem long_text_overread_witness:
  "\<exists>l'. log_call wide_env kInfo ''{:600}'' False 1 2 [(T_trivial 4, V_bytes ''abcd'')] wide_service = Some (Returned l') \<and>
     il_enqueued_count l' = il_enqueued_count wide_service + 1 \<and>
     read_and_process_one wide_env (il_backend l', il_queue l') = None"
proof (rule long_text_overread)
  show "logger_inv wide_service"
    using queue1024_ok by (simp add: wide_service_def demo_service_def logger_inv_def internal_logger_new_def
        sizeof_LogEntry_def kMaxPayloadSize_def)
  show "call_ok wide_env (length (call_text wide_env ''{:600}'' [(T_trivial 4, V_bytes ''abcd'')])) ''{:600}'' False 1 2
      [(T_trivial 4, V_bytes ''abcd'')]"
    by (simp add: call_ok_def call_text_def wide_env_def enc_args_def enc_arg_def)
  show "length (bw_format_buffer (il_backend wide_service)) <
      length (call_text wide_env ''{:600}'' [(T_trivial 4, V_bytes ''abcd'')])"
    by (simp add: wide_service_def wide_env_def call_text_def)
  show "bw_sinks (il_backend wide_service) = [File_sink (file_new 3)]"
    by (simp add: wide_service_def demo_service_def)
  show "1024 \<le> length (bw_dequeue_buffer (il_backend wide_service))"
    by (simp add: wide_service_def demo_service_def backend_init_def backend_new_def vector_resize_def default_options_def)
qed (simp_all add: wide_service_def wide_env_def demo_service_def demo_env_def internal_logger_new_def queue1024_ok
    less_log_level_def call_payload_def args_header_def enc_args_def enc_arg_def file_new_def)

end
