(* ===== verification/Sink_Disk.thy ===== *)
theory Sink_Disk
  imports Sink_Files System
begin

text \<open>
  What becomes of the bytes a file sink hands over: \<^verbatim>\<open>FileSink\<close> and \<^verbatim>\<open>JsonLinesSink\<close>
  (\<^verbatim>\<open>src/src/include/femtolog/sinks/\<close>) together with the file system they write to, from the
  constructor that opens the log to the destructor that closes it, and the logger on top of such
  sinks. The sinks call \<^verbatim>\<open>write(2)\<close> once for each buffer and discard its result.
\<close>

subsection \<open>A sink and its file\<close>

record 'w disk_sink =
  ds_sink :: sink
  ds_path :: string
  ds_world :: 'w

text \<open>One call after the other, the results ignored.\<close>

fun run_writes :: "'w os \<Rightarrow> 'w \<Rightarrow> int \<Rightarrow> byte list list \<Rightarrow> 'w" where
  "run_writes os w fd [] = w"
| "run_writes os w fd (buf # bufs) = (let (_, w) = os_write os w fd buf in run_writes os w fd bufs)"

text \<open>The step of a sink from \<open>s\<close> to \<open>s'\<close> with the calls it made on the way.\<close>

definition disk_moves :: "'w os \<Rightarrow> 'w disk_sink \<Rightarrow> sink \<Rightarrow> 'w disk_sink" where
  "disk_moves os d s' =
     (let calls = drop (length (sink_writes (ds_sink d))) (sink_writes s')
      in d\<lparr>ds_sink := s', ds_world := run_writes os (ds_world d) (sink_fd (ds_sink d)) calls\<rparr>)"

definition disk_on_log :: "'w os \<Rightarrow> sink_env \<Rightarrow> 'w disk_sink on_log" where
  "disk_on_log os se d entry content len =
     map_option (disk_moves os d) (sink_on_log se (ds_sink d) entry content len)"

definition disk_destroy :: "'w os \<Rightarrow> 'w disk_sink \<Rightarrow> 'w disk_sink option" where
  "disk_destroy os d = do {
     s' \<leftarrow> sink_destroy (ds_sink d);
     let d = disk_moves os d s';
     Some (if 0 \<le> sink_fd s' then d\<lparr>ds_world := os_close os (ds_world d) (sink_fd s')\<rparr> else d)
   }"

definition disk_file_sink :: "'w os \<Rightarrow> 'w \<Rightarrow> string \<Rightarrow> string \<Rightarrow> 'w disk_sink option" where
  "disk_file_sink os w timestamp file_path = do {
     (s, w) \<leftarrow> file_sink_new os w timestamp file_path;
     Some \<lparr>ds_sink = File_sink s, ds_path = c_string file_path, ds_world = w\<rparr>
   }"

definition disk_json_sink :: "'w os \<Rightarrow> 'w \<Rightarrow> bool \<Rightarrow> string \<Rightarrow> string \<Rightarrow> 'w disk_sink option" where
  "disk_json_sink os w enable_buffering timestamp file_path = do {
     (s, w) \<leftarrow> json_sink_new os w enable_buffering timestamp file_path;
     Some \<lparr>ds_sink = Json_sink s, ds_path = c_string file_path, ds_world = w\<rparr>
   }"

text \<open>A sequence of messages and the destructor.\<close>

fun disk_session ::
  "'w os \<Rightarrow> sink_env \<Rightarrow> 'w disk_sink \<Rightarrow> (log_entry \<times> byte list \<times> nat) list \<Rightarrow> 'w disk_sink option" where
  "disk_session os se d [] = disk_destroy os d"
| "disk_session os se d ((e, content, n) # ms) = do {
     d \<leftarrow> disk_on_log os se d e content n;
     disk_session os se d ms
   }"

subsection \<open>What the documentation of the calls promises\<close>

text \<open>
  \<open>app w fd\<close> is the file an open descriptor appends to. Opening with \<^verbatim>\<open>O_APPEND | O_CREAT\<close> keeps what
  the file holds; a write adds a prefix of what it was given at the end of the file, as long as
  its result; closing changes no file.
\<close>

definition append_contract ::
  "'w os \<Rightarrow> ('w \<Rightarrow> string \<Rightarrow> byte list option) \<Rightarrow> ('w \<Rightarrow> int \<Rightarrow> string option) \<Rightarrow> bool" where
  "append_contract os file app \<longleftrightarrow>
     (\<forall>w p. let (fd, w1) = os_open os w p O_write_create_append in 0 \<le> fd \<longrightarrow>
        app w1 fd = Some p \<and> file w1 p = Some (case file w p of None \<Rightarrow> [] | Some c \<Rightarrow> c)) \<and>
     (\<forall>w fd p c bs. app w fd = Some p \<and> file w p = Some c \<longrightarrow>
        (let (r, w1) = os_write os w fd bs in
           r \<le> int (length bs) \<and> app w1 fd = Some p \<and> file w1 p = Some (c @ take (nat r) bs))) \<and>
     (\<forall>w fd. file (os_close os w fd) = file w)"

text \<open>An operating system that takes every buffer whole.\<close>

definition writes_whole :: "'w os \<Rightarrow> bool" where
  "writes_whole os \<longleftrightarrow> (\<forall>w fd bs. fst (os_write os w fd bs) = int (length bs))"

text \<open>The bytes each call took.\<close>

fun taken :: "'w os \<Rightarrow> 'w \<Rightarrow> int \<Rightarrow> byte list list \<Rightarrow> byte list list" where
  "taken os w fd [] = []"
| "taken os w fd (buf # bufs) =
     (let (r, w) = os_write os w fd buf in take (nat r) buf # taken os w fd bufs)"

subsection \<open>Lemmas\<close>

lemma run_writes_append:
  "run_writes os w fd (xs @ ys) = run_writes os (run_writes os w fd xs) fd ys"
  by (induction xs arbitrary: w) (simp_all add: case_prod_beta)

lemma taken_append:
  "taken os w fd (xs @ ys) = taken os w fd xs @ taken os (run_writes os w fd xs) fd ys"
  by (induction xs arbitrary: w) (simp_all add: case_prod_beta)

lemma taken_whole: "writes_whole os \<Longrightarrow> taken os w fd bufs = bufs"
proof (induction bufs arbitrary: w)
  case (Cons buf bufs)
  obtain r w' where w: "os_write os w fd buf = (r, w')" by fastforce
  have "r = int (length buf)" using Cons.prems w unfolding writes_whole_def by (metis fst_conv)
  then show ?case using Cons by (simp add: w)
qed simp

lemma length_taken: "length (taken os w fd bufs) = length bufs"
  by (induction bufs arbitrary: w) (simp_all add: case_prod_beta)

text \<open>A call takes a prefix, so the concatenations agree in length only when every buffer was taken whole.\<close>

lemma taken_shorter:
  "length (concat (taken os w fd bufs)) \<le> length (concat bufs) \<and>
   (length (concat (taken os w fd bufs)) = length (concat bufs) \<longleftrightarrow> taken os w fd bufs = bufs)"
proof (induction bufs arbitrary: w)
  case (Cons buf bufs)
  obtain r w' where w: "os_write os w fd buf = (r, w')" by fastforce
  obtain a where a: "a = take (nat r) buf" by blast
  obtain t where t: "t = taken os w' fd bufs" by blast
  have "length a \<le> length buf" by (simp add: a)
  moreover have "length a = length buf \<longleftrightarrow> a = buf" unfolding a by (metis length_take min.absorb_iff1 min.commute take_all)
  moreover have "length (concat t) \<le> length (concat bufs)" "length (concat t) = length (concat bufs) \<longleftrightarrow> t = bufs"
    using Cons.IH [of w'] t by blast+
  moreover from this(1) calculation(1) have "length a + length (concat t) = length buf + length (concat bufs) \<longleftrightarrow>
      length a = length buf \<and> length (concat t) = length (concat bufs)" by linarith
  moreover have "taken os w fd (buf # bufs) = a # t" by (simp add: w a t)
  ultimately show ?case by simp
qed simp

lemma append_write:
  assumes "append_contract os file app" "app w fd = Some p" "file w p = Some c" "os_write os w fd bs = (r, w1)"
  shows "r \<le> int (length bs)" "app w1 fd = Some p" "file w1 p = Some (c @ take (nat r) bs)"
proof -
  have "\<forall>w fd p c bs. app w fd = Some p \<and> file w p = Some c \<longrightarrow>
        (let (r, w1) = os_write os w fd bs in
           r \<le> int (length bs) \<and> app w1 fd = Some p \<and> file w1 p = Some (c @ take (nat r) bs))"
    using assms(1) by (simp add: append_contract_def)
  from this [rule_format, of w fd p c bs] assms(2-4)
  show "r \<le> int (length bs)" "app w1 fd = Some p" "file w1 p = Some (c @ take (nat r) bs)" by simp_all
qed

lemma append_open:
  assumes "append_contract os file app" "os_open os w p O_write_create_append = (fd, w1)" "0 \<le> fd"
  shows "app w1 fd = Some p" "file w1 p = Some (case file w p of None \<Rightarrow> [] | Some c \<Rightarrow> c)"
proof -
  have "\<forall>w p. let (fd, w1) = os_open os w p O_write_create_append in 0 \<le> fd \<longrightarrow>
        app w1 fd = Some p \<and> file w1 p = Some (case file w p of None \<Rightarrow> [] | Some c \<Rightarrow> c)"
    using assms(1) unfolding append_contract_def by blast
  from this [rule_format, of w p] assms(2,3)
  show "app w1 fd = Some p" "file w1 p = Some (case file w p of None \<Rightarrow> [] | Some c \<Rightarrow> c)" by simp_all
qed

lemma append_close: "append_contract os file app \<Longrightarrow> file (os_close os w fd) = file w"
  unfolding append_contract_def by blast

lemma run_writes_file:
  assumes "append_contract os file app" "app w fd = Some p" "file w p = Some c"
  shows "app (run_writes os w fd bufs) fd = Some p \<and>
         file (run_writes os w fd bufs) p = Some (c @ concat (taken os w fd bufs))"
  using assms(2,3)
proof (induction bufs arbitrary: w c)
  case (Cons buf bufs)
  obtain r w' where w: "os_write os w fd buf = (r, w')" by fastforce
  from Cons.IH [OF append_write(2,3) [OF assms(1) Cons.prems w]] show ?case by (simp add: w)
qed simp

text \<open>\<open>linked\<close>: the descriptor of the sink appends to its file, which holds \<open>c\<close>.\<close>

definition linked ::
  "('w \<Rightarrow> string \<Rightarrow> byte list option) \<Rightarrow> ('w \<Rightarrow> int \<Rightarrow> string option) \<Rightarrow> 'w disk_sink \<Rightarrow> byte list \<Rightarrow> bool" where
  "linked file app d c \<longleftrightarrow> app (ds_world d) (sink_fd (ds_sink d)) = Some (ds_path d) \<and>
     file (ds_world d) (ds_path d) = Some c"

lemma disk_moves_linked:
  assumes "append_contract os file app" "linked file app d c" "extends_calls (ds_sink d) s'"
  shows "\<exists>new. sink_writes s' = sink_writes (ds_sink d) @ new \<and> ds_sink (disk_moves os d s') = s' \<and>
     ds_path (disk_moves os d s') = ds_path d \<and>
     ds_world (disk_moves os d s') = run_writes os (ds_world d) (sink_fd (ds_sink d)) new \<and>
     linked file app (disk_moves os d s') (c @ concat (taken os (ds_world d) (sink_fd (ds_sink d)) new))"
proof -
  obtain new where n: "sink_writes s' = sink_writes (ds_sink d) @ new" "sink_fd s' = sink_fd (ds_sink d)"
    using assms(3) by (auto simp: extends_calls_def prefix_def)
  have l: "app (ds_world d) (sink_fd (ds_sink d)) = Some (ds_path d)" "file (ds_world d) (ds_path d) = Some c"
    using assms(2) by (simp_all add: linked_def)
  show ?thesis using run_writes_file [OF assms(1) l, of new] n
    by (auto simp: disk_moves_def linked_def Let_def)
qed

definition disk_inv ::
  "'w os \<Rightarrow> ('w \<Rightarrow> string \<Rightarrow> byte list option) \<Rightarrow> ('w \<Rightarrow> int \<Rightarrow> string option) \<Rightarrow> 'w disk_sink \<Rightarrow> bool" where
  "disk_inv os file app d \<longleftrightarrow> append_contract os file app \<and> writes_whole os \<and> sink_inv (ds_sink d) \<and>
     (\<exists>c. linked file app d c)"

text \<open>What the file holds with what the sink still buffers behind it.\<close>

definition disk_out :: "('w \<Rightarrow> string \<Rightarrow> byte list option) \<Rightarrow> 'w disk_sink \<Rightarrow> string" where
  "disk_out file d = the (file (ds_world d) (ds_path d)) @ sink_pending (ds_sink d)"

interpretation disk: log_sink "disk_on_log os se" "disk_inv os files app" "disk_out files"
  "\<lambda>d. sink_render se (ds_sink d)" "\<lambda>d. sink_accepts se (ds_sink d)" ds_path for os files app se
proof
  fix d content e and n :: nat
  assume inv: "disk_inv os files app d" and n: "n \<le> length content"
    and acc: "sink_accepts se (ds_sink d) e (take n content)"
  let ?s = "ds_sink d" and ?r = "sink_render se (ds_sink d) e (take n content)"
  from inv obtain c where con: "append_contract os files app" "writes_whole os" and si: "sink_inv ?s"
    and l: "linked files app d c" by (auto simp: disk_inv_def)
  from sinks.on_log_ok [OF si n acc] obtain s' where s': "sink_on_log se ?s e content n = Some s'" "sink_inv s'"
    "sink_render se s' = sink_render se ?s" "sink_accepts se s' = sink_accepts se ?s"
    "sink_out s' = sink_out ?s @ ?r" by blast
  let ?d = "disk_moves os d s'"
  from disk_moves_linked [OF con(1) l on_log_extends [OF s'(1)]] obtain new where
    m: "sink_writes s' = sink_writes ?s @ new" "ds_sink ?d = s'" "ds_path ?d = ds_path d"
    "linked files app ?d (c @ concat new)" by (auto simp: taken_whole [OF con(2)])
  have "concat new @ sink_pending s' = sink_pending ?s @ ?r"
    using s'(5) m(1) by (simp add: sink_out_split)
  then have "disk_out files ?d = disk_out files d @ ?r" using l m by (simp add: disk_out_def linked_def)
  moreover have "disk_inv os files app ?d" using con s'(2) m(2,4) by (auto simp: disk_inv_def)
  ultimately show "\<exists>d'. disk_on_log os se d e content n = Some d' \<and> disk_inv os files app d' \<and>
      sink_render se (ds_sink d') = sink_render se ?s \<and> sink_accepts se (ds_sink d') = sink_accepts se ?s \<and>
      ds_path d' = ds_path d \<and> disk_out files d' = disk_out files d @ ?r"
    using s'(1,3,4) m(2,3) by (auto simp: disk_on_log_def)
qed

lemma disk_destroy_file:
  assumes "append_contract os file app" "linked file app d c" "sink_inv (ds_sink d)"
  shows "\<exists>d' new. disk_destroy os d = Some d' \<and> ds_path d' = ds_path d \<and> concat new = sink_pending (ds_sink d) \<and>
     file (ds_world d') (ds_path d) = Some (c @ concat (taken os (ds_world d) (sink_fd (ds_sink d)) new))"
proof -
  from sink_destroy_ok [OF assms(3)] obtain s' where s': "sink_destroy (ds_sink d) = Some s'"
    "sink_written s' = sink_out (ds_sink d)" by blast
  from disk_moves_linked [OF assms(1,2) destroy_extends [OF s'(1)]] obtain new where
    m: "sink_writes s' = sink_writes (ds_sink d) @ new" "ds_path (disk_moves os d s') = ds_path d"
    "linked file app (disk_moves os d s') (c @ concat (taken os (ds_world d) (sink_fd (ds_sink d)) new))" by blast
  have "concat new = sink_pending (ds_sink d)" using s'(2) m(1) by (simp add: sink_out_split)
  then show ?thesis using s'(1) m(2,3)
    by (auto simp: disk_destroy_def Let_def linked_def append_close [OF assms(1)] intro!: exI [of _ new])
qed

lemma disk_session_file:
  assumes "append_contract os file app" "linked file app d c" "sink_inv (ds_sink d)"
    and "list_all (\<lambda>(e, content, n). n \<le> length content \<and> sink_accepts se (ds_sink d) e (take n content)) ms"
  shows "\<exists>d' bufs. disk_session os se d ms = Some d' \<and> ds_path d' = ds_path d \<and>
     concat bufs = sink_pending (ds_sink d) @
       concat (map (\<lambda>(e, content, n). sink_render se (ds_sink d) e (take n content)) ms) \<and>
     file (ds_world d') (ds_path d) = Some (c @ concat (taken os (ds_world d) (sink_fd (ds_sink d)) bufs))"
  using assms(2-4)
proof (induction ms arbitrary: d c)
  case Nil
  then show ?case using disk_destroy_file [OF assms(1) Nil(1,2)] by auto
next
  case (Cons m ms)
  obtain e content n where m: "m = (e, content, n)" by (cases m)
  let ?s = "ds_sink d"
  have pre: "n \<le> length content" "sink_accepts se ?s e (take n content)" using Cons.prems(3) m by simp_all
  from sinks.on_log_ok [OF Cons.prems(2) pre] obtain s' where s': "sink_on_log se ?s e content n = Some s'"
    "sink_inv s'" "sink_render se s' = sink_render se ?s" "sink_accepts se s' = sink_accepts se ?s"
    "sink_out s' = sink_out ?s @ sink_render se ?s e (take n content)" by blast
  let ?d = "disk_moves os d s'"
  from disk_moves_linked [OF assms(1) Cons.prems(1) on_log_extends [OF s'(1)]] obtain new where
    q: "sink_writes s' = sink_writes ?s @ new" "ds_sink ?d = s'" "ds_path ?d = ds_path d"
    "ds_world ?d = run_writes os (ds_world d) (sink_fd ?s) new"
    "linked file app ?d (c @ concat (taken os (ds_world d) (sink_fd ?s) new))" by blast
  have fd: "sink_fd s' = sink_fd ?s" using on_log_extends [OF s'(1)] by (simp add: extends_calls_def)
  have p: "concat new @ sink_pending s' = sink_pending ?s @ sink_render se ?s e (take n content)"
    using s'(5) q(1) by (simp add: sink_out_split)
  have "list_all (\<lambda>(e, content, n). n \<le> length content \<and> sink_accepts se (ds_sink ?d) e (take n content)) ms"
    using Cons.prems(3) s'(4) q(2) by simp
  from Cons.IH [OF q(5) _ this] s'(2) q(2) obtain d' bufs where d': "disk_session os se ?d ms = Some d'"
    "ds_path d' = ds_path d" "concat bufs = sink_pending s' @
       concat (map (\<lambda>(e, content, n). sink_render se s' e (take n content)) ms)"
    "file (ds_world d') (ds_path d) = Some (c @ concat (taken os (ds_world d) (sink_fd ?s) new) @
       concat (taken os (ds_world ?d) (sink_fd ?s) bufs))"
    using q(3) fd by auto
  have "concat (new @ bufs) = sink_pending ?s @
      concat (map (\<lambda>(e, content, n). sink_render se ?s e (take n content)) (m # ms))"
    using p d'(3) s'(3) m by simp
  moreover have "file (ds_world d') (ds_path d) = Some (c @ concat (taken os (ds_world d) (sink_fd ?s) (new @ bufs)))"
    using d'(4) q(4) by (simp add: taken_append)
  moreover have "disk_session os se d (m # ms) = Some d'" using s'(1) d'(1) m by (simp add: disk_on_log_def)
  ultimately show ?case using d'(2) by blast
qed

text \<open>The constructors leave a linked sink with nothing in its buffer.\<close>

lemma disk_file_sink_linked:
  assumes "append_contract os file app" "disk_file_sink os w timestamp path = Some d" "0 \<le> sink_fd (ds_sink d)"
  shows "\<exists>c. linked file app d c \<and> sink_inv (ds_sink d) \<and> sink_pending (ds_sink d) = [] \<and> ds_path d = c_string path"
proof -
  obtain fd w1 where o: "open_log_file os w timestamp path = Some (fd, w1)"
    "d = \<lparr>ds_sink = File_sink (file_new fd), ds_path = c_string path, ds_world = w1\<rparr>"
    using assms(2) by (auto simp: disk_file_sink_def file_sink_new_def split: bind_splits)
  obtain w0 where "os_open os w0 (c_string path) O_write_create_append = (fd, w1)"
    using o(1) by (auto simp: open_log_file_def split: bind_splits prod.splits)
  from append_open [OF assms(1) this] assms(3) o(2) show ?thesis
    by (auto simp: linked_def file_new_def)
qed

lemma disk_json_sink_linked:
  assumes "append_contract os file app" "disk_json_sink os w b timestamp path = Some d" "0 \<le> sink_fd (ds_sink d)"
  shows "\<exists>c. linked file app d c \<and> sink_inv (ds_sink d) \<and> sink_pending (ds_sink d) = [] \<and> ds_path d = c_string path"
proof -
  obtain fd w1 where o: "open_log_file os w timestamp path = Some (fd, w1)"
    "d = \<lparr>ds_sink = Json_sink (json_new b fd), ds_path = c_string path, ds_world = w1\<rparr>"
    using assms(2) by (auto simp: disk_json_sink_def json_sink_new_def split: bind_splits)
  obtain w0 where "os_open os w0 (c_string path) O_write_create_append = (fd, w1)"
    using o(1) by (auto simp: open_log_file_def split: bind_splits prod.splits)
  from append_open [OF assms(1) this] assms(3) o(2) show ?thesis
    by (auto simp: linked_def json_new_def)
qed

text \<open>A file system in memory that appends; a call takes at most \<open>cap\<close> bytes.\<close>

definition disk_open :: "mem_fs \<Rightarrow> string \<Rightarrow> open_mode \<Rightarrow> int \<times> mem_fs" where
  "disk_open w p m =
     (if m = O_write_create_append
      then (3, w\<lparr>mf_files := (mf_files w)(p := Some (case mf_files w p of None \<Rightarrow> [] | Some c \<Rightarrow> c)),
                 mf_desc := (mf_desc w)(3 := Some (p, 0))\<rparr>)
      else mem_open w p m)"

definition disk_write :: "nat option \<Rightarrow> mem_fs \<Rightarrow> int \<Rightarrow> byte list \<Rightarrow> int \<times> mem_fs" where
  "disk_write cap w fd bs =
     (let n = (case cap of None \<Rightarrow> length bs | Some k \<Rightarrow> min k (length bs))
      in (int n, case mem_io w fd of None \<Rightarrow> w
          | Some (p, k, c) \<Rightarrow> w\<lparr>mf_files := (mf_files w)(p := Some (c @ take n bs))\<rparr>))"

definition disk_os :: "nat option \<Rightarrow> mem_fs os" where
  "disk_os cap = mem_os\<lparr>os_open := disk_open, os_write := disk_write cap\<rparr>"

definition disk_app :: "mem_fs \<Rightarrow> int \<Rightarrow> string option" where
  "disk_app w fd = map_option fst (mf_desc w fd)"

lemma disk_os_contract: "append_contract (disk_os cap) mf_files disk_app"
  by (auto simp: append_contract_def disk_os_def disk_open_def disk_write_def disk_app_def mem_io_def mem_os_def Let_def
      split: option.splits)

lemma disk_os_whole: "writes_whole (disk_os None)"
  by (simp add: writes_whole_def disk_os_def disk_write_def Let_def)

subsection \<open>Properties\<close>

text \<open>A logger in service with an empty queue whose sinks write to files of their own.\<close>

definition disk_service ::
  "'w os \<Rightarrow> ('w \<Rightarrow> string \<Rightarrow> byte list option) \<Rightarrow> ('w \<Rightarrow> int \<Rightarrow> string option) \<Rightarrow> sink_env \<Rightarrow>
   'w disk_sink env \<Rightarrow> 'w disk_sink internal_logger \<Rightarrow> bool" where
  "disk_service os file app se env l \<longleftrightarrow> env_on_log env = disk_on_log os se \<and> logger_inv l \<and>
     serving (il_backend l) \<and> spsc_contents (il_queue l) = [] \<and>
     1024 \<le> length (bw_dequeue_buffer (il_backend l)) \<and>
     (\<forall>d \<in> set (bw_sinks (il_backend l)). disk_inv os file app d)"

fun disk_call_fine :: "sink_env \<Rightarrow> 'w disk_sink env \<Rightarrow> 'w disk_sink internal_logger \<Rightarrow> sys_op \<Rightarrow> bool" where
  "disk_call_fine se env l (Op_log level fmt m ff df args) \<longleftrightarrow>
     call_ok env (length (bw_format_buffer (il_backend l))) fmt m ff df args \<and>
     (\<forall>d \<in> set (bw_sinks (il_backend l)). \<forall>e. e_level e = level \<longrightarrow>
        sink_accepts se (ds_sink d) e (call_text env fmt args)) \<and>
     \<not> (level = kFatal \<and> il_terminate_on_fatal l)"
| "disk_call_fine se env l _ = True"

lemma disk_service_in_service:
  "disk_service os file app se env l \<Longrightarrow> disk.in_service os se file app env l []"
  by (auto simp: disk_service_def disk.in_service_def disk.backlog_def disk.all_accept_def logger_inv_def)

lemma disk_call_fine_op_ok:
  assumes "disk_service os file app se env l" "disk_call_fine se env l op"
  shows "disk.op_ok os file app se env (length (bw_format_buffer (il_backend l))) (bw_sinks (il_backend l))
           (il_terminate_on_fatal l) op"
  using assms by (cases op) (auto simp: disk.welcomes_def disk_service_def)

lemma disk_destroy_all:
  assumes "list_all2 (\<lambda>d d'. disk_inv os file app d' \<and> ds_path d' = ds_path d \<and> disk_out file d' = t d) ss ss'"
  shows "\<exists>ds. those (map (disk_destroy os) ss') = Some ds \<and>
     list_all2 (\<lambda>d d'. ds_path d' = ds_path d \<and> file (ds_world d') (ds_path d) = Some (t d)) ss ds"
  using assms
proof (induction rule: list_all2_induct)
  case (Cons d ss d' ss')
  then obtain c where c: "append_contract os file app" "writes_whole os" "sink_inv (ds_sink d')"
    "linked file app d' c" by (auto simp: disk_inv_def)
  from disk_destroy_file [OF c(1,4,3)] obtain d2 new where "disk_destroy os d' = Some d2" "ds_path d2 = ds_path d'"
    "concat new = sink_pending (ds_sink d')" "file (ds_world d2) (ds_path d') = Some (c @ concat new)"
    by (auto simp: taken_whole [OF c(2)])
  then show ?case using Cons c(4) by (auto simp: disk_out_def linked_def)
qed simp


text \<open>The logger of the demonstration with a sink that appends to a file that holds \<^verbatim>\<open>old\<close>.\<close>

definition demo_disk :: "mem_fs disk_sink" where
  "demo_disk = \<lparr>ds_sink = File_sink (file_new 3), ds_path = ''a.log'',
     ds_world = snd (disk_open (mem_start\<lparr>mf_files := [''a.log'' \<mapsto> ''old '']\<rparr>) ''a.log'' O_write_create_append)\<rparr>"

definition demo_disk_env :: "mem_fs disk_sink env" where
  "demo_disk_env = \<lparr>env_on_log = disk_on_log (disk_os None) demo_sink_env, env_clock = (\<lambda>_. 0),
     env_format_func = (\<lambda>_. None), env_deserialize_func = (\<lambda>_. None), env_vformat = (\<lambda>s _. s),
     env_order = (\<lambda>n. [0..<n]), env_mem = (\<lambda>_ _. None)\<rparr>"

definition demo_disk_service :: "mem_fs disk_sink internal_logger" where
  "demo_disk_service = (internal_logger_new 0 0)\<lparr>il_queue := queue1024,
     il_backend := (backend_init (\<lambda>b n. b) default_options (backend_new 0))
       \<lparr>bw_status := Bw_kRunning, bw_thread := Some W_check, bw_sinks := [demo_disk]\<rparr>\<rparr>"

lemma demo_disk_ok: "disk_inv (disk_os None) mf_files disk_app demo_disk" "disk_out mf_files demo_disk = ''old ''"
  using disk_os_contract disk_os_whole
  by (auto simp: disk_inv_def demo_disk_def file_new_def linked_def disk_app_def disk_open_def disk_out_def)

lemma demo_disk_service_ok: "disk_service (disk_os None) mf_files disk_app demo_sink_env demo_disk_env demo_disk_service"
  using queue1024_ok demo_disk_ok
  by (simp add: disk_service_def demo_disk_env_def demo_disk_service_def logger_inv_def internal_logger_new_def
        sizeof_LogEntry_def kMaxPayloadSize_def serving_def backend_init_def backend_new_def vector_resize_def
        default_options_def)

lemma demo_disk_ops_ok: "list_all (disk_call_fine demo_sink_env demo_disk_env demo_disk_service) demo_ops"
  "unat (bw_flush_requested_seq (il_backend demo_disk_service)) + flushes demo_ops < 2 ^ 64"
proof -
  have [simp]: "bw_sinks (il_backend demo_disk_service) = [demo_disk]" by (simp add: demo_disk_service_def)
  show "list_all (disk_call_fine demo_sink_env demo_disk_env demo_disk_service) demo_ops"
    by (simp add: demo_ops_def call_ok_def call_text_def time_text_def demo_sink_env_def level_len_def
          kFileCapacity_def demo_disk_def)
  show "unat (bw_flush_requested_seq (il_backend demo_disk_service)) + flushes demo_ops < 2 ^ 64"
    by (simp add: demo_disk_service_def demo_ops_def backend_init_def backend_new_def)
qed


text \<open>C37: The sinks trust \<^verbatim>\<open>write(2)\<close>. Whatever the operating system answers, a session with a file sink
  from its constructor to its destructor is defined; the buffers it hands over are together the
  rendered messages, and the file ends up with what each call took of its buffer. Unlike
  \<^verbatim>\<open>write_file\<close> no sink repeats the rest of a short or failed call, so the file holds every message
  if and only if each call took its whole buffer.\<close>

theorem short_write_loses_bytes:
  assumes "append_contract os file app"
    and "disk_file_sink os w timestamp path = Some d \<or> disk_json_sink os w b timestamp path = Some d"
    and "0 \<le> sink_fd (ds_sink d)"
    and "list_all (\<lambda>(e, content, n). n \<le> length content \<and> sink_accepts se (ds_sink d) e (take n content)) ms"
    and "took = taken os (ds_world d) (sink_fd (ds_sink d))"
  shows "\<exists>c d' bufs. file (ds_world d) (c_string path) = Some c \<and> disk_session os se d ms = Some d' \<and>
     concat bufs = concat (map (\<lambda>(e, content, n). sink_render se (ds_sink d) e (take n content)) ms) \<and>
     file (ds_world d') (c_string path) = Some (c @ concat (took bufs)) \<and>
     (file (ds_world d') (c_string path) = Some (c @ concat bufs) \<longleftrightarrow> took bufs = bufs)"
proof -
  obtain c where c: "linked file app d c" "sink_inv (ds_sink d)" "sink_pending (ds_sink d) = []"
    "ds_path d = c_string path"
    using disk_file_sink_linked [OF assms(1) _ assms(3)] disk_json_sink_linked [OF assms(1) _ assms(3)] assms(2) by blast
  from disk_session_file [OF assms(1) c(1,2) assms(4)] obtain d' bufs where s: "disk_session os se d ms = Some d'"
    "concat bufs = concat (map (\<lambda>(e, content, n). sink_render se (ds_sink d) e (take n content)) ms)"
    "file (ds_world d') (c_string path) = Some (c @ concat (took bufs))" using c(3,4) assms(5) by auto
  have "concat (took bufs) = concat bufs \<longleftrightarrow> took bufs = bufs"
    using taken_shorter [of os "ds_world d" "sink_fd (ds_sink d)" bufs] assms(5) by metis
  then show ?thesis using s c(1,4) by (intro exI [of _ c] exI [of _ d'] exI [of _ bufs]) (simp add: linked_def)
qed

lemma demo_short:
  "\<exists>d. disk_file_sink (disk_os (Some 2)) mem_start ''T'' ''a.log'' = Some d \<and> ds_sink d = File_sink (file_new 3)"
  by (simp add: disk_file_sink_def file_sink_new_def open_log_file_def archive_log_def prepare_directory_def
      create_directories_def directories_loop.simps make_prefix_def create_directory_def
      sanitize_component_def parent_dir_def file_exists_def dir_exists_def create_file_def c_string_def
      FEMTOLOG_DIR_SEPARATOR_def disk_os_def disk_open_def mem_os_def mem_start_def)

theorem short_write_loses_bytes_witness:
  "let e = \<lparr>e_payload_len = 2, e_format_id = 0, e_thread_id = 1, e_timestamp_ns = 5, e_level = kWarn\<rparr>;
       os = disk_os (Some 2)
   in \<exists>d c d' bufs. disk_file_sink os mem_start ''T'' ''a.log'' = Some d \<and>
        disk_session os demo_sink_env d [(e, ''hi..'', 2)] = Some d' \<and> concat bufs = ''[t] warn: hi'' \<and>
        mf_files (ds_world d') ''a.log'' = Some (c @ concat (taken os (ds_world d) 3 bufs)) \<and>
        (mf_files (ds_world d') ''a.log'' = Some (c @ ''[t] warn: hi'') \<longleftrightarrow> taken os (ds_world d) 3 bufs = bufs)"
proof -
  let ?e = "\<lparr>e_payload_len = 2, e_format_id = 0, e_thread_id = 1, e_timestamp_ns = 5, e_level = kWarn\<rparr>"
  obtain d where d: "disk_file_sink (disk_os (Some 2)) mem_start ''T'' ''a.log'' = Some d"
    "ds_sink d = File_sink (file_new 3)" using demo_short by blast
  have fd: "sink_fd (ds_sink d) = 3" by (simp add: d(2) file_new_def)
  have t: "time_text demo_sink_env ?e = ''[t] ''" by (simp add: time_text_def demo_sink_env_def)
  have a: "list_all (\<lambda>(e, content, n). n \<le> length content \<and>
      sink_accepts demo_sink_env (ds_sink d) e (take n content)) [(?e, ''hi..'', 2)]"
    by (simp add: d(2) t level_len_def kFileCapacity_def)
  have p: "c_string ''a.log'' = ''a.log''" by (simp add: c_string_def)
  have r: "concat (map (\<lambda>(e, content, n). sink_render demo_sink_env (ds_sink d) e (take n content)) [(?e, ''hi..'', 2)]) =
      ''[t] warn: hi''" by (simp add: d(2) t)
  from short_write_loses_bytes [OF disk_os_contract [of "Some 2"] _ _ a refl, of mem_start "''T''" "''a.log''"] d(1)
  obtain c d' bufs where "disk_session (disk_os (Some 2)) demo_sink_env d [(?e, ''hi..'', 2)] = Some d'"
    "concat bufs = ''[t] warn: hi''"
    "mf_files (ds_world d') ''a.log'' = Some (c @ concat (taken (disk_os (Some 2)) (ds_world d) 3 bufs))"
    "mf_files (ds_world d') ''a.log'' = Some (c @ concat bufs) \<longleftrightarrow> taken (disk_os (Some 2)) (ds_world d) 3 bufs = bufs"
    unfolding fd p r by auto
  then show ?thesis unfolding Let_def using d(1) by metis
qed

end
