(* ===== verification/Stack_Trace.thy ===== *)
theory Stack_Trace
  imports String_Util
begin

text \<open>
  Stack traces: \<^verbatim>\<open>StackTraceEntry\<close> and \<^verbatim>\<open>stack_trace_from_current_context\<close> under
  \<^verbatim>\<open>src/src/core/diagnostics/\<close>, in the build with \<^verbatim>\<open>execinfo\<close> (the default), and the collecting
  function also in the build with LLVM's unwinder. The C library's \<^verbatim>\<open>backtrace\<close>, \<^verbatim>\<open>dladdr\<close> and \<^verbatim>\<open>__cxa_demangle\<close> are a record of
  functions. Buffers the code leaves uninitialised start as NULs here; it writes them before it
  reads them.
\<close>

subsection \<open>One entry\<close>

record stack_entry =
  se_address :: "byte list"
  se_function :: "byte list"
  se_file :: "byte list"
  se_index :: size_t
  se_line :: size_t
  se_offset :: size_t
  se_use_index :: bool

definition kAddressStrLength :: nat where "kAddressStrLength = 32"
definition kFunctionStrLength :: nat where "kFunctionStrLength = 256"
definition kFileStrLength :: nat where "kFileStrLength = 512"
definition kLineBufferSize :: nat where "kLineBufferSize = 1024"
definition kSymbolBufferSize :: nat where "kSymbolBufferSize = 512"
definition kDemangledBufferSize :: nat where "kDemangledBufferSize = 512"
definition kPlatformMaxFrames :: nat where "kPlatformMaxFrames = 64"
definition kIndexAlignLength :: nat where "kIndexAlignLength = 7"
definition kAddressAlignLength :: nat where "kAddressAlignLength = 20"
definition kFunctionAlignLength :: nat where "kFunctionAlignLength = 30"
definition kUnknownFunction :: string where "kUnknownFunction = ''(unknown function)''"

lemmas stack_sizes =
  kAddressStrLength_def kFunctionStrLength_def kFileStrLength_def kLineBufferSize_def
  kSymbolBufferSize_def kDemangledBufferSize_def kPlatformMaxFrames_def
  kIndexAlignLength_def kAddressAlignLength_def kFunctionAlignLength_def

definition stack_entry_new :: stack_entry where
  "stack_entry_new =
     \<lparr>se_address = replicate kAddressStrLength (CHR 0x00),
      se_function = replicate kFunctionStrLength (CHR 0x00),
      se_file = replicate kFileStrLength (CHR 0x00),
      se_index = 0, se_line = 0, se_offset = 0, se_use_index = False\<rparr>"

definition entry_to_string :: "stack_entry \<Rightarrow> byte list \<Rightarrow> byte list option" where
  "entry_to_string e out_buf = do {
     (b, cursor) \<leftarrow>
       (if se_use_index e then do {
          (b, cursor, index_len) \<leftarrow> write_format out_buf 0 (''@'' @ decimal (unat (se_index e)));
          padding b cursor index_len kIndexAlignLength
        } else Some (out_buf, 0));
     (b, cursor) \<leftarrow>
       (if se_address e ! 0 \<noteq> CHR 0x00 then do {
          address \<leftarrow> c_str (se_address e);
          (b, cursor, addr_len) \<leftarrow> write_format b cursor address;
          padding b cursor addr_len kAddressAlignLength
        } else Some (b, cursor));
     func \<leftarrow> (if se_function e ! 0 \<noteq> CHR 0x00 then c_str (se_function e) else Some kUnknownFunction);
     (b, cursor) \<leftarrow> do {
       (b, cursor, func_len) \<leftarrow> write_format b cursor func;
       (b, cursor, func_len) \<leftarrow>
         (if 0 < se_offset e then do {
            (b, cursor, offset_len) \<leftarrow> write_format b cursor (''+0x'' @ decimal (unat (se_offset e)));
            Some (b, cursor, func_len + offset_len)
          } else Some (b, cursor, func_len));
       padding b cursor func_len kFunctionAlignLength
     };
     (b, cursor) \<leftarrow>
       (if se_file e ! 0 \<noteq> CHR 0x00 then do {
          file \<leftarrow> c_str (se_file e);
          (b, cursor, n) \<leftarrow> write_format b cursor ('' at '' @ file);
          (if 0 < se_line e then do {
             (b, cursor, n) \<leftarrow> write_format b cursor ('':'' @ decimal (unat (se_line e)));
             Some (b, cursor)
           } else Some (b, cursor))
        } else Some (b, cursor));
     (if cursor < length b then memcpy b cursor [CHR 0x00]
      else if 0 < length b then memcpy b (length b - 1) [CHR 0x00] else Some b)
   }"

subsection \<open>The trace as text\<close>

fun entries_loop :: "stack_entry list \<Rightarrow> byte list \<Rightarrow> byte list \<Rightarrow> nat \<Rightarrow> (byte list \<times> nat) option" where
  "entries_loop [] line_buffer buffer written = Some (buffer, written)"
| "entries_loop (e # es) line_buffer buffer written =
     (if written < length buffer - 1 then do {
        line_buffer \<leftarrow> entry_to_string e line_buffer;
        line_len \<leftarrow> safe_strlen (Some line_buffer);
        (if written + line_len + 1 < length buffer then do {
           (buffer, raw_written) \<leftarrow> write_raw buffer written line_buffer line_len;
           let written = written + raw_written;
           (buffer, written) \<leftarrow>
             (if written < length buffer - 1
              then do { b \<leftarrow> memcpy buffer written [CHR 0x0A]; Some (b, written + 1) }
              else Some (buffer, written));
           entries_loop es line_buffer buffer written
         } else Some (buffer, written))
      } else Some (buffer, written))"

definition stack_trace_entries_to_buffer :: "stack_entry list \<Rightarrow> nat \<Rightarrow> byte list \<Rightarrow> byte list option" where
  "stack_trace_entries_to_buffer entries count buffer =
     (if buffer = [] then Some buffer
      else if length entries < count then None
      else do {
        (b, written) \<leftarrow> entries_loop (take count entries) (replicate kLineBufferSize (CHR 0x00)) buffer 0;
        memcpy b written [CHR 0x00]
      })"

subsection \<open>Collecting the frames\<close>

text \<open>
  What \<^verbatim>\<open>dladdr\<close> reports: the memory from each name on (absent for a null pointer) and the address
  of the symbol. What \<^verbatim>\<open>__cxa_demangle\<close> does with a name and an output buffer: fail, store its
  result in the buffer, or return other memory together with the length it reports.
\<close>

record dl_info =
  dli_fname :: "byte list option"
  dli_sname :: "byte list option"
  dli_saddr :: u64

datatype demangled = Demangle_failed | Demangled_in_place string | Demangled_elsewhere "byte list" nat

record unwinder =
  uw_backtrace :: "nat \<Rightarrow> u64 list"
  uw_dladdr :: "u64 \<Rightarrow> dl_info option"
  uw_demangle :: "string \<Rightarrow> nat \<Rightarrow> demangled"

text \<open>
  The result is the memory of the name to use and the new output buffer; no caller passes a null
  pointer.
\<close>

definition demangle_symbol_safe ::
  "unwinder \<Rightarrow> byte list \<Rightarrow> byte list \<Rightarrow> (byte list \<times> byte list) option" where
  "demangle_symbol_safe uw mangled_name demangled_buffer =
     (if demangled_buffer = [] then Some (mangled_name, demangled_buffer)
      else do {
        name \<leftarrow> c_str mangled_name;
        (case uw_demangle uw name (length demangled_buffer) of
           Demangle_failed \<Rightarrow> Some (mangled_name, demangled_buffer)
         | Demangled_in_place t \<Rightarrow> do {
             b \<leftarrow> memcpy demangled_buffer 0 (t @ [CHR 0x00]); Some (b, b) }
         | Demangled_elsewhere mem len \<Rightarrow> do {
             (b, n) \<leftarrow> write_raw demangled_buffer 0 mem len; Some (b, b) })
      })"

definition is_valid_address :: "u64 \<Rightarrow> bool" where
  "is_valid_address addr =
     (if addr = 0 \<or> addr < 0x1000 then False else if 0x800000000000 \<le> addr then False else True)"

text \<open>The three scratch buffers of the collecting loop: address, demangled name, symbol.\<close>

type_synonym scratch = "byte list \<times> byte list \<times> byte list"

definition lookup_symbol ::
  "unwinder \<Rightarrow> u64 \<Rightarrow> byte list \<times> byte list \<Rightarrow>
   (byte list \<times> byte list \<times> size_t \<times> byte list \<times> byte list) option" where
  "lookup_symbol uw current_address bufs = (case bufs of (demangled_buf, symbol_buf) \<Rightarrow>
     (case uw_dladdr uw current_address of
        None \<Rightarrow> Some ([CHR 0x00], [CHR 0x00], 0, demangled_buf, symbol_buf)
      | Some info \<Rightarrow> do {
          (function_name, demangled_buf, symbol_buf) \<leftarrow>
            (case dli_sname info of
               None \<Rightarrow> Some ([CHR 0x00], demangled_buf, symbol_buf)
             | Some sname \<Rightarrow> do {
                 (symbol_buf, n) \<leftarrow> write_raw symbol_buf 0 sname kSymbolBufferSize;
                 (function_name, demangled_buf) \<leftarrow> demangle_symbol_safe uw symbol_buf demangled_buf;
                 Some (function_name, demangled_buf, symbol_buf) });
          let file_name = (case dli_fname info of None \<Rightarrow> [CHR 0x00] | Some fname \<Rightarrow> fname);
          let offset = (if dli_saddr info \<noteq> 0 \<and> dli_saddr info \<le> current_address
                        then current_address - dli_saddr info else 0);
          Some (function_name, file_name, offset, demangled_buf, symbol_buf)
        }))"

definition fill_entry ::
  "unwinder \<Rightarrow> u64 \<Rightarrow> size_t \<Rightarrow> bool \<Rightarrow> scratch \<Rightarrow> stack_entry \<Rightarrow> (stack_entry \<times> scratch) option" where
  "fill_entry uw current_address index use_index s entry =
     (case s of (address_buf, demangled_buf, symbol_buf) \<Rightarrow> do {
        address_buf \<leftarrow> format_address_safe current_address address_buf;
        (address, n) \<leftarrow> write_raw (se_address entry) 0 address_buf (length address_buf);
        (function_name, file_name, offset, demangled_buf, symbol_buf) \<leftarrow>
          lookup_symbol uw current_address (demangled_buf, symbol_buf);
        function_len \<leftarrow> safe_strlen (Some function_name);
        (function, n) \<leftarrow> write_raw (se_function entry) 0 function_name function_len;
        file_len \<leftarrow> safe_strlen (Some file_name);
        (file, n) \<leftarrow> write_raw (se_file entry) 0 file_name file_len;
        Some (\<lparr>se_address = address, se_function = function, se_file = file, se_index = index,
               se_line = 0, se_offset = offset, se_use_index = use_index\<rparr>,
              address_buf, demangled_buf, symbol_buf)
      })"

fun collect_loop ::
  "unwinder \<Rightarrow> bool \<Rightarrow> nat \<Rightarrow> nat \<Rightarrow> u64 list \<Rightarrow> scratch \<Rightarrow> stack_entry list \<Rightarrow> nat \<Rightarrow>
   (stack_entry list \<times> nat) option" where
  "collect_loop uw use_index first_frame i [] s out collected_count = Some (out, collected_count)"
| "collect_loop uw use_index first_frame i (current_address # stack) s out collected_count =
     (if \<not> is_valid_address current_address
      then collect_loop uw use_index first_frame (Suc i) stack s out collected_count
      else if length out \<le> collected_count then None
      else do {
        (entry, s) \<leftarrow> fill_entry uw current_address
          (if use_index then of_nat (i - first_frame) else 0) use_index s (out ! collected_count);
        collect_loop uw use_index first_frame (Suc i) stack s (out[collected_count := entry])
          (Suc collected_count)
      })"

definition collect_stack_trace ::
  "unwinder \<Rightarrow> stack_entry list \<Rightarrow> bool \<Rightarrow> nat \<Rightarrow> nat \<Rightarrow> (stack_entry list \<times> nat) option" where
  "collect_stack_trace uw out use_index first_frame max_frames =
     (let max_frames = min max_frames kPlatformMaxFrames;
          first_frame = min first_frame max_frames
      in if max_frames \<le> first_frame then Some (out, 0)
         else collect_loop uw use_index first_frame first_frame
                (drop first_frame (uw_backtrace uw max_frames))
                (replicate kAddressStrLength (CHR 0x00), replicate kDemangledBufferSize (CHR 0x00),
                 replicate kSymbolBufferSize (CHR 0x00))
                out 0)"

text \<open>
  The same function in the build with LLVM's unwinder. A frame is what the cursor reports of it: its
  instruction pointer, unless \<^verbatim>\<open>unw_get_reg\<close> fails, and the name and offset of its procedure, unless
  \<^verbatim>\<open>unw_get_proc_name\<close> fails; \<^verbatim>\<open>unw_step\<close> goes to the next frame of the list. Here the file name is
  copied with the size of its array and the symbol name only looked up when the unwinder has none.
\<close>

record unw_frame =
  uf_ip :: "u64 option"
  uf_proc :: "(string \<times> size_t) option"

definition llvm_symbol ::
  "unwinder \<Rightarrow> unw_frame \<Rightarrow> u64 \<Rightarrow> byte list \<times> byte list \<Rightarrow>
   (byte list \<times> size_t \<times> byte list \<times> byte list) option" where
  "llvm_symbol uw frame ip bufs = (case bufs of (demangled_buf, symbol_buf) \<Rightarrow>
     (case uf_proc frame of
        Some (name, symbol_offset) \<Rightarrow> do {
          symbol_buf \<leftarrow> memcpy symbol_buf 0 (name @ [CHR 0x00]);
          (function_name, demangled_buf) \<leftarrow> demangle_symbol_safe uw symbol_buf demangled_buf;
          Some (function_name, symbol_offset, demangled_buf, symbol_buf) }
      | None \<Rightarrow>
          (case uw_dladdr uw ip of
             None \<Rightarrow> Some ([CHR 0x00], 0, demangled_buf, symbol_buf)
           | Some info \<Rightarrow>
               (case dli_sname info of
                  None \<Rightarrow> Some ([CHR 0x00], 0, demangled_buf, symbol_buf)
                | Some sname \<Rightarrow> do {
                    (symbol_buf, n) \<leftarrow> write_raw symbol_buf 0 sname kSymbolBufferSize;
                    (function_name, demangled_buf) \<leftarrow> demangle_symbol_safe uw symbol_buf demangled_buf;
                    let offset = (if dli_saddr info \<noteq> 0 \<and> dli_saddr info \<le> ip
                                  then ip - dli_saddr info else 0);
                    Some (function_name, offset, demangled_buf, symbol_buf) }))))"

definition llvm_fill_entry ::
  "unwinder \<Rightarrow> unw_frame \<Rightarrow> u64 \<Rightarrow> size_t \<Rightarrow> bool \<Rightarrow> scratch \<Rightarrow> stack_entry \<Rightarrow>
   (stack_entry \<times> scratch) option" where
  "llvm_fill_entry uw frame ip index use_index s entry =
     (case s of (address_buf, demangled_buf, symbol_buf) \<Rightarrow> do {
        address_buf \<leftarrow> format_address_safe ip address_buf;
        (address, n) \<leftarrow> write_raw (se_address entry) 0 address_buf (length address_buf);
        (function_name, offset, demangled_buf, symbol_buf) \<leftarrow>
          llvm_symbol uw frame ip (demangled_buf, symbol_buf);
        function_len \<leftarrow> safe_strlen (Some function_name);
        (function, n) \<leftarrow> write_raw (se_function entry) 0 function_name function_len;
        let file_name = (case uw_dladdr uw ip of None \<Rightarrow> [CHR 0x00]
          | Some info \<Rightarrow> (case dli_fname info of None \<Rightarrow> [CHR 0x00] | Some fname \<Rightarrow> fname));
        (file, n) \<leftarrow> write_raw (se_file entry) 0 file_name kFileStrLength;
        Some (\<lparr>se_address = address, se_function = function, se_file = file, se_index = index,
               se_line = 0, se_offset = offset, se_use_index = use_index\<rparr>,
              address_buf, demangled_buf, symbol_buf)
      })"

fun llvm_collect_loop ::
  "unwinder \<Rightarrow> bool \<Rightarrow> nat \<Rightarrow> nat \<Rightarrow> unw_frame list \<Rightarrow> nat \<Rightarrow> scratch \<Rightarrow> stack_entry list \<Rightarrow> nat \<Rightarrow>
   (stack_entry list \<times> nat) option" where
  "llvm_collect_loop uw use_index first_frame max_frames [] frame_index s out collected_count =
     Some (out, collected_count)"
| "llvm_collect_loop uw use_index first_frame max_frames (frame # cursor) frame_index s out collected_count =
     (if frame_index < first_frame
      then llvm_collect_loop uw use_index first_frame max_frames cursor (Suc frame_index) s out collected_count
      else if max_frames \<le> collected_count then Some (out, collected_count)
      else case uf_ip frame of
        None \<Rightarrow> llvm_collect_loop uw use_index first_frame max_frames cursor (Suc frame_index) s out collected_count
      | Some ip \<Rightarrow>
          if \<not> is_valid_address ip
          then llvm_collect_loop uw use_index first_frame max_frames cursor (Suc frame_index) s out collected_count
          else if length out \<le> collected_count then None
          else do {
            (entry, s) \<leftarrow> llvm_fill_entry uw frame ip
              (if use_index then of_nat (frame_index - first_frame) else 0) use_index s (out ! collected_count);
            llvm_collect_loop uw use_index first_frame max_frames cursor (Suc frame_index) s
              (out[collected_count := entry]) (Suc collected_count)
          })"

text \<open>A cursor that cannot be initialised has no frames; otherwise there is at least the current one.\<close>

definition llvm_collect_stack_trace ::
  "unwinder \<Rightarrow> unw_frame list option \<Rightarrow> stack_entry list \<Rightarrow> bool \<Rightarrow> nat \<Rightarrow> nat \<Rightarrow>
   (stack_entry list \<times> nat) option" where
  "llvm_collect_stack_trace uw cursor out use_index first_frame max_frames =
     (let max_frames = min max_frames kPlatformMaxFrames;
          first_frame = min first_frame max_frames
      in if max_frames \<le> first_frame then Some (out, 0)
         else case cursor of
           None \<Rightarrow> Some (out, 0)
         | Some frames \<Rightarrow> llvm_collect_loop uw use_index first_frame max_frames frames 0
             (replicate kAddressStrLength (CHR 0x00), replicate kDemangledBufferSize (CHR 0x00),
              replicate kSymbolBufferSize (CHR 0x00)) out 0)"

definition stack_trace_to_buffer ::
  "unwinder \<Rightarrow> byte list \<Rightarrow> bool \<Rightarrow> nat \<Rightarrow> nat \<Rightarrow> byte list option" where
  "stack_trace_to_buffer uw buffer use_index first_frame max_frames = do {
     (entries, count) \<leftarrow> collect_stack_trace uw (replicate kPlatformMaxFrames stack_entry_new)
       use_index first_frame max_frames;
     stack_trace_entries_to_buffer entries count buffer
   }"

text \<open>The overload that returns a string skips its own frame and uses a buffer of 4096 bytes.\<close>

definition stack_trace_from_current_context ::
  "unwinder \<Rightarrow> bool \<Rightarrow> nat \<Rightarrow> nat \<Rightarrow> string option" where
  "stack_trace_from_current_context uw use_index first_frame max_frames = do {
     buf \<leftarrow> stack_trace_to_buffer uw (replicate 4096 (CHR 0x00)) use_index
       ((first_frame + 1) mod 2 ^ 64) max_frames;
     c_str buf
   }"

subsection \<open>Reference text\<close>

definition text_of :: "byte list \<Rightarrow> string" where
  "text_of block = takeWhile (\<lambda>c. c \<noteq> CHR 0x00) block"

definition pad_to :: "nat \<Rightarrow> string \<Rightarrow> string" where
  "pad_to n s = s @ replicate (n - length s) (CHR '' '')"

definition stack_line :: "stack_entry \<Rightarrow> string" where
  "stack_line e =
     (if se_use_index e then pad_to 7 (''@'' @ decimal (unat (se_index e))) else []) @
     (if text_of (se_address e) = [] then [] else pad_to 20 (text_of (se_address e))) @
     pad_to 30 ((if text_of (se_function e) = [] then ''(unknown function)'' else text_of (se_function e)) @
       (if se_offset e = 0 then [] else ''+0x'' @ decimal (unat (se_offset e)))) @
     (if text_of (se_file e) = [] then []
      else '' at '' @ text_of (se_file e) @
        (if se_line e = 0 then [] else '':'' @ decimal (unat (se_line e))))"

text \<open>As many whole lines as leave room for a final NUL.\<close>

fun fitting_lines :: "nat \<Rightarrow> string list \<Rightarrow> string" where
  "fitting_lines room [] = []"
| "fitting_lines room (l # ls) =
     (if length l + 1 < room then l @ [CHR 0x0A] @ fitting_lines (room - (length l + 1)) ls else [])"

subsection \<open>Lemmas\<close>

named_theorems text_simps \<open>C strings in blocks\<close>

definition terminated :: "byte list \<Rightarrow> bool" where
  "terminated block \<longleftrightarrow> CHR 0x00 \<in> set block"

lemma terminated_simps [text_simps]:
  "terminated block \<Longrightarrow> strlen block = Some (length (text_of block))"
  "terminated block \<Longrightarrow> safe_strlen (Some block) = Some (length (text_of block))"
  by (simp_all add: terminated_def strlen_def safe_strlen_def text_of_def)

lemma text_of_prefix: "take (length (text_of block)) block = text_of block"
  unfolding text_of_def by (rule takeWhile_eq_take [symmetric])

lemma text_of_le: "length (text_of block) \<le> length block"
  by (simp add: text_of_def length_takeWhile_le)

lemma text_of_less: "terminated block \<Longrightarrow> length (text_of block) < length block"
  by (induction block) (auto simp: text_of_def terminated_def)

lemma mem_read_text [text_simps]: "mem_read block 0 (length (text_of block)) = Some (text_of block)"
  by (simp add: mem_read_def text_of_le text_of_prefix)

lemma c_str_text [text_simps]: "terminated block \<Longrightarrow> c_str block = Some (text_of block)"
  by (simp add: c_str_def text_simps)

lemma text_of_first: "terminated block \<Longrightarrow> block ! 0 \<noteq> CHR 0x00 \<longleftrightarrow> text_of block \<noteq> []"
  by (cases block) (auto simp: text_of_def terminated_def)

lemma text_of_NUL: "CHR 0x00 \<notin> set (text_of block)"
  by (auto simp: text_of_def dest: set_takeWhileD)

lemma text_of_append: "CHR 0x00 \<notin> set t \<Longrightarrow> text_of (t @ CHR 0x00 # rest) = t"
  by (induction t) (auto simp: text_of_def)

lemma decimal_NUL: "CHR 0x00 \<notin> set (decimal n)"
proof (induction n rule: decimal.induct)
  case (1 n)
  have d: "CHR 0x00 \<noteq> ''0123456789'' ! k" if "k < 10" for k :: nat
    using that by (auto simp: less_Suc_eq numeral_eq_Suc)
  show ?case using 1 d [of n] d [of "n mod 10"] by (subst decimal.simps) (auto simp: d)
qed

lemma stack_line_NUL: "CHR 0x00 \<notin> set (stack_line e)"
  using text_of_NUL decimal_NUL by (auto simp: stack_line_def pad_to_def split: if_splits)

text \<open>The state of a formatted line in a block of \<open>n\<close> bytes: the cursor and the text put there so far,
  of which a full block keeps all but the last byte.\<close>

definition wrote :: "nat \<Rightarrow> byte list \<Rightarrow> nat \<Rightarrow> string \<Rightarrow> bool" where
  "wrote n b cursor t \<longleftrightarrow> 0 < n \<and> length b = n \<and> cursor \<le> n \<and>
     min cursor (n - 1) = min (length t) (n - 1) \<and> take (min cursor (n - 1)) b = take (n - 1) t"

lemma wrote_start: "b \<noteq> [] \<Longrightarrow> wrote (length b) b 0 []"
  by (auto simp: wrote_def)

lemma wrote_part:
  "0 < n \<Longrightarrow> length b = n \<Longrightarrow> cursor \<le> n \<Longrightarrow> min cursor (n - 1) = k \<Longrightarrow> min (length t) (n - 1) = k \<Longrightarrow>
   take k b = u \<Longrightarrow> take (n - 1) t = u \<Longrightarrow> wrote n b cursor t"
  by (simp add: wrote_def)

lemma take_pad: "q \<le> p \<Longrightarrow> take (length t + q) (t @ replicate p c @ r) = t @ replicate q c"
  by simp

lemma wrote_full:
  "0 < n \<Longrightarrow> length b = n \<Longrightarrow> cursor \<le> n \<Longrightarrow> n - 1 \<le> cursor \<Longrightarrow> n - 1 \<le> length t \<Longrightarrow>
   take (n - 1) b = take (n - 1) t \<Longrightarrow> wrote n b cursor t"
  by (simp add: wrote_def)

lemma wrote_format:
  assumes "wrote n b cursor t"
  obtains b' cursor' k where "write_format b cursor s = Some (b', cursor', k)" "wrote n b' cursor' (t @ s)"
    "k \<le> length s" "k = length s \<or> n - 1 \<le> cursor'"
proof (cases "n - 1 \<le> cursor")
  case True
  then have "n - 1 \<le> length t" "length b = n" "0 < n" "cursor \<le> n" using assms by (auto simp: wrote_def)
  show thesis
  proof (cases "cursor = n")
    case c: True
    then have "write_format b cursor s = Some (b, cursor, 0)" using \<open>length b = n\<close> by (simp add: write_format_def)
    then show thesis using assms c \<open>n - 1 \<le> length t\<close> that [of b cursor 0] by (auto simp: wrote_def)
  next
    case False
    then have c: "cursor = n - 1" "\<not> n \<le> cursor" using True \<open>cursor \<le> n\<close> \<open>0 < n\<close> by simp_all
    then have "write_format b cursor s = Some (take (n - 1) b @ [CHR 0x00], cursor, 0)"
      using \<open>length b = n\<close> \<open>0 < n\<close> by (simp add: write_format_def memcpy_def)
    then show thesis using assms c \<open>n - 1 \<le> length t\<close> that [of "take (n - 1) b @ [CHR 0x00]" cursor 0]
      by (auto simp: wrote_def)
  qed
next
  case False
  then have c: "cursor = length t" "cursor < n - 1" and b: "length b = n" "take cursor b = t"
    using assms by (auto simp: wrote_def min_def split: if_splits)
  define out where "out = take (n - cursor - 1) s"
  have out_len: "length out = min (length s) (n - cursor - 1)" by (simp add: out_def)
  let ?b = "t @ out @ [CHR 0x00] @ drop (Suc (cursor + length out)) b"
  have m: "memcpy b cursor out = Some (t @ out @ drop (cursor + length out) b)"
    using c b out_len by (simp add: memcpy_def)
  have m': "memcpy (t @ out @ drop (cursor + length out) b) (cursor + length out) [CHR 0x00] = Some ?b"
    using c b out_len by (simp add: memcpy_def)
  have w: "write_format b cursor s = Some (?b, cursor + length out, length out)"
  proof -
    have e: "take (length b - cursor - 1) s = out" and "\<not> length b \<le> cursor"
      using b(1) c(2) by (auto simp: out_def)
    then show ?thesis unfolding write_format_def Let_def e using m m' by simp
  qed
  have l: "length ?b = n" using c b(1) out_len by simp
  show thesis
  proof (rule that [OF w])
    have "take (n - 1) (t @ s) = t @ out" using c by (simp add: out_def)
    moreover have "take (cursor + length out) ?b = t @ out" using c by simp
    moreover have "min (cursor + length out) (n - 1) = cursor + length out" "cursor + length out \<le> n"
      "min (length (t @ s)) (n - 1) = cursor + length out" using c out_len by auto
    ultimately show "wrote n ?b (cursor + length out) (t @ s)" using l c(2) unfolding wrote_def by simp
    show "length out \<le> length s" "length out = length s \<or> n - 1 \<le> cursor + length out" using out_len c by auto
  qed
qed

lemma wrote_padding:
  assumes "wrote n b cursor t" "k = length s \<or> n - 1 \<le> cursor" "k \<le> length s"
  obtains b' cursor' where "padding b cursor k m = Some (b', cursor')"
    "wrote n b' cursor' (t @ replicate (m - length s) (CHR '' ''))"
proof -
  have b: "length b = n" "cursor \<le> n" "0 < n" using assms(1) by (auto simp: wrote_def)
  let ?p = "min (m - k) (n - cursor)"
  let ?b = "take cursor b @ replicate ?p (CHR '' '') @ drop (cursor + ?p) b"
  have p: "padding b cursor k m = Some (?b, cursor + ?p)"
    using b by (auto simp: padding_def Let_def memcpy_def)
  show thesis
  proof (rule that [OF p])
    show "wrote n ?b (cursor + ?p) (t @ replicate (m - length s) (CHR '' ''))"
    proof (cases "n - 1 \<le> cursor")
      case True
      have "take (n - 1) ?b = take (n - 1) (take cursor b)" using True b by simp
      also have "\<dots> = take (n - 1) b" using True by (simp add: min_def)
      also have "\<dots> = take (n - 1) t" using True assms(1) by (simp add: wrote_def)
      finally have e: "take (n - 1) ?b = take (n - 1) t" .
      have l: "n - 1 \<le> length t" using True assms(1) by (auto simp: wrote_def)
      show ?thesis
      proof (rule wrote_full)
        show "take (n - 1) ?b = take (n - 1) (t @ replicate (m - length s) (CHR '' ''))"
          unfolding e using l by simp
      qed (use True b l in auto)
    next
      case False
      then have k: "k = length s" and t: "cursor = length t" "take cursor b = t"
        using assms by (auto simp: wrote_def min_def split: if_splits)
      let ?q = "min (m - k) (n - 1 - cursor)"
      show ?thesis
      proof (rule wrote_part)
        show "min (cursor + ?p) (n - 1) = cursor + ?q" using False by linarith
        show "take (cursor + ?q) ?b = t @ replicate ?q (CHR '' '')"
          unfolding t(2) unfolding t(1) by (rule take_pad) linarith
        show "take (n - 1) (t @ replicate (m - length s) (CHR '' '')) = t @ replicate ?q (CHR '' '')"
          using t(1) False k by (simp add: min.commute)
        show "min (length (t @ replicate (m - length s) (CHR '' ''))) (n - 1) = cursor + ?q"
          using t(1) False k by simp
      qed (use b in auto)
    qed
  qed
qed

lemma wrote_finish:
  assumes "wrote n b cursor t"
  shows "\<exists>b'. (if cursor < length b then memcpy b cursor [CHR 0x00]
      else if 0 < length b then memcpy b (length b - 1) [CHR 0x00] else Some b) = Some b' \<and>
    length b' = n \<and> prefix (take (n - 1) t @ [CHR 0x00]) b'"
proof -
  let ?m = "min cursor (n - 1)"
  have w: "0 < n" "length b = n" "cursor \<le> n" "take ?m b = take (n - 1) t"
    using assms by (auto simp: wrote_def)
  have e: "(if cursor < length b then memcpy b cursor [CHR 0x00]
      else if 0 < length b then memcpy b (length b - 1) [CHR 0x00] else Some b) = memcpy b ?m [CHR 0x00]"
    using w(1-3) by (auto simp: min_def)
  have m: "Suc ?m \<le> length b" using w(1,2) by linarith
  then have "memcpy b ?m [CHR 0x00] = Some (take (n - 1) t @ [CHR 0x00] @ drop (Suc ?m) b)"
    unfolding memcpy_def w(4) by simp
  moreover have "length (take (n - 1) t @ [CHR 0x00] @ drop (Suc ?m) b) = n"
    unfolding w(4) [symmetric] using m w(2) by simp
  ultimately show ?thesis unfolding e by (auto intro!: prefixI)
qed

lemma to_string_file:
  assumes "wrote n b cursor t"
  shows "\<exists>b' cursor'.
    (if Q then do { (b, cursor, k) \<leftarrow> write_format b cursor s;
                    (if P then do { (b, cursor, k) \<leftarrow> write_format b cursor r; Some (b, cursor) }
                     else Some (b, cursor)) }
     else Some (b, cursor)) = Some (b', cursor') \<and>
    wrote n b' cursor' (t @ (if Q then s @ (if P then r else []) else []))"
proof -
  obtain b1 c1 k where 1: "write_format b cursor s = Some (b1, c1, k)" "wrote n b1 c1 (t @ s)"
    using wrote_format [OF assms] .
  obtain b2 c2 l where 2: "write_format b1 c1 r = Some (b2, c2, l)" "wrote n b2 c2 ((t @ s) @ r)"
    using wrote_format [OF 1(2)] .
  show ?thesis using assms 1 2 by auto
qed

definition well_terminated :: "stack_entry \<Rightarrow> bool" where
  "well_terminated e \<longleftrightarrow> terminated (se_address e) \<and> terminated (se_function e) \<and> terminated (se_file e)"

text \<open>Each stretch of the line: what it adds, whatever stands before it.\<close>

lemma to_string_index:
  assumes "wrote n b cursor t"
  shows "\<exists>b' cursor'.
    (if P then do { (b, cursor, k) \<leftarrow> write_format b cursor s; padding b cursor k m }
     else Some (b, cursor)) = Some (b', cursor') \<and>
    wrote n b' cursor' (t @ (if P then pad_to m s else []))"
proof -
  obtain b1 c1 k where 1: "write_format b cursor s = Some (b1, c1, k)" "wrote n b1 c1 (t @ s)"
    "k \<le> length s" "k = length s \<or> n - 1 \<le> c1" using wrote_format [OF assms] .
  obtain b2 c2 where 2: "padding b1 c1 k m = Some (b2, c2)"
    "wrote n b2 c2 ((t @ s) @ replicate (m - length s) (CHR '' ''))"
    using wrote_padding [OF 1(2) 1(4) 1(3)] .
  show ?thesis using assms 1 2 by (auto simp: pad_to_def)
qed

lemma to_string_function:
  assumes "wrote n b cursor t"
  shows "\<exists>b' cursor'.
    (do { (b, cursor, func_len) \<leftarrow> write_format b cursor s;
           (b, cursor, func_len) \<leftarrow>
             (if P then do { (b, cursor, offset_len) \<leftarrow> write_format b cursor r;
                             Some (b, cursor, func_len + offset_len) }
              else Some (b, cursor, func_len));
           padding b cursor func_len m }) = Some (b', cursor') \<and>
    wrote n b' cursor' (t @ pad_to m (s @ (if P then r else [])))"
proof -
  obtain b1 c1 k where 1: "write_format b cursor s = Some (b1, c1, k)" "wrote n b1 c1 (t @ s)"
    "k \<le> length s" "k = length s \<or> n - 1 \<le> c1" using wrote_format [OF assms] .
  show ?thesis
  proof (cases P)
    case False
    obtain b2 c2 where "padding b1 c1 k m = Some (b2, c2)"
      "wrote n b2 c2 ((t @ s) @ replicate (m - length s) (CHR '' ''))"
      using wrote_padding [OF 1(2) 1(4) 1(3)] .
    then show ?thesis using 1 False by (auto simp: pad_to_def)
  next
    case True
    obtain b2 c2 l where 2: "write_format b1 c1 r = Some (b2, c2, l)" "wrote n b2 c2 ((t @ s) @ r)"
      "l \<le> length r" "l = length r \<or> n - 1 \<le> c2" using wrote_format [OF 1(2)] .
    have "c1 \<le> c2" using 2(1) by (auto simp: write_format_def Let_def split: if_splits bind_splits)
    then have "k + l = length (s @ r) \<or> n - 1 \<le> c2" "k + l \<le> length (s @ r)"
      using 1(3,4) 2(3,4) by auto
    moreover have "wrote n b2 c2 (t @ s @ r)" using 2(2) by simp
    ultimately obtain b3 c3 where "padding b2 c2 (k + l) m = Some (b3, c3)"
      "wrote n b3 c3 ((t @ s @ r) @ replicate (m - length (s @ r)) (CHR '' ''))"
      using wrote_padding [of n b2 c2 "t @ s @ r" "k + l" "s @ r" m] by (metis append.assoc)
    then show ?thesis using 1 2 True by (auto simp: pad_to_def)
  qed
qed

lemma entry_to_string_spec:
  assumes "well_terminated e" "out_buf \<noteq> []"
  shows "\<exists>b. entry_to_string e out_buf = Some b \<and> length b = length out_buf \<and>
    prefix (take (length out_buf - 1) (stack_line e) @ [CHR 0x00]) b"
proof -
  let ?n = "length out_buf"
  have e: "terminated (se_address e)" "terminated (se_function e)" "terminated (se_file e)"
    using assms(1) by (auto simp: well_terminated_def)
  let ?t1 = "if se_use_index e then pad_to 7 (''@'' @ decimal (unat (se_index e))) else []"
  obtain b1 c1 where 1: "(if se_use_index e then do {
          (b, cursor, index_len) \<leftarrow> write_format out_buf 0 (''@'' @ decimal (unat (se_index e)));
          padding b cursor index_len 7
        } else Some (out_buf, 0)) = Some (b1, c1)" "wrote ?n b1 c1 ?t1"
    using to_string_index [OF wrote_start [OF assms(2)], of "se_use_index e"] by (metis append_Nil)
  let ?t2 = "?t1 @ (if text_of (se_address e) = [] then [] else pad_to 20 (text_of (se_address e)))"
  obtain b2 c2 where 2: "(if se_address e ! 0 \<noteq> CHR 0x00 then do {
          address \<leftarrow> c_str (se_address e);
          (b, cursor, addr_len) \<leftarrow> write_format b1 c1 address;
          padding b cursor addr_len 20
        } else Some (b1, c1)) = Some (b2, c2)" "wrote ?n b2 c2 ?t2"
    using to_string_index [OF 1(2), of "text_of (se_address e) \<noteq> []" "text_of (se_address e)" 20]
      text_of_first [OF e(1)] e(1) by (auto simp: text_simps)
  let ?f = "if text_of (se_function e) = [] then ''(unknown function)'' else text_of (se_function e)"
  have f: "(if se_function e ! 0 \<noteq> CHR 0x00 then c_str (se_function e) else Some ''(unknown function)'') = Some ?f"
    using text_of_first [OF e(2)] e(2) by (auto simp: text_simps)
  let ?o = "''+0x'' @ decimal (unat (se_offset e))"
  let ?t3 = "?t2 @ pad_to 30 (?f @ (if 0 < se_offset e then ?o else []))"
  obtain b3 c3 where 3: "(do { (b, cursor, func_len) \<leftarrow> write_format b2 c2 ?f;
           (b, cursor, func_len) \<leftarrow>
             (if 0 < se_offset e then do { (b, cursor, offset_len) \<leftarrow> write_format b cursor ?o;
                             Some (b, cursor, func_len + offset_len) }
              else Some (b, cursor, func_len));
           padding b cursor func_len 30 }) = Some (b3, c3)" "wrote ?n b3 c3 ?t3"
    using to_string_function [OF 2(2), of ?f "0 < se_offset e" ?o 30] by blast
  let ?l = "'':'' @ decimal (unat (se_line e))"
  let ?t4 = "?t3 @ (if text_of (se_file e) = [] then []
      else '' at '' @ text_of (se_file e) @ (if 0 < se_line e then ?l else []))"
  obtain b4 c4 where 4: "(if se_file e ! 0 \<noteq> CHR 0x00 then do {
          file \<leftarrow> c_str (se_file e);
          (b, cursor, n) \<leftarrow> write_format b3 c3 ('' at '' @ file);
          (if 0 < se_line e then do {
             (b, cursor, n) \<leftarrow> write_format b cursor ?l;
             Some (b, cursor)
           } else Some (b, cursor))
        } else Some (b3, c3)) = Some (b4, c4)" "wrote ?n b4 c4 ?t4"
    using to_string_file [OF 3(2), of "text_of (se_file e) \<noteq> []" "'' at '' @ text_of (se_file e)"
        "0 < se_line e" ?l] text_of_first [OF e(3)] e(3) by (auto simp: text_simps)
  have "?t4 = stack_line e" by (simp add: stack_line_def word_gt_0)
  then show ?thesis using wrote_finish [OF 4(2)]
    unfolding entry_to_string_def kIndexAlignLength_def kAddressAlignLength_def
      kFunctionAlignLength_def kUnknownFunction_def 1(1) 2(1) 3(1) 4(1) f Option.bind.simps
      prod.case
    by simp
qed

lemma text_of_prefixed: "prefix (t @ [CHR 0x00]) b \<Longrightarrow> CHR 0x00 \<notin> set t \<Longrightarrow> terminated b \<and> text_of b = t"
  using text_of_append by (fastforce simp: prefix_def terminated_def)

lemma entries_loop_spec:
  assumes "\<forall>e \<in> set es. well_terminated e \<and> length (stack_line e) < length line_buffer"
    "written < length buffer" "line_buffer \<noteq> []"
  shows "\<exists>b k. entries_loop es line_buffer buffer written = Some (b, k) \<and> length b = length buffer \<and>
    k < length b \<and>
    take k b = take written buffer @ fitting_lines (length buffer - written) (map stack_line es)"
  using assms
proof (induction es arbitrary: line_buffer buffer written)
  case Nil
  then show ?case by simp
next
  case (Cons e es)
  let ?l = "stack_line e" let ?n = "length buffer"
  obtain lb where lb: "entry_to_string e line_buffer = Some lb" "length lb = length line_buffer"
    "prefix (take (length line_buffer - 1) ?l @ [CHR 0x00]) lb"
    using entry_to_string_spec [of e line_buffer] Cons.prems by auto
  have "length ?l < length line_buffer" using Cons.prems(1) by simp
  then have "length ?l \<le> length line_buffer - 1" by linarith
  then have "take (length line_buffer - 1) ?l = ?l" by simp
  then have t: "terminated lb" "text_of lb = ?l"
    using lb(3) text_of_prefixed [of ?l lb] stack_line_NUL by auto
  show ?case
  proof (cases "length ?l + 1 < ?n - written")
    case False
    have "entries_loop (e # es) line_buffer buffer written = Some (buffer, written)"
      using False t lb(1) by (simp add: text_simps)
    then show ?thesis using False Cons.prems(2) by simp
  next
    case True
    define w where "w = written + length ?l"
    have w: "w + 1 < ?n" "w < ?n - 1" "written < ?n - 1" using True by (simp_all add: w_def)
    define b1 where "b1 = take written buffer @ ?l @ drop w buffer"
    define b2 where "b2 = take written buffer @ ?l @ [CHR 0x0A] @ drop (w + 1) buffer"
    have "write_raw buffer written lb (length ?l) = Some (b1, length ?l)"
    proof (cases "length ?l = 0")
      case False
      then show ?thesis
        using mem_read_text [of lb] t w by (simp add: write_raw_def memcpy_def b1_def w_def)
    qed (simp add: write_raw_def b1_def w_def)
    moreover have "memcpy b1 w [CHR 0x0A] = Some b2" "length b1 = ?n"
      using w by (simp_all add: memcpy_def b1_def b2_def w_def min_def)
    ultimately have s: "entries_loop (e # es) line_buffer buffer written = entries_loop es lb b2 (w + 1)"
      using True w t lb(1) by (simp add: text_simps Let_def flip: w_def)
    have b2: "length b2 = ?n" "take (w + 1) b2 = take written buffer @ ?l @ [CHR 0x0A]"
      using w by (auto simp: b2_def w_def)
    have "\<exists>b k. entries_loop es lb b2 (w + 1) = Some (b, k) \<and> length b = length b2 \<and> k < length b \<and>
        take k b = take (w + 1) b2 @ fitting_lines (length b2 - (w + 1)) (map stack_line es)"
      by (rule Cons.IH) (use Cons.prems lb(2) w b2 in auto)
    then show ?thesis unfolding s b2 using True by (simp add: w_def diff_diff_left)
  qed
qed

lemma entries_to_buffer_spec:
  assumes "count \<le> length entries" "buffer \<noteq> []"
    "\<forall>e \<in> set (take count entries). well_terminated e \<and> length (stack_line e) < 1024"
  shows "\<exists>b. stack_trace_entries_to_buffer entries count buffer = Some b \<and> length b = length buffer \<and>
    prefix (fitting_lines (length buffer) (map stack_line (take count entries)) @ [CHR 0x00]) b"
proof -
  obtain b k where b: "entries_loop (take count entries) (replicate 1024 (CHR 0x00)) buffer 0 = Some (b, k)"
    "length b = length buffer" "k < length b"
    "take k b = take 0 buffer @ fitting_lines (length buffer - 0) (map stack_line (take count entries))"
    using entries_loop_spec [of "take count entries" "replicate 1024 (CHR 0x00)" 0 buffer] assms by auto
  then have f: "fitting_lines (length buffer) (map stack_line (take count entries)) = take k b" by simp
  show ?thesis unfolding f using assms(1,2) b(1-3)
    by (auto simp: stack_trace_entries_to_buffer_def kLineBufferSize_def memcpy_def intro!: prefixI)
qed

text \<open>What the dynamic linker and the demangler say of an address.\<close>

definition symbol_name :: "unwinder \<Rightarrow> u64 \<Rightarrow> string" where
  "symbol_name uw a = (case uw_dladdr uw a of None \<Rightarrow> []
     | Some info \<Rightarrow> (case dli_sname info of None \<Rightarrow> []
        | Some n \<Rightarrow> (case uw_demangle uw (text_of n) 512 of Demangled_in_place t \<Rightarrow> t | _ \<Rightarrow> text_of n)))"

definition symbol_file :: "unwinder \<Rightarrow> u64 \<Rightarrow> string" where
  "symbol_file uw a = (case uw_dladdr uw a of None \<Rightarrow> []
     | Some info \<Rightarrow> (case dli_fname info of None \<Rightarrow> [] | Some f \<Rightarrow> text_of f))"

definition symbol_offset :: "unwinder \<Rightarrow> u64 \<Rightarrow> u64" where
  "symbol_offset uw a = (case uw_dladdr uw a of None \<Rightarrow> 0
     | Some info \<Rightarrow> if dli_saddr info = 0 \<or> a < dli_saddr info then 0 else a - dli_saddr info)"

definition frame_line :: "unwinder \<Rightarrow> bool \<Rightarrow> nat \<Rightarrow> u64 \<Rightarrow> string" where
  "frame_line uw use_index i a =
     (if use_index then pad_to 7 (''@'' @ decimal i) else []) @
     pad_to 20 (''0x'' @ to_hex (unat a)) @
     pad_to 30 ((if symbol_name uw a = [] then ''(unknown function)'' else symbol_name uw a) @
       (if symbol_offset uw a = 0 then [] else ''+0x'' @ decimal (unat (symbol_offset uw a)))) @
     (if symbol_file uw a = [] then [] else '' at '' @ symbol_file uw a)"

text \<open>
  What the code relies on: 512 readable bytes from each symbol name on, names of fewer than 256
  and file names of fewer than 512 characters, and a demangler that fits its result into the
  buffer it is given.
\<close>

definition short_names :: "unwinder \<Rightarrow> bool" where
  "short_names uw \<longleftrightarrow> (\<forall>a info. uw_dladdr uw a = Some info \<longrightarrow>
     (\<forall>n. dli_sname info = Some n \<longrightarrow> 512 \<le> length n \<and> CHR 0x00 \<in> set (take 256 n) \<and>
        (case uw_demangle uw (text_of n) 512 of Demangle_failed \<Rightarrow> True
         | Demangled_in_place t \<Rightarrow> length t < 256 \<and> CHR 0x00 \<notin> set t
         | Demangled_elsewhere m k \<Rightarrow> False)) \<and>
     (\<forall>f. dli_fname info = Some f \<longrightarrow> CHR 0x00 \<in> set (take 512 f)))"

lemma text_of_take:
  assumes "CHR 0x00 \<in> set (take k n)" "k \<le> j"
  shows "text_of (take j n) = text_of n" "length (text_of n) < k" "terminated (take j n)" "terminated n"
proof -
  have "CHR 0x00 \<in> set (take j n)" using assms set_take_subset_set_take by fastforce
  then show "terminated (take j n)" "terminated n" by (auto simp: terminated_def dest: in_set_takeD)
  have "takeWhile (\<lambda>c. c \<noteq> CHR 0x00) (take m n @ drop m n) = takeWhile (\<lambda>c. c \<noteq> CHR 0x00) (take m n)"
    if "CHR 0x00 \<in> set (take m n)" for m
    using that by (intro takeWhile_append1) auto
  then have e: "text_of (take m n) = text_of n" if "CHR 0x00 \<in> set (take m n)" for m
    using that by (simp add: text_of_def)
  show "text_of (take j n) = text_of n" by (rule e) fact
  have "length (text_of (take k n)) < length (take k n)"
    using assms(1) by (intro text_of_less) (simp add: terminated_def)
  then show "length (text_of n) < k" unfolding e [OF assms(1)] by simp
qed

lemma write_raw_text:
  assumes "length (text_of mem) < k"
  shows "write_raw (replicate k (CHR 0x00)) 0 mem (length (text_of mem)) =
    Some (text_of mem @ replicate (k - length (text_of mem)) (CHR 0x00), length (text_of mem))"
  using assms mem_read_text [of mem] by (auto simp: write_raw_def memcpy_def)

lemma text_of_replicate:
  "length t < k \<Longrightarrow> CHR 0x00 \<notin> set t \<Longrightarrow>
   text_of (t @ replicate (k - length t) (CHR 0x00)) = t \<and> terminated (t @ replicate (k - length t) (CHR 0x00))"
  using text_of_append [of t "replicate (k - length t - 1) (CHR 0x00)"]
  by (cases "k - length t") (auto simp: terminated_def)

lemma demangle_symbol_safe_spec:
  assumes "512 \<le> length n" "CHR 0x00 \<in> set (take 256 n)" "length d = 512"
    "case uw_demangle uw (text_of n) 512 of Demangle_failed \<Rightarrow> True
     | Demangled_in_place t \<Rightarrow> length t < 256 \<and> CHR 0x00 \<notin> set t | Demangled_elsewhere m k \<Rightarrow> False"
  shows "\<exists>f d'. demangle_symbol_safe uw (take 512 n) d = Some (f, d') \<and> length d' = 512 \<and> terminated f \<and>
    text_of f = (case uw_demangle uw (text_of n) 512 of Demangled_in_place t \<Rightarrow> t | _ \<Rightarrow> text_of n) \<and>
    length (text_of f) < 256"
proof -
  note t = text_of_take [OF assms(2), of 512, simplified]
  have d: "d \<noteq> []" using assms(3) by auto
  show ?thesis
  proof (cases "uw_demangle uw (text_of n) 512")
    case Demangle_failed
    then show ?thesis using d t assms(3) by (simp add: demangle_symbol_safe_def text_simps)
  next
    case (Demangled_in_place r)
    then have r: "length r < 256" "CHR 0x00 \<notin> set r" using assms(4) by auto
    then have "memcpy d 0 (r @ [CHR 0x00]) = Some (r @ CHR 0x00 # drop (Suc (length r)) d)"
      using assms(3) by (simp add: memcpy_def)
    moreover have "terminated (r @ CHR 0x00 # drop (Suc (length r)) d)" by (simp add: terminated_def)
    ultimately show ?thesis using d t assms(3) r Demangled_in_place
      by (simp add: demangle_symbol_safe_def text_simps text_of_append)
  next
    case (Demangled_elsewhere m k)
    then show ?thesis using assms(4) by simp
  qed
qed

lemma lookup_symbol_spec:
  assumes "short_names uw" "length d = 512" "length s = 512"
  shows "\<exists>fn fl d' s'. lookup_symbol uw a (d, s) = Some (fn, fl, symbol_offset uw a, d', s') \<and>
    length d' = 512 \<and> length s' = 512 \<and>
    terminated fn \<and> text_of fn = symbol_name uw a \<and> length (symbol_name uw a) < 256 \<and>
    terminated fl \<and> text_of fl = symbol_file uw a \<and> length (symbol_file uw a) < 512"
proof (cases "uw_dladdr uw a")
  case None
  then show ?thesis using assms
    by (simp add: lookup_symbol_def symbol_name_def symbol_file_def symbol_offset_def terminated_def text_of_def)
next
  case (Some info)
  let ?fl = "case dli_fname info of None \<Rightarrow> [CHR 0x00] | Some f \<Rightarrow> f"
  let ?off = "if dli_saddr info \<noteq> 0 \<and> dli_saddr info \<le> a then a - dli_saddr info else 0"
  have fl: "terminated ?fl \<and> text_of ?fl = symbol_file uw a \<and> length (symbol_file uw a) < 512"
    using assms(1) Some text_of_take [of 512 _ 512]
    by (auto simp: short_names_def symbol_file_def terminated_def text_of_def split: option.split)
  have off: "?off = symbol_offset uw a" using Some by (auto simp: symbol_offset_def not_less)
  show ?thesis
  proof (cases "dli_sname info")
    case None
    then show ?thesis using fl off Some assms
      by (simp add: lookup_symbol_def symbol_name_def Let_def) (simp add: terminated_def text_of_def)
  next
    case n: (Some n)
    have h: "512 \<le> length n" "CHR 0x00 \<in> set (take 256 n)"
      "case uw_demangle uw (text_of n) 512 of Demangle_failed \<Rightarrow> True
       | Demangled_in_place t \<Rightarrow> length t < 256 \<and> CHR 0x00 \<notin> set t | Demangled_elsewhere m k \<Rightarrow> False"
      using assms(1) Some n by (auto simp: short_names_def)
    obtain f d' where f: "demangle_symbol_safe uw (take 512 n) d = Some (f, d')" "length d' = 512" "terminated f"
      "text_of f = symbol_name uw a" "length (text_of f) < 256"
      using demangle_symbol_safe_spec [OF h(1,2) assms(2) h(3)] Some n by (auto simp: symbol_name_def)
    have "write_raw s 0 n kSymbolBufferSize = Some (take 512 n, 512)"
      using h(1) assms(3) by (simp add: write_raw_def kSymbolBufferSize_def mem_read_def memcpy_def)
    then show ?thesis using fl off Some n f h(1)
      by (simp add: lookup_symbol_def Let_def flip: f(4))
  qed
qed

definition scratch_sized :: "scratch \<Rightarrow> bool" where
  "scratch_sized s \<longleftrightarrow> (case s of (a, d, b) \<Rightarrow> length a = 32 \<and> length d = 512 \<and> length b = 512)"

lemma to_hex_NUL: "CHR 0x00 \<notin> set (to_hex n)"
proof (induction n rule: to_hex.induct)
  case (1 n)
  have d: "CHR 0x00 \<noteq> hex_digit k" if "k < 16" for k :: nat
  proof -
    have "(of_char (hex_digit k) :: nat) \<noteq> 0" using that by (auto simp: hex_digit_def)
    moreover have "(of_char (CHR 0x00) :: nat) = 0" by simp
    ultimately show ?thesis by metis
  qed
  show ?case using 1 d [of n] d [of "n mod 16"] by (subst to_hex.simps) auto
qed

lemma fill_entry_spec:
  assumes "short_names uw" "scratch_sized s"
  shows "\<exists>e s'. fill_entry uw a index use_index s stack_entry_new = Some (e, s') \<and> scratch_sized s' \<and>
    well_terminated e \<and> stack_line e = frame_line uw use_index (unat index) a"
proof -
  obtain ab d b where s: "s = (ab, d, b)" "length ab = 32" "length d = 512" "length b = 512"
    using assms(2) by (auto simp: scratch_sized_def split: prod.splits)
  obtain ab' where ab: "format_address_safe a ab = Some ab'" "length ab' = 32"
    "prefix ((''0x'' @ to_hex (unat a)) @ [CHR 0x00]) ab'"
    using format_address_safe_spec [of a ab] s(2) by auto
  have "CHR 0x00 \<notin> set (''0x'' @ to_hex (unat a))" using to_hex_NUL by auto
  then have at: "terminated ab'" "text_of ab' = ''0x'' @ to_hex (unat a)"
    using text_of_prefixed [OF ab(3)] by auto
  have w: "write_raw (replicate 32 (CHR 0x00)) 0 ab' 32 = Some (ab', 32)"
    using ab(2) by (simp add: write_raw_def mem_read_def memcpy_def)
  obtain fn fl d' b' where l: "lookup_symbol uw a (d, b) = Some (fn, fl, symbol_offset uw a, d', b')"
    "length d' = 512" "length b' = 512" "terminated fn" "text_of fn = symbol_name uw a"
    "length (symbol_name uw a) < 256" "terminated fl" "text_of fl = symbol_file uw a"
    "length (symbol_file uw a) < 512"
    using lookup_symbol_spec [OF assms(1) s(3,4)] by blast
  let ?fn = "symbol_name uw a @ replicate (256 - length (symbol_name uw a)) (CHR 0x00)"
  let ?fl = "symbol_file uw a @ replicate (512 - length (symbol_file uw a)) (CHR 0x00)"
  let ?e = "\<lparr>se_address = ab', se_function = ?fn, se_file = ?fl, se_index = index, se_line = 0,
    se_offset = symbol_offset uw a, se_use_index = use_index\<rparr>"
  have nn: "CHR 0x00 \<notin> set (symbol_name uw a)" "CHR 0x00 \<notin> set (symbol_file uw a)"
    using text_of_NUL [of fn] text_of_NUL [of fl] l(5,8) by auto
  note r = text_of_replicate [OF l(6) nn(1)] text_of_replicate [OF l(9) nn(2)]
  have wf: "write_raw (replicate 256 (CHR 0x00)) 0 fn (length (symbol_name uw a)) = Some (?fn, length (symbol_name uw a))"
    "write_raw (replicate 512 (CHR 0x00)) 0 fl (length (symbol_file uw a)) = Some (?fl, length (symbol_file uw a))"
    using write_raw_text [of fn 256] write_raw_text [of fl 512] l(5,6,8,9) by simp_all
  have "fill_entry uw a index use_index s stack_entry_new = Some (?e, ab', d', b')"
    unfolding fill_entry_def stack_entry_new_def s(1) prod.case
    by (simp add: ab(1,2) w l(1,5,8) terminated_simps(2) [OF l(4)] terminated_simps(2) [OF l(7)] wf stack_sizes)
  moreover have "stack_line ?e = frame_line uw use_index (unat index) a"
    using at r by (simp add: stack_line_def frame_line_def)
  moreover have "well_terminated ?e" using at r by (simp add: well_terminated_def)
  ultimately show ?thesis using ab(2) l(2,3) by (auto simp: scratch_sized_def)
qed

lemma decimal_length: "n < 10 ^ Suc k \<Longrightarrow> length (decimal n) \<le> Suc k"
proof (induction k arbitrary: n)
  case 0
  then show ?case by (simp add: decimal.simps [of n])
next
  case (Suc k)
  then have "n div 10 < 10 ^ Suc k" by (simp add: less_mult_imp_div_less)
  then show ?case using Suc.IH [of "n div 10"] by (simp add: decimal.simps [of n])
qed

lemma decimal_u64: "length (decimal (unat (x :: u64))) \<le> 20"
proof (rule decimal_length [of _ 19, simplified])
  have "unat x < 2 ^ 64" using unsigned_less [of x, where 'a = nat] by simp
  also have "(2 :: nat) ^ 64 < 100000000000000000000" by simp
  finally show "unat x < 100000000000000000000" .
qed

lemma pad_to_length: "length (pad_to n s) \<le> max n (length s)"
  by (simp add: pad_to_def)

text \<open>No line is cut: 1024 bytes hold every frame whose names fit their arrays.\<close>

lemma frame_line_length:
  assumes "length (symbol_name uw a) < 256" "length (symbol_file uw a) < 512"
  shows "length (frame_line uw use_index (unat (index :: size_t)) a) < 1024"
proof -
  let ?i = "pad_to 7 (''@'' @ decimal (unat index))"
  have i: "length ?i \<le> 21" using decimal_u64 [of index] pad_to_length [of 7 "''@'' @ decimal (unat index)"] by simp
  have "unat a < 16 ^ Suc 15" using unsigned_less [of a, where 'a = nat] by simp
  then have "length (to_hex (unat a)) \<le> 16" using to_hex_length [of "unat a" 15] by simp
  then have h: "length (pad_to 20 (''0x'' @ to_hex (unat a))) \<le> 20"
    using pad_to_length [of 20 "''0x'' @ to_hex (unat a)"] by simp
  let ?f = "(if symbol_name uw a = [] then ''(unknown function)'' else symbol_name uw a) @
       (if symbol_offset uw a = 0 then [] else ''+0x'' @ decimal (unat (symbol_offset uw a)))"
  have "length ?f \<le> 278" using assms(1) decimal_u64 [of "symbol_offset uw a"] by simp
  then have f: "length (pad_to 30 ?f) \<le> 278" using pad_to_length [of 30 ?f] by simp
  have "length (frame_line uw use_index (unat index) a) \<le>
    length ?i + length (pad_to 20 (''0x'' @ to_hex (unat a))) + length (pad_to 30 ?f) + (4 + length (symbol_file uw a))"
    by (simp add: frame_line_def)
  then show ?thesis using i h f assms(2) by linarith
qed

lemma short_names_lengths:
  assumes "short_names uw"
  shows "length (symbol_name uw a) < 256" "length (symbol_file uw a) < 512"
  using lookup_symbol_spec [OF assms, of "replicate 512 (CHR 0x00)" "replicate 512 (CHR 0x00)" a] by auto

text \<open>The lines of a trace: the frames after the first ones, numbered from zero, those at implausible
  addresses left out.\<close>

definition lines_from :: "unwinder \<Rightarrow> bool \<Rightarrow> nat \<Rightarrow> u64 list \<Rightarrow> string list" where
  "lines_from uw use_index i stack =
     map (\<lambda>(i, a). frame_line uw use_index i a) (filter (\<lambda>(i, a). is_valid_address a) (enumerate i stack))"

definition trace_lines :: "unwinder \<Rightarrow> bool \<Rightarrow> nat \<Rightarrow> nat \<Rightarrow> string list" where
  "trace_lines uw use_index first_frame max_frames =
     lines_from uw use_index 0 (drop first_frame (uw_backtrace uw (min max_frames 64)))"

lemma frame_line_index: "(use_index \<Longrightarrow> i = j) \<Longrightarrow> frame_line uw use_index i a = frame_line uw use_index j a"
  by (auto simp: frame_line_def)

lemma collect_loop_spec:
  assumes "short_names uw" "scratch_sized s" "length done + length stack \<le> 64"
    "out = done @ replicate (64 - length done) stack_entry_new" "first_frame \<le> i" "i + length stack \<le> 64"
    "\<forall>e \<in> set done. well_terminated e \<and> length (stack_line e) < 1024"
  shows "\<exists>out' n. collect_loop uw use_index first_frame i stack s out (length done) = Some (out', n) \<and>
    n \<le> length out' \<and>
    map stack_line (take n out') = map stack_line done @ lines_from uw use_index (i - first_frame) stack \<and>
    (\<forall>e \<in> set (take n out'). well_terminated e \<and> length (stack_line e) < 1024)"
  using assms(2-)
proof (induction stack arbitrary: i s "done" out)
  case Nil
  then show ?case by (auto simp: lines_from_def)
next
  case (Cons a stack)
  show ?case
  proof (cases "is_valid_address a")
    case False
    have "\<exists>out' n. collect_loop uw use_index first_frame (Suc i) stack s out (length done) = Some (out', n) \<and>
      n \<le> length out' \<and>
      map stack_line (take n out') = map stack_line done @ lines_from uw use_index (Suc i - first_frame) stack \<and>
      (\<forall>e \<in> set (take n out'). well_terminated e \<and> length (stack_line e) < 1024)"
      by (rule Cons.IH) (use Cons.prems in auto)
    then show ?thesis using False Cons.prems(4) by (simp add: lines_from_def Suc_diff_le)
  next
    case True
    let ?ix = "if use_index then of_nat (i - first_frame) else 0 :: size_t"
    obtain e s' where e: "fill_entry uw a ?ix use_index s stack_entry_new = Some (e, s')"
      "scratch_sized s'" "well_terminated e" "stack_line e = frame_line uw use_index (unat ?ix) a"
      using fill_entry_spec [OF assms(1) Cons.prems(1)] by blast
    have l: "length (stack_line e) < 1024"
      unfolding e(4) by (rule frame_line_length) (rule short_names_lengths [OF assms(1)])+
    have ix: "stack_line e = frame_line uw use_index (i - first_frame) a"
      unfolding e(4) by (rule frame_line_index) (use Cons.prems(5) in \<open>simp add: unat_of_nat\<close>)
    have out: "length done < length out" "out ! length done = stack_entry_new"
      "out[length done := e] = (done @ [e]) @ replicate (64 - length (done @ [e])) stack_entry_new"
      using Cons.prems(2,3) by (auto simp: nth_append list_update_append Suc_diff_Suc
        simp flip: replicate_Suc split: nat.splits) (cases "64 - length done", auto)
    have "\<exists>out' n. collect_loop uw use_index first_frame (Suc i) stack s' (out[length done := e])
        (length (done @ [e])) = Some (out', n) \<and> n \<le> length out' \<and>
      map stack_line (take n out') = map stack_line (done @ [e]) @ lines_from uw use_index (Suc i - first_frame) stack \<and>
      (\<forall>e \<in> set (take n out'). well_terminated e \<and> length (stack_line e) < 1024)"
      by (rule Cons.IH) (use Cons.prems e l out in auto)
    then show ?thesis using True Cons.prems(4) out(1,2) e(1) ix
      by (simp add: lines_from_def Suc_diff_le)
  qed
qed

lemma stack_trace_to_buffer_spec:
  assumes "short_names uw" "\<forall>n. length (uw_backtrace uw n) \<le> n" "buffer \<noteq> []"
  shows "\<exists>b. stack_trace_to_buffer uw buffer use_index first_frame max_frames = Some b \<and>
    length b = length buffer \<and>
    prefix (fitting_lines (length buffer) (trace_lines uw use_index first_frame max_frames) @ [CHR 0x00]) b"
proof -
  let ?m = "min max_frames 64" let ?out = "replicate 64 stack_entry_new"
  have m: "length (uw_backtrace uw ?m) \<le> ?m" using assms(2) by blast
  obtain out n where c: "collect_stack_trace uw ?out use_index first_frame max_frames = Some (out, n)"
    "n \<le> length out" "map stack_line (take n out) = trace_lines uw use_index first_frame max_frames"
    "\<forall>e \<in> set (take n out). well_terminated e \<and> length (stack_line e) < 1024"
  proof (cases "?m \<le> first_frame")
    case True
    then have "drop first_frame (uw_backtrace uw ?m) = []" using m by (intro drop_all) (rule le_trans)
    then show thesis using True that [of ?out 0]
      by (simp add: collect_stack_trace_def kPlatformMaxFrames_def trace_lines_def lines_from_def)
  next
    case False
    let ?s = "(replicate 32 (CHR 0x00), replicate 512 (CHR 0x00), replicate 512 (CHR 0x00))"
    have "\<exists>out' n. collect_loop uw use_index first_frame first_frame
        (drop first_frame (uw_backtrace uw ?m)) ?s ?out (length ([] :: stack_entry list)) = Some (out', n) \<and>
      n \<le> length out' \<and> map stack_line (take n out') = map stack_line [] @
        lines_from uw use_index (first_frame - first_frame) (drop first_frame (uw_backtrace uw ?m)) \<and>
      (\<forall>e \<in> set (take n out'). well_terminated e \<and> length (stack_line e) < 1024)"
      by (rule collect_loop_spec [OF assms(1)]) (use m False in \<open>auto simp: scratch_sized_def\<close>)
    moreover have "min first_frame ?m = first_frame" using False by linarith
    ultimately show thesis using False that
      by (auto simp: collect_stack_trace_def Let_def stack_sizes trace_lines_def)
  qed
  obtain b where "stack_trace_entries_to_buffer out n buffer = Some b" "length b = length buffer"
    "prefix (fitting_lines (length buffer) (map stack_line (take n out)) @ [CHR 0x00]) b"
    using entries_to_buffer_spec [OF c(2) assms(3) c(4)] by blast
  then show ?thesis using c(1,3) by (simp add: stack_trace_to_buffer_def kPlatformMaxFrames_def)
qed

lemma pad_to_NUL: "CHR 0x00 \<notin> set s \<Longrightarrow> CHR 0x00 \<notin> set (pad_to n s)"
  by (auto simp: pad_to_def)

lemma frame_line_NUL:
  assumes "short_names uw" shows "CHR 0x00 \<notin> set (frame_line uw use_index i a)"
proof -
  obtain fn fl d s where "terminated fn" "text_of fn = symbol_name uw a" "text_of fl = symbol_file uw a"
    using lookup_symbol_spec [OF assms, of "replicate 512 (CHR 0x00)" "replicate 512 (CHR 0x00)" a] by auto
  then have n: "CHR 0x00 \<notin> set (symbol_name uw a)" "CHR 0x00 \<notin> set (symbol_file uw a)"
    using text_of_NUL by metis+
  show ?thesis unfolding frame_line_def
    using n decimal_NUL to_hex_NUL by (auto split: if_splits intro!: pad_to_NUL)
qed

lemma fitting_lines_NUL: "\<forall>l \<in> set ls. CHR 0x00 \<notin> set l \<Longrightarrow> CHR 0x00 \<notin> set (fitting_lines room ls)"
  by (induction ls arbitrary: room) auto

lemma stack_trace_text_holds:
  assumes "short_names uw" "\<forall>n. length (uw_backtrace uw n) \<le> n" "first_frame + 1 < 2 ^ 64"
  shows "stack_trace_from_current_context uw use_index first_frame max_frames =
    Some (fitting_lines 4096 (trace_lines uw use_index (first_frame + 1) max_frames))"
proof -
  let ?t = "fitting_lines 4096 (trace_lines uw use_index (first_frame + 1) max_frames)"
  obtain b where b: "stack_trace_to_buffer uw (replicate 4096 (CHR 0x00)) use_index (first_frame + 1) max_frames = Some b"
    "prefix (?t @ [CHR 0x00]) b"
    using stack_trace_to_buffer_spec [OF assms(1,2), of "replicate 4096 (CHR 0x00)" use_index "first_frame + 1" max_frames]
    by auto
  have "CHR 0x00 \<notin> set ?t"
    using frame_line_NUL [OF assms(1)]
    by (intro fitting_lines_NUL) (auto simp: trace_lines_def lines_from_def)
  then show ?thesis using b text_of_prefixed [OF b(2)] assms(3)
    by (simp add: stack_trace_from_current_context_def text_simps)
qed

text \<open>C25: A stack trace is memory safe and is the text it should be. When the symbol names fit the
  arrays of an entry, \<^verbatim>\<open>stack_trace_from_current_context\<close> stays inside all its buffers and returns,
  in order and without cutting one, the lines of the frames after the skipped ones (as many as fit
  into 4096 bytes): index, address, function with offset, and file, each padded to its column.\<close>

theorem stack_trace_text:
  assumes "short_names uw" "\<forall>n. length (uw_backtrace uw n) \<le> n" "first_frame + 1 < 2 ^ 64"
  shows "stack_trace_from_current_context uw use_index first_frame max_frames =
    Some (fitting_lines 4096 (trace_lines uw use_index (first_frame + 1) max_frames))"
  by (rule stack_trace_text_holds [OF assms])

definition example_unwinder :: unwinder where
  "example_unwinder =
     \<lparr>uw_backtrace = (\<lambda>n. take n [0x1000, 0x2000, 0x10, 0x40001A]),
      uw_dladdr = (\<lambda>a. if a = 0x40001A
        then Some \<lparr>dli_fname = Some (''a.out'' @ [CHR 0x00]),
                   dli_sname = Some (''main'' @ replicate 508 (CHR 0x00)), dli_saddr = 0x400000\<rparr>
        else None),
      uw_demangle = (\<lambda>s n. Demangle_failed)\<rparr>"

theorem stack_trace_text_witness:
  "stack_trace_from_current_context example_unwinder True 0 64 =
     Some (fitting_lines 4096 (trace_lines example_unwinder True 1 64)) \<and>
   length (trace_lines example_unwinder True 1 64) = 2"
proof -
  have "short_names example_unwinder" by (simp add: short_names_def example_unwinder_def)
  moreover have "\<forall>n. length (uw_backtrace example_unwinder n) \<le> n" by (simp add: example_unwinder_def)
  ultimately show ?thesis using stack_trace_text [of example_unwinder 0 True 64]
    by (simp add: trace_lines_def lines_from_def example_unwinder_def is_valid_address_def)
qed

lemma fill_entry_overrun:
  assumes "scratch_sized s" "uw_dladdr uw a = Some info" "dli_sname info = Some n"
    "length n < 512 \<or> CHR 0x00 \<in> set (take 512 n) \<and> 256 < length (text_of n) \<and>
       uw_demangle uw (text_of n) 512 = Demangle_failed"
  shows "fill_entry uw a index use_index s stack_entry_new = None"
proof -
  obtain ab d b where s: "s = (ab, d, b)" "length ab = 32" "length d = 512" "length b = 512"
    using assms(1) by (auto simp: scratch_sized_def split: prod.splits)
  show ?thesis
  proof (cases "length n < 512")
    case True
    then have "lookup_symbol uw a (d, b) = None"
      using assms(2,3) by (simp add: lookup_symbol_def write_raw_def kSymbolBufferSize_def mem_read_def)
    then show ?thesis
      by (auto simp: fill_entry_def s(1) Let_def bind_eq_None_conv split: option.splits)
  next
    case False
    then have h: "CHR 0x00 \<in> set (take 512 n)" "256 < length (text_of n)"
      "uw_demangle uw (text_of n) 512 = Demangle_failed" using assms(4) by auto
    note t = text_of_take [OF h(1), of 512, simplified]
    have "write_raw b 0 n kSymbolBufferSize = Some (take 512 n, 512)"
      using False s(4) by (simp add: write_raw_def kSymbolBufferSize_def mem_read_def memcpy_def)
    moreover have "d \<noteq> []" using s(3) by auto
    ultimately obtain fl off where l: "lookup_symbol uw a (d, b) = Some (take 512 n, fl, off, d, take 512 n)"
      using assms(2,3) h(3) t(1,3) s(3)
      by (simp add: lookup_symbol_def demangle_symbol_safe_def text_simps)
    have "write_raw (replicate 256 (CHR 0x00)) 0 (take 512 n) (length (text_of n)) = None"
      using h(2) mem_read_text [of "take 512 n"] t(1) by (cases "text_of n") (simp_all add: write_raw_def memcpy_def)
    then show ?thesis using l t
      by (auto simp: fill_entry_def s(1) stack_entry_new_def stack_sizes text_simps bind_eq_None_conv)
  qed
qed

text \<open>The names are copied without looking at the room there is. Reading 512 bytes from every
  symbol name leaves the mapped memory when the name lies closer to its end, and an undemangled
  name of more than 256 characters overruns the function array of its entry.\<close>

theorem stack_trace_overrun:
  assumes "uw_backtrace uw (min max_frames 64) = skipped @ a # rest" "length skipped = first_frame"
    "first_frame < min max_frames 64" "is_valid_address a"
    "uw_dladdr uw a = Some info" "dli_sname info = Some n"
    "length n < 512 \<or> CHR 0x00 \<in> set (take 512 n) \<and> 256 < length (text_of n) \<and>
       uw_demangle uw (text_of n) 512 = Demangle_failed"
  shows "stack_trace_to_buffer uw buffer use_index first_frame max_frames = None"
proof -
  have "fill_entry uw a ix use_index
      (replicate 32 (CHR 0x00), replicate 512 (CHR 0x00), replicate 512 (CHR 0x00)) stack_entry_new = None" for ix
    by (rule fill_entry_overrun [OF _ assms(5-7)]) (simp add: scratch_sized_def)
  moreover have "min first_frame (min max_frames 64) = first_frame" "\<not> min max_frames 64 \<le> first_frame"
    using assms(3) by linarith+
  ultimately show ?thesis using assms(1,2,4)
    by (simp add: stack_trace_to_buffer_def collect_stack_trace_def Let_def stack_sizes)
qed

definition long_name :: "byte list" where
  "long_name = replicate 300 (CHR ''f'') @ replicate 212 (CHR 0x00)"

definition long_name_unwinder :: unwinder where
  "long_name_unwinder =
     \<lparr>uw_backtrace = (\<lambda>n. take n [0x1000, 0x40001A]),
      uw_dladdr = (\<lambda>a. Some \<lparr>dli_fname = None, dli_sname = Some long_name, dli_saddr = 0x400000\<rparr>),
      uw_demangle = (\<lambda>s n. Demangle_failed)\<rparr>"

theorem stack_trace_overrun_witness:
  "stack_trace_to_buffer long_name_unwinder (replicate 100 (CHR 0x00)) True 1 64 = None"
proof (rule stack_trace_overrun [where skipped = "[0x1000]" and a = "0x40001A" and rest = "[]"
    and n = long_name and info = "\<lparr>dli_fname = None, dli_sname = Some long_name, dli_saddr = 0x400000\<rparr>"])
  have "text_of long_name = replicate 300 (CHR ''f'')"
    using text_of_append [of "replicate 300 (CHR ''f'')" "replicate 211 (CHR 0x00)"]
    by (simp add: long_name_def numeral_eq_Suc)
  moreover have "CHR 0x00 \<in> set (take 512 long_name)" by (simp add: long_name_def)
  ultimately show "length long_name < 512 \<or> CHR 0x00 \<in> set (take 512 long_name) \<and>
      256 < length (text_of long_name) \<and>
      uw_demangle long_name_unwinder (text_of long_name) 512 = Demangle_failed"
    by (simp add: long_name_unwinder_def)
qed (simp_all add: is_valid_address_def long_name_unwinder_def)

subsection \<open>LLVM's unwinder\<close>

text \<open>Here a frame in no known object is enough: 512 bytes are read from the empty file name.\<close>

lemma llvm_unknown_file:
  assumes "uw_dladdr uw ip = None \<or> (\<exists>info. uw_dladdr uw ip = Some info \<and>
    (case dli_fname info of None \<Rightarrow> True | Some f \<Rightarrow> length f < 512))"
  shows "llvm_fill_entry uw frame ip index use_index s entry = None"
proof (cases "llvm_fill_entry uw frame ip index use_index s entry")
  case (Some r)
  let ?f = "case uw_dladdr uw ip of None \<Rightarrow> [CHR 0x00]
    | Some info \<Rightarrow> (case dli_fname info of None \<Rightarrow> [CHR 0x00] | Some fname \<Rightarrow> fname)"
  have "length ?f < 512"
  proof (cases "uw_dladdr uw ip")
    case (Some info)
    then show ?thesis using assms by (cases "dli_fname info") simp_all
  qed simp
  then have "write_raw block 0 ?f 512 = None" for block by (simp add: write_raw_def mem_read_def)
  then show ?thesis using Some
    by (auto simp: llvm_fill_entry_def Let_def bind_eq_Some_conv stack_sizes split: prod.splits)
qed

text \<open>With a file name that has the room, the entry reads as in the other build, the name and offset coming
  from the unwinder.\<close>

lemma llvm_fill_entry_spec:
  assumes "scratch_sized s" "uf_proc frame = Some (name, off)" "length name < 256" "CHR 0x00 \<notin> set name"
    "uw_demangle uw name 512 = Demangle_failed"
    "uw_dladdr uw ip = Some info" "dli_fname info = Some f" "512 \<le> length f" "CHR 0x00 \<in> set (take 512 f)"
  shows "\<exists>e s'. llvm_fill_entry uw frame ip index use_index s stack_entry_new = Some (e, s') \<and> scratch_sized s' \<and>
    well_terminated e \<and> text_of (se_function e) = name \<and> text_of (se_file e) = text_of f \<and>
    text_of (se_address e) = ''0x'' @ to_hex (unat ip) \<and> se_offset e = off \<and> se_index e = index"
proof -
  obtain ab d b where s: "s = (ab, d, b)" "length ab = 32" "length d = 512" "length b = 512"
    using assms(1) by (auto simp: scratch_sized_def split: prod.splits)
  obtain ab' where ab: "format_address_safe ip ab = Some ab'" "length ab' = 32"
    "prefix ((''0x'' @ to_hex (unat ip)) @ [CHR 0x00]) ab'"
    using format_address_safe_spec [of ip ab] s(2) by auto
  have "CHR 0x00 \<notin> set (''0x'' @ to_hex (unat ip))" using to_hex_NUL by auto
  then have at: "terminated ab'" "text_of ab' = ''0x'' @ to_hex (unat ip)"
    using text_of_prefixed [OF ab(3)] by auto
  have w: "write_raw (replicate 32 (CHR 0x00)) 0 ab' 32 = Some (ab', 32)"
    using ab(2) by (simp add: write_raw_def mem_read_def memcpy_def)
  let ?b = "name @ CHR 0x00 # drop (Suc (length name)) b"
  have b: "memcpy b 0 (name @ [CHR 0x00]) = Some ?b" "length ?b = 512"
    using s(4) assms(3) by (simp_all add: memcpy_def)
  have bt: "terminated ?b" "text_of ?b = name" using assms(4) by (simp_all add: terminated_def text_of_append)
  have "d \<noteq> []" using s(3) by auto
  then have l: "llvm_symbol uw frame ip (d, b) = Some (?b, off, d, ?b)"
    using assms(2,5) b bt s(3) by (simp add: llvm_symbol_def demangle_symbol_safe_def text_simps)
  let ?fn = "name @ replicate (256 - length name) (CHR 0x00)"
  note r = text_of_replicate [OF assms(3,4)]
  have wf: "write_raw (replicate 256 (CHR 0x00)) 0 ?b (length name) = Some (?fn, length name)"
    using write_raw_text [of ?b 256] bt assms(3) by simp
  have wl: "write_raw (replicate 512 (CHR 0x00)) 0 f 512 = Some (take 512 f, 512)"
    using assms(8) by (simp add: write_raw_def mem_read_def memcpy_def)
  note t = text_of_take [OF assms(9), of 512, simplified]
  have "llvm_fill_entry uw frame ip index use_index s stack_entry_new =
      Some (\<lparr>se_address = ab', se_function = ?fn, se_file = take 512 f, se_index = index, se_line = 0,
        se_offset = off, se_use_index = use_index\<rparr>, ab', d, ?b)"
    unfolding llvm_fill_entry_def stack_entry_new_def s(1) prod.case
    by (simp add: ab(1,2) w l terminated_simps(2) [OF bt(1)] bt(2) wf wl assms(6,7) stack_sizes)
  then show ?thesis using at r t ab(2) s(3) b(2) by (simp add: scratch_sized_def well_terminated_def)
qed

end
