(* ===== verification/Build_Flag.thy ===== *)
theory Build_Flag
  imports File_Path
begin

text \<open>
  The configuration headers \<^verbatim>\<open>build_flag.h\<close> and \<^verbatim>\<open>component_export.h\<close> under
  \<^verbatim>\<open>src/src/include/femtolog/build/\<close>, as a function from the macros the compiler predefines to the
  flags the rest of the library branches on; \<^verbatim>\<open>#error\<close> is \<open>None\<close>. What the system header
  \<^verbatim>\<open>TargetConditionals.h\<close> defines is a parameter.
\<close>

text \<open>
  A macro that is defined has an integer value (a macro defined empty counts as 0; those are only
  tested for being defined). In an \<^verbatim>\<open>#if\<close> an identifier that is no macro is 0.
\<close>

type_synonym macros = "string \<Rightarrow> int option"

definition defined :: "macros \<Rightarrow> string \<Rightarrow> bool" where
  "defined m x \<longleftrightarrow> m x \<noteq> None"

definition any_defined :: "macros \<Rightarrow> string list \<Rightarrow> bool" where
  "any_defined m xs \<longleftrightarrow> list_ex (defined m) xs"

definition if_value :: "macros \<Rightarrow> string \<Rightarrow> int" where
  "if_value m x = (case m x of Some v \<Rightarrow> v | None \<Rightarrow> 0)"

subsection \<open>Platform\<close>

record platform =
  is_windows :: bool
  is_unix :: bool
  is_mac :: bool
  is_ios :: bool
  is_android :: bool
  is_linux :: bool
  is_bsd :: bool
  is_cygwin :: bool
  is_solaris :: bool

definition no_platform :: platform where
  "no_platform = \<lparr>is_windows = False, is_unix = False, is_mac = False, is_ios = False, is_android = False,
     is_linux = False, is_bsd = False, is_cygwin = False, is_solaris = False\<rparr>"

definition detect_platform :: "macros \<Rightarrow> macros \<Rightarrow> (platform \<times> macros) option" where
  "detect_platform target_conditionals m =
     (let p = no_platform in
      if any_defined m [''_WIN32'', ''_WIN64'', ''__WIN32__''] then Some (p\<lparr>is_windows := True\<rparr>, m)
      else if defined m ''__APPLE__'' then
        (let m = m ++ target_conditionals; p = p\<lparr>is_unix := True\<rparr> in
         Some (if if_value m ''TARGET_OS_MAC'' \<noteq> 0 then p\<lparr>is_mac := True\<rparr>
               else if if_value m ''TARGET_OS_IPHONE'' \<noteq> 0 then p\<lparr>is_ios := True\<rparr>
               else p\<lparr>is_mac := True\<rparr>, m))
      else if any_defined m [''__linux__'', ''__linux'', ''linux''] then
        (let p = p\<lparr>is_unix := True\<rparr> in
         Some (if defined m ''__ANDROID__'' then p\<lparr>is_android := True\<rparr> else p\<lparr>is_linux := True\<rparr>, m))
      else if any_defined m [''__FreeBSD__'', ''__NetBSD__'', ''__OpenBSD__'', ''__DragonFly__'']
        then Some (p\<lparr>is_unix := True, is_bsd := True\<rparr>, m)
      else if defined m ''__CYGWIN__'' then Some (p\<lparr>is_unix := True, is_cygwin := True\<rparr>, m)
      else if defined m ''__sun'' \<and> defined m ''__SVR4'' then Some (p\<lparr>is_unix := True, is_solaris := True\<rparr>, m)
      else None)"

subsection \<open>Compiler\<close>

record compiler =
  compiler_msvc :: bool
  compiler_gcc :: bool
  compiler_clang :: bool
  compiler_intel :: bool
  compiler_mingw :: bool

definition detect_compiler :: "macros \<Rightarrow> compiler option" where
  "detect_compiler m =
     (if defined m ''_MSC_VER''
      then Some \<lparr>compiler_msvc = True, compiler_gcc = False, compiler_clang = False,
                 compiler_intel = False, compiler_mingw = False\<rparr>
      else if defined m ''__clang__''
      then Some \<lparr>compiler_msvc = False, compiler_gcc = False, compiler_clang = True,
                 compiler_intel = False, compiler_mingw = False\<rparr>
      else if any_defined m [''__INTEL_COMPILER'', ''__ICC'']
      then Some \<lparr>compiler_msvc = False, compiler_gcc = False, compiler_clang = False,
                 compiler_intel = True, compiler_mingw = False\<rparr>
      else if any_defined m [''__MINGW32__'', ''__MINGW64__'']
      then Some \<lparr>compiler_msvc = False, compiler_gcc = False, compiler_clang = False,
                 compiler_intel = False, compiler_mingw = True\<rparr>
      else if any_defined m [''__GNUC__'', ''__GNUG__'']
      then Some \<lparr>compiler_msvc = False, compiler_gcc = True, compiler_clang = False,
                 compiler_intel = False, compiler_mingw = False\<rparr>
      else None)"

definition compiler_version :: "macros \<Rightarrow> compiler \<Rightarrow> int" where
  "compiler_version m c =
     (if compiler_msvc c then if_value m ''_MSC_VER''
      else if compiler_gcc c
      then if_value m ''__GNUC__'' * 10000 + if_value m ''__GNUC_MINOR__'' * 100 + if_value m ''__GNUC_PATCHLEVEL__''
      else if compiler_clang c
      then if_value m ''__clang_major__'' * 10000 + if_value m ''__clang_minor__'' * 100 +
           if_value m ''__clang_patchlevel__''
      else if compiler_intel c then if_value m ''__INTEL_COMPILER''
      else 0)"

subsection \<open>Architecture\<close>

record arch =
  arch_x64 :: bool
  arch_x86 :: bool
  arch_arm :: bool
  arch_arm64 :: bool
  arch_mips :: bool
  arch_ppc :: bool
  arch_riscv :: bool

definition no_arch :: arch where
  "no_arch = \<lparr>arch_x64 = False, arch_x86 = False, arch_arm = False, arch_arm64 = False, arch_mips = False,
     arch_ppc = False, arch_riscv = False\<rparr>"

definition detect_arch :: "macros \<Rightarrow> arch option" where
  "detect_arch m =
     (if any_defined m [''__x86_64__'', ''_M_X64'', ''_M_AMD64''] then Some (no_arch\<lparr>arch_x64 := True\<rparr>)
      else if any_defined m [''__i386'', ''_M_IX86'', ''__i386__''] then Some (no_arch\<lparr>arch_x86 := True\<rparr>)
      else if any_defined m [''__aarch64__'', ''_M_ARM64''] then Some (no_arch\<lparr>arch_arm64 := True\<rparr>)
      else if any_defined m [''__arm__'', ''_M_ARM''] then Some (no_arch\<lparr>arch_arm := True\<rparr>)
      else if any_defined m [''__mips__'', ''__mips'', ''__MIPS__''] then Some (no_arch\<lparr>arch_mips := True\<rparr>)
      else if any_defined m [''__powerpc__'', ''__powerpc'', ''__ppc__'', ''__PPC__'']
        then Some (no_arch\<lparr>arch_ppc := True\<rparr>)
      else if defined m ''__riscv'' then Some (no_arch\<lparr>arch_riscv := True\<rparr>)
      else None)"

definition arch_64bit :: "macros \<Rightarrow> bool" where
  "arch_64bit m \<longleftrightarrow>
     any_defined m [''_WIN64'', ''__x86_64__'', ''__aarch64__'', ''__powerpc64__'', ''__mips64''] \<or>
     defined m ''__riscv'' \<and> if_value m ''__riscv_xlen'' = 64"

text \<open>The order of bytes: \<open>Some True\<close> is big endian.\<close>

definition detect_endian :: "macros \<Rightarrow> bool option" where
  "detect_endian m =
     (if defined m ''__BYTE_ORDER__'' then
        (if if_value m ''__BYTE_ORDER__'' = if_value m ''__ORDER_BIG_ENDIAN__'' then Some True
         else if if_value m ''__BYTE_ORDER__'' = if_value m ''__ORDER_LITTLE_ENDIAN__'' then Some False
         else None)
      else if any_defined m [''__BIG_ENDIAN__'', ''__ARMEB__'', ''__THUMBEB__'', ''__AARCH64EB__'', ''_MIPSEB'',
        ''__MIPSEB'', ''__MIPSEB__''] then Some True
      else if any_defined m [''__LITTLE_ENDIAN__'', ''__ARMEL__'', ''__THUMBEL__'', ''__AARCH64EL__'', ''_MIPSEL'',
        ''__MIPSEL'', ''__MIPSEL__''] then Some False
      else Some False)"

subsection \<open>Attributes\<close>

text \<open>The token sequences the macros stand for; a parameter of a macro is a sequence of tokens.\<close>

definition gcc_or_clang :: "compiler \<Rightarrow> bool" where
  "gcc_or_clang c \<longleftrightarrow> compiler_gcc c \<or> compiler_clang c"

definition FORCE_INLINE :: "compiler \<Rightarrow> string" where
  "FORCE_INLINE c =
     (if compiler_msvc c then ''__forceinline''
      else if gcc_or_clang c then ''inline __attribute__((always_inline))''
      else ''inline'')"

definition INLINE_FN :: "compiler \<Rightarrow> string" where
  "INLINE_FN c =
     (if compiler_msvc c then ''__inline'' else if gcc_or_clang c then ''inline'' else ''inline'')"

definition NO_INLINE :: "compiler \<Rightarrow> string" where
  "NO_INLINE c =
     (if compiler_msvc c then ''__declspec(noinline)''
      else if gcc_or_clang c then ''__attribute__((noinline))''
      else [])"

definition ALIGN_ATTR :: "compiler \<Rightarrow> string \<Rightarrow> string" where
  "ALIGN_ATTR c x =
     (if compiler_msvc c then ''__declspec(align('' @ x @ ''))''
      else if gcc_or_clang c then ''__attribute__((aligned('' @ x @ '')))''
      else [])"

definition PACKED_STRUCT :: "compiler \<Rightarrow> string \<Rightarrow> string" where
  "PACKED_STRUCT c name =
     (if compiler_msvc c then ''__pragma(pack(push, 1)) struct '' @ name @ '' __pragma(pack(pop))''
      else if gcc_or_clang c then ''struct __attribute__((packed)) '' @ name
      else ''struct '' @ name)"

text \<open>\<^verbatim>\<open>FEMTOLOG_XRAY_FN\<close> and \<^verbatim>\<open>FEMTOLOG_XRAY_FN_LOG\<close>.\<close>

definition XRAY_FN :: "macros \<Rightarrow> string" where
  "XRAY_FN m = (if if_value m ''FEMTOLOG_ENABLE_XRAY'' \<noteq> 0 then ''[[clang::xray_always_instrument]]'' else [])"

definition XRAY_FN_LOG :: "macros \<Rightarrow> string" where
  "XRAY_FN_LOG m =
     (if if_value m ''FEMTOLOG_ENABLE_XRAY'' \<noteq> 0
      then ''[[clang::xray_always_instrument, clang::xray_log_args(1)]]'' else [])"

text \<open>
  The values of \<^verbatim>\<open>FEMTOLOG_LIKELY(x)\<close> and \<^verbatim>\<open>FEMTOLOG_UNLIKELY(x)\<close>: \<^verbatim>\<open>__builtin_expect\<close> returns its first
  argument, here \<^verbatim>\<open>!!(x)\<close>; otherwise the value is \<^verbatim>\<open>x\<close>.
\<close>

definition LIKELY :: "compiler \<Rightarrow> int \<Rightarrow> int" where
  "LIKELY c x = (if gcc_or_clang c then (if x \<noteq> 0 then 1 else 0) else x)"

definition UNLIKELY :: "compiler \<Rightarrow> int \<Rightarrow> int" where
  "UNLIKELY c x = (if gcc_or_clang c then (if x \<noteq> 0 then 1 else 0) else x)"

subsection \<open>The configuration\<close>

record build =
  b_platform :: platform
  b_compiler :: compiler
  b_arch :: arch
  b_64bit :: bool
  b_32bit :: bool
  b_big_endian :: bool
  b_little_endian :: bool
  b_debug :: bool
  b_release :: bool
  b_compiler_version :: int
  b_dir_separator :: char
  b_dir_separator_str :: string
  b_path_separator :: char
  b_path_separator_str :: string
  b_windows_io :: bool
  b_posix_io :: bool
  b_windows_threads :: bool
  b_posix_threads :: bool

definition build_flags :: "macros \<Rightarrow> macros \<Rightarrow> build option" where
  "build_flags target_conditionals m = do {
     (p, m) \<leftarrow> detect_platform target_conditionals m;
     c \<leftarrow> detect_compiler m;
     a \<leftarrow> detect_arch m;
     big \<leftarrow> detect_endian m;
     let win = is_windows p;
     let backslash = CHR 0x5C;
     Some \<lparr>b_platform = p, b_compiler = c, b_arch = a,
       b_64bit = arch_64bit m, b_32bit = (\<not> arch_64bit m),
       b_big_endian = big, b_little_endian = (\<not> big),
       b_debug = (\<not> defined m ''NDEBUG''), b_release = defined m ''NDEBUG'',
       b_compiler_version = compiler_version m c,
       b_dir_separator = (if win then backslash else CHR ''/''),
       b_dir_separator_str = (if win then [backslash] else ''/''),
       b_path_separator = (if win then CHR '';'' else CHR '':''),
       b_path_separator_str = (if win then '';'' else '':''),
       b_windows_io = win, b_posix_io = (\<not> win), b_windows_threads = win, b_posix_threads = (\<not> win)\<rparr>
   }"

subsection \<open>Export annotations\<close>

definition EXPORT_ANNOTATION :: "build \<Rightarrow> string" where
  "EXPORT_ANNOTATION b =
     (if is_windows (b_platform b) then ''__declspec(dllexport)''
      else if gcc_or_clang (b_compiler b) then ''__attribute__((visibility('' @ [CHR 0x22] @ ''default'' @ [CHR 0x22] @ '')))''
      else [])"

definition IMPORT_ANNOTATION :: "build \<Rightarrow> string" where
  "IMPORT_ANNOTATION b =
     (if is_windows (b_platform b) then ''__declspec(dllimport)''
      else if gcc_or_clang (b_compiler b) then ''__attribute__((visibility('' @ [CHR 0x22] @ ''default'' @ [CHR 0x22] @ '')))''
      else [])"

definition HIDDEN_ANNOTATION :: "build \<Rightarrow> string" where
  "HIDDEN_ANNOTATION b =
     (if is_windows (b_platform b) then []
      else if gcc_or_clang (b_compiler b) then ''__attribute__((visibility('' @ [CHR 0x22] @ ''hidden'' @ [CHR 0x22] @ '')))''
      else [])"

text \<open>
  The comma trick. The arguments of a macro are the lists of tokens between the commas; a macro
  that expands to a comma adds an argument. \<open>conditional_comma\<close> pastes the expanded condition into
  a name and gives the arguments that name expands to: the comma separates two empty ones, and a
  name that is no macro stays one argument.
\<close>

definition pasted :: "string \<Rightarrow> string" where
  "pasted x = ''FEMTOLOG_COMPONENT_MACRO_CONDITIONAL_COMMA_'' @ x @ ''_''"

definition conditional_comma :: "string \<Rightarrow> string list" where
  "conditional_comma condition =
     (if pasted condition = pasted ''1'' then [[], []]
      else if pasted condition = pasted ''0'' then [[]]
      else if pasted condition = pasted [] then [[]]
      else [pasted condition])"

definition select_third_argument :: "string list \<Rightarrow> string option" where
  "select_third_argument args = (case args @ [''0'', ''0''] of a # b # c # rest \<Rightarrow> Some c | _ \<Rightarrow> None)"

definition macro_conditional :: "string \<Rightarrow> string \<Rightarrow> string \<Rightarrow> string option" where
  "macro_conditional condition consequent alternate =
     select_third_argument (conditional_comma condition @ [consequent, alternate])"

text \<open>
  What the tokens \<^verbatim>\<open>FEMTOLOG_IS_<component>_<kind>\<close> expand to: the text the build defined for it, else
  the identifier itself. \<open>defs\<close> are the definitions of the build.
\<close>

definition expand_flag :: "(string \<Rightarrow> string option) \<Rightarrow> string \<Rightarrow> string \<Rightarrow> string" where
  "expand_flag defs component kind =
     (let name = ''FEMTOLOG_IS_'' @ component @ ''_'' @ kind
      in case defs name of Some text \<Rightarrow> text | None \<Rightarrow> name)"

definition component_export :: "(string \<Rightarrow> string option) \<Rightarrow> build \<Rightarrow> string \<Rightarrow> string option" where
  "component_export defs b component = do {
     inner \<leftarrow> macro_conditional (expand_flag defs component ''IMPL'') (EXPORT_ANNOTATION b) (IMPORT_ANNOTATION b);
     macro_conditional (expand_flag defs component ''STATIC'') [] inner
   }"

definition inside_component_impl :: "(string \<Rightarrow> string option) \<Rightarrow> string \<Rightarrow> string option" where
  "inside_component_impl defs component = macro_conditional (expand_flag defs component ''IMPL'') ''1'' ''0''"

text \<open>\<^verbatim>\<open>femtolog_export.h\<close> and \<^verbatim>\<open>core_export.h\<close>.\<close>

definition FEMTOLOG_EXPORT :: "(string \<Rightarrow> string option) \<Rightarrow> build \<Rightarrow> string option" where
  "FEMTOLOG_EXPORT defs b = component_export defs b ''FEMTOLOG''"

definition FEMTOLOG_CORE_EXPORT :: "(string \<Rightarrow> string option) \<Rightarrow> build \<Rightarrow> string option" where
  "FEMTOLOG_CORE_EXPORT defs b = component_export defs b ''FEMTOLOG_CORE''"

subsection \<open>Lemmas\<close>

definition exactly_one :: "bool list \<Rightarrow> bool" where
  "exactly_one bs \<longleftrightarrow> count_list bs True = 1"

lemma detect_platform_one:
  "detect_platform tc m = Some (p, m') \<Longrightarrow>
     exactly_one [is_windows p, is_mac p, is_ios p, is_android p, is_linux p, is_bsd p, is_cygwin p, is_solaris p] \<and>
     is_unix p = (\<not> is_windows p)"
  by (auto simp: detect_platform_def no_platform_def exactly_one_def Let_def split: if_splits)

lemma detect_compiler_one:
  "detect_compiler m = Some c \<Longrightarrow>
     exactly_one [compiler_msvc c, compiler_gcc c, compiler_clang c, compiler_intel c, compiler_mingw c]"
  by (auto simp: detect_compiler_def exactly_one_def split: if_splits)

lemma detect_arch_one:
  "detect_arch m = Some a \<Longrightarrow>
     exactly_one [arch_x64 a, arch_x86 a, arch_arm a, arch_arm64 a, arch_mips a, arch_ppc a, arch_riscv a]"
  by (auto simp: detect_arch_def no_arch_def exactly_one_def split: if_splits)

lemma build_flags_Some:
  "build_flags tc m = Some b \<longleftrightarrow> (\<exists>p m' c a big. detect_platform tc m = Some (p, m') \<and> detect_compiler m' = Some c \<and>
     detect_arch m' = Some a \<and> detect_endian m' = Some big \<and>
     b = \<lparr>b_platform = p, b_compiler = c, b_arch = a, b_64bit = arch_64bit m', b_32bit = (\<not> arch_64bit m'),
       b_big_endian = big, b_little_endian = (\<not> big),
       b_debug = (\<not> defined m' ''NDEBUG''), b_release = defined m' ''NDEBUG'',
       b_compiler_version = compiler_version m' c,
       b_dir_separator = (if is_windows p then CHR 0x5C else CHR ''/''),
       b_dir_separator_str = (if is_windows p then [CHR 0x5C] else ''/''),
       b_path_separator = (if is_windows p then CHR '';'' else CHR '':''),
       b_path_separator_str = (if is_windows p then '';'' else '':''),
       b_windows_io = is_windows p, b_posix_io = (\<not> is_windows p),
       b_windows_threads = is_windows p, b_posix_threads = (\<not> is_windows p)\<rparr>)"
  by (auto simp: build_flags_def Let_def bind_eq_Some_conv)

text \<open>\<^verbatim>\<open>FEMTOLOG_LIKELY\<close> keeps the truth value of its argument on every compiler, not the value.\<close>

lemma likely_truth: "LIKELY c x \<noteq> 0 \<longleftrightarrow> x \<noteq> 0" "UNLIKELY c x \<noteq> 0 \<longleftrightarrow> x \<noteq> 0"
  by (simp_all add: LIKELY_def UNLIKELY_def)

text \<open>Where the system header defines \<^verbatim>\<open>TARGET_OS_MAC\<close> as 1, as on all Apple platforms, the branch for
  iOS is dead: an iOS build counts as macOS.\<close>

lemma ios_branch_dead:
  assumes "detect_platform tc m = Some (p, m')" "defined m ''__APPLE__''" "\<not> is_windows p" "tc ''TARGET_OS_MAC'' = Some 1"
  shows "is_mac p \<and> \<not> is_ios p"
  using assms by (auto simp: detect_platform_def no_platform_def if_value_def Let_def split: if_splits)

text \<open>On MinGW, a GCC, alignment and packing vanish and the version is 0.\<close>

lemma mingw_attributes:
  assumes "defined m ''__MINGW32__''" "\<not> any_defined m [''_MSC_VER'', ''__clang__'', ''__INTEL_COMPILER'', ''__ICC'']"
  shows "\<exists>c. detect_compiler m = Some c \<and> compiler_mingw c \<and> ALIGN_ATTR c x = [] \<and>
           PACKED_STRUCT c name = ''struct '' @ name \<and> compiler_version m c = 0"
  using assms by (simp add: any_defined_def detect_compiler_def ALIGN_ATTR_def PACKED_STRUCT_def gcc_or_clang_def compiler_version_def)

text \<open>The x32 ABI of x86-64, with 32-bit pointers, counts as 64-bit.\<close>

lemma x32_counts_as_64bit: "defined m ''__x86_64__'' \<Longrightarrow> defined m ''__ILP32__'' \<Longrightarrow> arch_64bit m"
  by (simp add: arch_64bit_def any_defined_def)

lemma pasted_inj [simp]: "pasted x = pasted y \<longleftrightarrow> x = y"
  by (simp add: pasted_def)

lemma macro_conditional_eq: "macro_conditional x a b = Some (if x = ''1'' then a else b)"
  by (simp add: macro_conditional_def conditional_comma_def select_third_argument_def)

subsection \<open>Properties\<close>


text \<open>The configuration this development is about is what the header makes of a release build by GCC
  or Clang for x86-64 Linux: little endian, 64-bit, POSIX, with the separators the paths use.\<close>

theorem linux_release_configuration:
  assumes "any_defined m [''__linux__'', ''__linux'', ''linux'']" "defined m ''__x86_64__''" "defined m ''NDEBUG''"
    and "defined m ''__GNUC__'' \<or> defined m ''__clang__''"
    and "\<not> any_defined m [''_WIN32'', ''_WIN64'', ''__WIN32__'', ''__APPLE__'', ''__ANDROID__'', ''_MSC_VER'',
        ''__INTEL_COMPILER'', ''__ICC'', ''__MINGW32__'', ''__MINGW64__'']"
    and "m ''__BYTE_ORDER__'' = Some 1234" "m ''__ORDER_LITTLE_ENDIAN__'' = Some 1234"
    and "m ''__ORDER_BIG_ENDIAN__'' = Some 4321"
  shows "\<exists>b. build_flags tc m = Some b \<and> is_linux (b_platform b) \<and> gcc_or_clang (b_compiler b) \<and>
     arch_x64 (b_arch b) \<and> b_64bit b \<and> b_little_endian b \<and> b_release b \<and> b_posix_io b \<and>
     b_dir_separator b = FEMTOLOG_DIR_SEPARATOR \<and> b_path_separator b = FEMTOLOG_PATH_SEPARATOR"
proof -
  have "detect_platform tc m = Some (no_platform\<lparr>is_unix := True, is_linux := True\<rparr>, m)"
    using assms(1,5) by (simp add: any_defined_def detect_platform_def Let_def)
  moreover have "\<exists>c. detect_compiler m = Some c \<and> gcc_or_clang c"
    using assms(4,5) by (cases "defined m ''__clang__''") (simp_all add: any_defined_def detect_compiler_def gcc_or_clang_def)
  moreover have "detect_arch m = Some (no_arch\<lparr>arch_x64 := True\<rparr>)" "arch_64bit m"
    using assms(2) by (simp_all add: any_defined_def detect_arch_def arch_64bit_def)
  moreover have "detect_endian m = Some False"
    using assms(6-8) by (simp add: detect_endian_def defined_def if_value_def)
  ultimately show ?thesis using assms(3)
    by (auto simp: build_flags_def no_platform_def no_arch_def FEMTOLOG_DIR_SEPARATOR_def FEMTOLOG_PATH_SEPARATOR_def)
qed

definition gcc_linux_macros :: macros where
  "gcc_linux_macros = [''__linux__'' \<mapsto> 1, ''__x86_64__'' \<mapsto> 1, ''__GNUC__'' \<mapsto> 13, ''__GNUC_MINOR__'' \<mapsto> 2,
     ''NDEBUG'' \<mapsto> 1, ''__BYTE_ORDER__'' \<mapsto> 1234, ''__ORDER_LITTLE_ENDIAN__'' \<mapsto> 1234, ''__ORDER_BIG_ENDIAN__'' \<mapsto> 4321]"

theorem linux_release_configuration_witness:
  "\<exists>b. build_flags Map.empty gcc_linux_macros = Some b \<and> is_linux (b_platform b) \<and> b_release b \<and> b_64bit b"
  using linux_release_configuration [of gcc_linux_macros Map.empty] by (auto simp: gcc_linux_macros_def defined_def any_defined_def)

text \<open>The comma trick of the export macros works: a component of a static build has no annotation,
  and in a shared build the component itself is exported and everyone else imports it; a flag
  that the build leaves undefined counts as 0.\<close>

theorem component_export_selects:
  "component_export defs b component = Some
     (if expand_flag defs component ''STATIC'' = ''1'' then []
      else if expand_flag defs component ''IMPL'' = ''1'' then EXPORT_ANNOTATION b
      else IMPORT_ANNOTATION b) \<and>
   (\<forall>kind. defs (''FEMTOLOG_IS_'' @ component @ ''_'' @ kind) = None \<longrightarrow> expand_flag defs component kind \<noteq> ''1'')"
  by (simp add: component_export_def macro_conditional_eq expand_flag_def Let_def)

end
