(* ===== verification/Crash_Handlers.thy ===== *)
theory Crash_Handlers
  imports Stack_Trace Build_Flag
begin

text \<open>
  What happens when the process crashes: \<^verbatim>\<open>signal_handler.cc\<close> and \<^verbatim>\<open>terminate_handler.cc\<close> under
  \<^verbatim>\<open>src/src/core/diagnostics/\<close>, and the failing checks of \<^verbatim>\<open>src/src/core/check.cc\<close> and its header.
  A process is its two output streams and the handlers it installed; an operation that does not
  come back gives the way the process ended. Clock, process and thread ids are parameters, and so is
  the build (\<^theory_text>\<open>Build_Flag\<close>), on which the registration of a handler and the debug checks depend.
\<close>

datatype ending = Running | Exited int | Killed int

record process =
  p_out :: string
  p_err :: string
  p_signals :: "int \<Rightarrow> bool"
  p_terminate :: bool
  p_initialized :: bool
  p_ending :: ending

record host =
  h_unwinder :: unwinder
  h_time :: int
  h_ctime :: "int \<Rightarrow> string"
  h_pid :: int
  h_tid :: string

definition show_int :: "int \<Rightarrow> string" where
  "show_int i = (if i < 0 then ''-'' @ decimal (nat (- i)) else decimal (nat i))"

abbreviation newline :: string where "newline \<equiv> [CHR 0x0A]"

text \<open>Signal numbers of Linux.\<close>

definition SIGINT :: int where "SIGINT = 2"
definition SIGILL :: int where "SIGILL = 4"
definition SIGABRT :: int where "SIGABRT = 6"
definition SIGFPE :: int where "SIGFPE = 8"
definition SIGSEGV :: int where "SIGSEGV = 11"
definition SIGTERM :: int where "SIGTERM = 15"

lemmas signal_numbers = SIGINT_def SIGILL_def SIGABRT_def SIGFPE_def SIGSEGV_def SIGTERM_def

definition signal_to_string :: "int \<Rightarrow> string" where
  "signal_to_string signal_number =
     (if signal_number = SIGSEGV then ''SIGSEGV (Invalid access to storage)''
      else if signal_number = SIGABRT then ''SIGABRT (Abnormal termination)''
      else if signal_number = SIGFPE then ''SIGFPE (Floating point exception)''
      else if signal_number = SIGILL then ''SIGILL (Illegal instruction)''
      else if signal_number = SIGINT then ''SIGINT (Interactive attention signal)''
      else if signal_number = SIGTERM then ''SIGTERM (Termination request)''
      else ''Unknown signal'')"

definition exit_failure :: "process \<Rightarrow> process" where
  "exit_failure p = p\<lparr>p_ending := Exited 1\<rparr>"

definition signal_report :: "host \<Rightarrow> int \<Rightarrow> string" where
  "signal_report h signal_number = (let now = h_time h in
     ''Aborted at '' @ h_ctime h now @ newline @
     ''('' @ show_int now @ '' in unix time)'' @ newline @
     signal_to_string signal_number @ '' received by PID '' @
     show_int (h_pid h) @ ''(TID '' @ h_tid h @ '')'' @ newline)"

definition signal_handler :: "host \<Rightarrow> int \<Rightarrow> process \<Rightarrow> process option" where
  "signal_handler h signal_number p = do {
     trace \<leftarrow> stack_trace_from_current_context (h_unwinder h) True 1 kPlatformMaxFrames;
     Some (exit_failure (p\<lparr>p_out := p_out p @ signal_report h signal_number @ trace @ newline\<rparr>))
   }"

definition register_signal_handlers :: "build \<Rightarrow> process \<Rightarrow> process" where
  "register_signal_handlers b p =
     (let p = p\<lparr>p_signals := (p_signals p)(SIGSEGV := True, SIGABRT := True, SIGFPE := True, SIGILL := True)\<rparr>
      in if b_debug b then p\<lparr>p_signals := (p_signals p)(SIGINT := True)\<rparr> else p)"

definition terminate_handler :: "host \<Rightarrow> process \<Rightarrow> process option" where
  "terminate_handler h p = do {
     trace \<leftarrow> stack_trace_from_current_context (h_unwinder h) True 1 kPlatformMaxFrames;
     Some (exit_failure (p\<lparr>p_out := p_out p @
       newline @ ''femtolog: program terminated unexpectedly'' @ newline @
       ''stack trace (most recent call last):'' @ newline @ trace @ newline\<rparr>))
   }"

definition register_terminate_handler :: "process \<Rightarrow> process" where
  "register_terminate_handler p = p\<lparr>p_terminate := True\<rparr>"

text \<open>
  The C and C++ library: a signal runs its handler or, by default, kills the process;
  \<^verbatim>\<open>std::terminate\<close> runs the installed handler or aborts.
\<close>

definition raise_signal :: "host \<Rightarrow> int \<Rightarrow> process \<Rightarrow> process option" where
  "raise_signal h n p =
     (if p_signals p n then signal_handler h n p else Some (p\<lparr>p_ending := Killed n\<rparr>))"

definition std_terminate :: "host \<Rightarrow> process \<Rightarrow> process option" where
  "std_terminate h p = (if p_terminate p then terminate_handler h p else raise_signal h SIGABRT p)"

subsection \<open>Failing checks\<close>

record check_failure_stream =
  cf_type :: string
  cf_file :: string
  cf_line :: int
  cf_condition :: string

definition cf_new :: "string \<Rightarrow> string \<Rightarrow> int \<Rightarrow> string \<Rightarrow> check_failure_stream" where
  "cf_new type file line condition =
     \<lparr>cf_type = type, cf_file = file, cf_line = line, cf_condition = condition\<rparr>"

definition cf_stream :: "check_failure_stream \<Rightarrow> process \<Rightarrow> process" where
  "cf_stream c p = p\<lparr>p_err := p_err p @ cf_type c @ '' failed: '' @ [CHR 0x22] @ cf_condition c @ [CHR 0x22] @
     '' at '' @ cf_file c @ '':'' @ show_int (cf_line c) @ newline\<rparr>"

definition cf_destroy :: "host \<Rightarrow> process \<Rightarrow> process option" where
  "cf_destroy h p = std_terminate h p"

text \<open>
  \<^verbatim>\<open>FEMTOLOG_CHECK(condition) << message\<close>: the temporary is destroyed at the end of the statement,
  after the message.
\<close>

definition check_impl :: "host \<Rightarrow> bool \<Rightarrow> check_failure_stream \<Rightarrow> string \<Rightarrow> process \<Rightarrow> process option" where
  "check_impl h condition c message p =
     (if \<not> condition
      then let p = cf_stream c p in cf_destroy h (p\<lparr>p_err := p_err p @ message\<rparr>)
      else Some p)"

text \<open>
  \<^verbatim>\<open>log_check_failure\<close>: here the temporary is destroyed at the end of the declaration of \<^verbatim>\<open>os\<close>; the
  values are written only if the process is still running. An operand without an output operator
  has no text.
\<close>

definition log_check_failure ::
  "host \<Rightarrow> check_failure_stream \<Rightarrow> string option \<Rightarrow> string option \<Rightarrow> process \<Rightarrow> process option" where
  "log_check_failure h c lhs rhs p = do {
     p \<leftarrow> cf_destroy h (cf_stream c p);
     (if p_ending p \<noteq> Running then Some p
      else case (lhs, rhs) of
        (Some l, Some r) \<Rightarrow> Some (p\<lparr>p_err := p_err p @ ''  expected: '' @ r @ newline @
          ''    actual: '' @ l @ newline\<rparr>)
      | _ \<Rightarrow> Some (p\<lparr>p_err := p_err p @ ''  [value output not available for operands]'' @ newline\<rparr>))
   }"

text \<open>
  \<^verbatim>\<open>FEMTOLOG_CHECK_EQ(a, b) << message\<close> and its like expand to
  \<^verbatim>\<open>cond ? log_check_failure(...) : null_stream() << message\<close>, in which the message belongs to the null
  stream.
\<close>

definition check_w_op_impl ::
  "host \<Rightarrow> bool \<Rightarrow> check_failure_stream \<Rightarrow> string option \<Rightarrow> string option \<Rightarrow> string \<Rightarrow> process \<Rightarrow> process option" where
  "check_w_op_impl h holds c lhs rhs message p =
     (if \<not> holds then log_check_failure h c lhs rhs p else Some p)"

text \<open>
  The comparison macros: each pastes its operator between the texts of its operands. The operands are
  evaluated in the process, where they may have effects, the left one first (the language leaves the
  order open); a check that fails evaluates each once more to pass
  it to \<^verbatim>\<open>log_check_failure\<close>. Integers are shown in decimal.
\<close>

datatype check_op = CHECK_EQ | CHECK_NE | CHECK_GT | CHECK_GE | CHECK_LT | CHECK_LE

fun op_text :: "check_op \<Rightarrow> string" where
  "op_text CHECK_EQ = ''==''"
| "op_text CHECK_NE = ''!=''"
| "op_text CHECK_GT = ''>''"
| "op_text CHECK_GE = ''>=''"
| "op_text CHECK_LT = ''<''"
| "op_text CHECK_LE = ''<=''"

fun op_holds :: "check_op \<Rightarrow> 'a::linorder \<Rightarrow> 'a \<Rightarrow> bool" where
  "op_holds CHECK_EQ x y \<longleftrightarrow> x = y"
| "op_holds CHECK_NE x y \<longleftrightarrow> x \<noteq> y"
| "op_holds CHECK_GT x y \<longleftrightarrow> x > y"
| "op_holds CHECK_GE x y \<longleftrightarrow> x \<ge> y"
| "op_holds CHECK_LT x y \<longleftrightarrow> x < y"
| "op_holds CHECK_LE x y \<longleftrightarrow> x \<le> y"

record operand =
  o_text :: string
  o_eval :: "process \<Rightarrow> int \<times> process"

definition check_op_impl ::
  "host \<Rightarrow> string \<Rightarrow> check_op \<Rightarrow> operand \<Rightarrow> operand \<Rightarrow> string \<Rightarrow> int \<Rightarrow> string \<Rightarrow> process \<Rightarrow> process option" where
  "check_op_impl h type op val1 val2 file line message p =
     (let (v1, p) = o_eval val1 p;
          (v2, p) = o_eval val2 p
      in if op_holds op v1 v2 then Some p
         else let (l, p) = o_eval val1 p;
                  (r, p) = o_eval val2 p
              in check_w_op_impl h False
                   (cf_new type file line (o_text val1 @ '' '' @ op_text op @ '' '' @ o_text val2))
                   (Some (show_int l)) (Some (show_int r)) message p)"

definition FEMTOLOG_CHECK_OP ::
  "host \<Rightarrow> check_op \<Rightarrow> operand \<Rightarrow> operand \<Rightarrow> string \<Rightarrow> int \<Rightarrow> string \<Rightarrow> process \<Rightarrow> process option" where
  "FEMTOLOG_CHECK_OP h = check_op_impl h ''FEMTOLOG_CHECK''"

text \<open>
  The debug checks are those checks in a debug build; in a release build the condition is dropped by the
  preprocessor, and the message is an operand of a statement that is never executed.
\<close>

definition FEMTOLOG_DCHECK_OP ::
  "build \<Rightarrow> host \<Rightarrow> check_op \<Rightarrow> operand \<Rightarrow> operand \<Rightarrow> string \<Rightarrow> int \<Rightarrow> string \<Rightarrow> process \<Rightarrow> process option" where
  "FEMTOLOG_DCHECK_OP b h op val1 val2 file line message p =
     (if b_release b then Some p
      else check_op_impl h ''FEMTOLOG_DCHECK'' op val1 val2 file line message p)"

definition FEMTOLOG_CHECK ::
  "host \<Rightarrow> string \<Rightarrow> (process \<Rightarrow> bool \<times> process) \<Rightarrow> string \<Rightarrow> int \<Rightarrow> string \<Rightarrow> process \<Rightarrow> process option" where
  "FEMTOLOG_CHECK h text condition file line message p =
     (let (v, p) = condition p in check_impl h v (cf_new ''FEMTOLOG_CHECK'' file line text) message p)"

definition FEMTOLOG_DCHECK ::
  "build \<Rightarrow> host \<Rightarrow> string \<Rightarrow> (process \<Rightarrow> bool \<times> process) \<Rightarrow> string \<Rightarrow> int \<Rightarrow> string \<Rightarrow> process \<Rightarrow> process option" where
  "FEMTOLOG_DCHECK b h text condition file line message p =
     (if b_release b then Some p
      else let (v, p) = condition p in check_impl h v (cf_new ''FEMTOLOG_DCHECK'' file line text) message p)"

subsection \<open>Lemmas\<close>

lemma std_terminate_ends: "std_terminate h p = Some p' \<Longrightarrow> p_ending p' \<noteq> Running"
  by (auto simp: std_terminate_def raise_signal_def signal_handler_def terminate_handler_def
      exit_failure_def Let_def bind_eq_Some_conv split: if_splits)

lemma log_check_failure_ends: "log_check_failure h c lhs rhs p = std_terminate h (cf_stream c p)"
  using std_terminate_ends [of h "cf_stream c p"]
  by (cases "std_terminate h (cf_stream c p)") (auto simp: log_check_failure_def cf_destroy_def)

text \<open>A failing comparison writes neither its operands nor the message given to it.\<close>

lemma check_w_op_values_lost:
  "check_w_op_impl h False c lhs rhs message p = check_impl h False c [] p"
  by (simp add: check_w_op_impl_def check_impl_def log_check_failure_ends cf_destroy_def Let_def)

text \<open>
  A debug check that holds changes the process only through its operands; in a release build it does not even
  evaluate them, so an operand with an effect makes the builds differ.
\<close>

lemma dcheck_op_passes:
  assumes "\<And>p. snd (o_eval x p) = p" "\<And>p. snd (o_eval y p) = p" "op_holds op (fst (o_eval x p)) (fst (o_eval y p))"
  shows "FEMTOLOG_DCHECK_OP b h op x y file line message p = Some p"
  using assms by (simp add: FEMTOLOG_DCHECK_OP_def check_op_impl_def split_beta)

lemma dcheck_release: "b_release b \<Longrightarrow> FEMTOLOG_DCHECK_OP b h op x y file line message p = Some p"
    "b_release b \<Longrightarrow> FEMTOLOG_DCHECK b h text condition file line message p = Some p"
  by (simp_all add: FEMTOLOG_DCHECK_OP_def FEMTOLOG_DCHECK_def)

text \<open>The operators negate each other in pairs, so the text of a failed check is a true statement negated.\<close>

lemma op_holds_negated:
  "op_holds CHECK_NE x y \<longleftrightarrow> \<not> op_holds CHECK_EQ x y"
  "op_holds CHECK_LE x y \<longleftrightarrow> \<not> op_holds CHECK_GT x y"
  "op_holds CHECK_LT x y \<longleftrightarrow> \<not> op_holds CHECK_GE x y"
  by auto

lemma handler_trace:
  assumes "short_names uw" "\<forall>n. length (uw_backtrace uw n) \<le> n"
  shows "stack_trace_from_current_context uw True 1 kPlatformMaxFrames =
    Some (fitting_lines 4096 (trace_lines uw True 2 64))"
proof -
  have "(1 :: nat) + 1 < 2 ^ 64" by simp
  from stack_trace_text_holds [OF assms this, of True 64] show ?thesis
    unfolding kPlatformMaxFrames_def one_add_one .
qed

lemma terminate_reports:
  assumes "short_names (h_unwinder h)" "\<forall>n. length (uw_backtrace (h_unwinder h) n) \<le> n" "p_terminate p"
  shows "std_terminate h p =
    Some (p\<lparr>p_ending := Exited 1,
      p_out := p_out p @ newline @ ''femtolog: program terminated unexpectedly'' @ newline @
        ''stack trace (most recent call last):'' @ newline @
        fitting_lines 4096 (trace_lines (h_unwinder h) True 2 64) @ newline\<rparr>)"
  unfolding std_terminate_def terminate_handler_def exit_failure_def handler_trace [OF assms(1,2)]
  using assms(3) by simp

lemma signal_reports:
  assumes "short_names (h_unwinder h)" "\<forall>n. length (uw_backtrace (h_unwinder h) n) \<le> n"
    "n \<in> {SIGSEGV, SIGABRT, SIGFPE, SIGILL} \<or> b_debug b \<and> n = SIGINT"
  shows "raise_signal h n (register_signal_handlers b p) =
    Some ((register_signal_handlers b p)\<lparr>p_ending := Exited 1, p_out := p_out p @ signal_report h n @
      fitting_lines 4096 (trace_lines (h_unwinder h) True 2 64) @ newline\<rparr>)"
proof -
  have "p_signals (register_signal_handlers b p) n" "p_out (register_signal_handlers b p) = p_out p"
    using assms(3) by (auto simp: register_signal_handlers_def Let_def)
  then show ?thesis
    unfolding raise_signal_def signal_handler_def exit_failure_def handler_trace [OF assms(1,2)] by simp
qed



end
