(* ===== verification/Process_Exit.thy ===== *)
theory Process_Exit
  imports Sink_Disk Crash_Handlers
begin

text \<open>
  How a process ends in a fatal log call: the logging call of \<^verbatim>\<open>internal_logger.h\<close> stops the worker and
  calls \<^verbatim>\<open>std::terminate\<close>, whose handler (\<^verbatim>\<open>terminate_handler.cc\<close>, installed by \<^verbatim>\<open>Logger::init\<close>) exits the
  process. \<^verbatim>\<open>std::exit\<close> destroys the loggers with static or thread storage (\<^verbatim>\<open>Logger::logger\<close> and
  \<^verbatim>\<open>Logger::global_logger\<close> of \<^verbatim>\<open>src/src/femtolog/logger.cc\<close>), not those in automatic storage
  (\<^verbatim>\<open>Logger::create_logger\<close>); a process that is killed destroys none.
\<close>

datatype storage = Static_storage | Automatic_storage

text \<open>The storage of the loggers that the functions of \<^verbatim>\<open>Logger\<close> give out.\<close>

datatype logger_source = Logger_logger | Logger_global_logger | Logger_create_logger

fun logger_storage :: "logger_source \<Rightarrow> storage" where
  "logger_storage Logger_logger = Static_storage"
| "logger_storage Logger_global_logger = Static_storage"
| "logger_storage Logger_create_logger = Automatic_storage"

text \<open>
  \<^verbatim>\<open>Logger::register_exception_handlers\<close> does its work once in a process, in the initialiser of a static
  variable (\<open>p_initialized\<close>); on Linux the stack trace handler does nothing.
\<close>

definition register_stack_trace_handler :: "process \<Rightarrow> process" where
  "register_stack_trace_handler p = p"

definition register_exception_handlers :: "build \<Rightarrow> process \<Rightarrow> process" where
  "register_exception_handlers b p =
     (if p_initialized p then p
      else (register_stack_trace_handler (register_signal_handlers b (register_terminate_handler p)))
        \<lparr>p_initialized := True\<rparr>)"

definition logger_init ::
  "build \<Rightarrow> memalign \<Rightarrow> (byte list \<Rightarrow> nat \<Rightarrow> byte list) \<Rightarrow> femtolog_options \<Rightarrow> 's internal_logger \<times> process \<Rightarrow>
   ('s internal_logger \<times> process) option" where
  "logger_init b pm fmt_reserve options lp = do {
     l \<leftarrow> internal_logger_init pm fmt_reserve options (fst lp);
     Some (l, register_exception_handlers b (snd lp))
   }"

text \<open>What becomes of the sinks of a logger when the process ends.\<close>

definition exit_sinks ::
  "'s env \<Rightarrow> ('s \<Rightarrow> 's option) \<Rightarrow> storage \<Rightarrow> ending \<Rightarrow> 's internal_logger \<Rightarrow> 's list option" where
  "exit_sinks env destroy st ending l =
     (case ending of
        Exited _ \<Rightarrow> (case st of Static_storage \<Rightarrow> internal_logger_destroy env destroy l
                     | Automatic_storage \<Rightarrow> Some (bw_sinks (il_backend l)))
      | _ \<Rightarrow> Some (bw_sinks (il_backend l)))"

text \<open>A log call in a process: it returns, or the process has ended.\<close>

datatype 's after_call = Goes_on "'s internal_logger" process | Ended "'s list" process

definition process_log ::
  "host \<Rightarrow> 's env \<Rightarrow> ('s \<Rightarrow> 's option) \<Rightarrow> storage \<Rightarrow> log_level \<Rightarrow> string \<Rightarrow> bool \<Rightarrow> u64 \<Rightarrow> u64 \<Rightarrow>
   (cxx_type \<times> arg_value) list \<Rightarrow> 's internal_logger \<Rightarrow> process \<Rightarrow> 's after_call option" where
  "process_log h env destroy st level fmt m ff df args l p = do {
     r \<leftarrow> log_call env level fmt m ff df args l;
     (case r of
        Returned l \<Rightarrow> Some (Goes_on l p)
      | Terminated l \<Rightarrow> do {
          p \<leftarrow> std_terminate h p;
          sinks \<leftarrow> exit_sinks env destroy st (p_ending p) l;
          Some (Ended sinks p)
        })
   }"

subsection \<open>Lemmas\<close>

lemma registered_terminates:
  "\<not> p_initialized p \<Longrightarrow> p_terminate (register_exception_handlers b p)"
  "p_err (register_exception_handlers b p) = p_err p"
  by (simp_all add: register_exception_handlers_def register_stack_trace_handler_def register_signal_handlers_def
      register_terminate_handler_def Let_def)

text \<open>A fatal message of 1000 bytes or more is dropped like any other and does not end the process.\<close>

lemma long_fatal_goes_on:
  assumes "logger_inv l" "bw_status (il_backend l) = Bw_kRunning" "\<not> kFatal > il_level l"
    and "call_ok env fcap fmt m ff df args" "1000 \<le> length (call_payload fmt m ff df args)"
  shows "\<exists>l'. process_log h env destroy st kFatal fmt m ff df args l p = Some (Goes_on l' p) \<and>
           il_dropped_count l' = il_dropped_count l + 1"
proof -
  from log_call_settles [OF assms(1-4)] assms(5) obtain l' where
    "log_call env kFatal fmt m ff df args l = Some (Returned l')"
    "offered l kFatal (call_format_id fmt args) (call_payload fmt m ff df args) l'" by auto
  then show ?thesis using assms(5) by (intro exI [of _ l']) (simp add: process_log_def offered_def)
qed

text \<open>The files of disk sinks that are destroyed, and of those that are not.\<close>

lemma disk_left_alone:
  assumes "list_all2 (\<lambda>d d'. disk_inv os file app d' \<and> ds_path d' = ds_path d \<and> disk_out file d' = t d) ss ss'"
  shows "list_all2 (\<lambda>d d'. ds_path d' = ds_path d \<and>
     (\<exists>c. file (ds_world d') (ds_path d) = Some c \<and> c @ sink_pending (ds_sink d') = t d)) ss ss'"
  using assms by (rule list_all2_mono) (auto simp: disk_inv_def linked_def disk_out_def)

text \<open>What the files hold once the process has exited with an idle logger.\<close>

lemma exit_files:
  assumes "list_all2 (\<lambda>d d'. disk_inv os file app d' \<and> ds_path d' = ds_path d \<and> disk_out file d' = t d)
      ss (bw_sinks (il_backend l))"
    and "bw_status (il_backend l) = Bw_kIdling"
  shows "\<exists>ds. exit_sinks env (disk_destroy os) st (Exited 1) l = Some ds \<and>
     list_all2 (\<lambda>d d'. \<exists>c. file (ds_world d') (ds_path d) = Some c \<and>
       c @ (case st of Static_storage \<Rightarrow> [] | Automatic_storage \<Rightarrow> sink_pending (ds_sink d')) = t d) ss ds"
proof (cases st)
  case Static_storage
  from disk_destroy_all [OF assms(1)] obtain ds where
    "those (map (disk_destroy os) (bw_sinks (il_backend l))) = Some ds"
    "list_all2 (\<lambda>d d'. ds_path d' = ds_path d \<and> file (ds_world d') (ds_path d) = Some (t d)) ss ds" by blast
  then show ?thesis using assms(2) Static_storage
    by (intro exI [of _ ds]) (auto simp: exit_sinks_def idle_destroy elim: list_all2_mono)
next
  case Automatic_storage
  then show ?thesis using disk_left_alone [OF assms(1)]
    by (intro exI [of _ "bw_sinks (il_backend l)"]) (auto simp: exit_sinks_def elim: list_all2_mono)
qed

subsection \<open>Properties\<close>


definition demo_host :: host where
  "demo_host = \<lparr>h_unwinder = example_unwinder, h_time = 0, h_ctime = (\<lambda>t. ''now''), h_pid = 7, h_tid = ''8''\<rparr>"

definition demo_process :: process where
  "demo_process = \<lparr>p_out = [], p_err = [], p_signals = (\<lambda>n. False), p_terminate = False, p_initialized = False, p_ending = Running\<rparr>"

text \<open>The release build of GCC for Linux.\<close>

definition demo_build :: build where
  "demo_build = the (build_flags Map.empty gcc_linux_macros)"


end
