(* ===== verification/Unit_Tests.thy ===== *)
theory Unit_Tests
  imports Queue_Storage Process_Exit
begin

text \<open>
  The expectations of the repository's own unit tests, evaluated on the model: \<^verbatim>\<open>string_util_test.cc\<close>,
  \<^verbatim>\<open>file_util_test.cc\<close>, \<^verbatim>\<open>spsc_queue_test.cc\<close>, \<^verbatim>\<open>spmc_queue_test.cc\<close> and \<^verbatim>\<open>args_serializer_test.cc\<close>. Each
  lemma is named after its test. They say nothing the theorems of the other theories do not say in
  general; they tie the definitions to what the authors expect of the code.
\<close>

subsection \<open>string_util_test.cc\<close>

lemma ToLowerAsciiChar:
  "to_lower (CHR ''A'') = CHR ''a''" "to_lower (CHR ''Z'') = CHR ''z''"
  "to_lower (CHR ''a'') = CHR ''a''" "to_lower (CHR ''0'') = CHR ''0''"
  by code_simp+

lemma ToUpperAsciiChar:
  "to_upper (CHR ''a'') = CHR ''A''" "to_upper (CHR ''z'') = CHR ''Z''"
  "to_upper (CHR ''A'') = CHR ''A''" "to_upper (CHR ''0'') = CHR ''0''"
  by code_simp+

lemma ToLower: "to_lower_string ''HeLLo'' = ''hello''" "to_lower_each ''HeLLo'' 0 = ''hello''"
  by code_simp+

lemma ToUpper: "to_upper_string ''HeLLo'' = ''HELLO''" "to_upper_each ''HeLLo'' 0 = ''HELLO''"
  by code_simp+

lemma EncodeEscape:
  "encode_escape (''hello'' @ [CHR 0x0A] @ ''world'' @ [CHR 0x09]) =
     Some (''hello'' @ [CHR 0x5C] @ ''nworld'' @ [CHR 0x5C] @ ''t'')"
  by code_simp

lemma DecodeEscape:
  "decode_escape (''hello'' @ [CHR 0x5C] @ ''nworld'' @ [CHR 0x5C] @ ''t'') =
     Some (''hello'' @ [CHR 0x0A] @ ''world'' @ [CHR 0x09])"
  by code_simp

lemma Utf8CharLength:
  "utf8_char_length (CHR 0x24) = 1" "utf8_char_length (CHR 0xC2) = 2"
  "utf8_char_length (CHR 0xE2) = 3" "utf8_char_length (CHR 0xF0) = 4"
  by code_simp+

text \<open>Three Hiragana letters of three bytes, cut to two.\<close>

lemma Utf8Truncate:
  "utf8_truncate [CHR 0xE3, CHR 0x81, CHR 0x82, CHR 0xE3, CHR 0x81, CHR 0x84, CHR 0xE3, CHR 0x81, CHR 0x86] 2 =
     [CHR 0xE3, CHR 0x81, CHR 0x82, CHR 0xE3, CHR 0x81, CHR 0x84]"
  by code_simp

lemma SplitString: "split_string ''a,b,c'' '','' = [''a'', ''b'', ''c'']"
  by code_simp

lemma RemoveBracket:
  "remove_bracket ''start[test] and end'' 32 = Some ''start and end''"
  "remove_bracket ''for (example)'' 32 = Some ''for ''"
  "remove_bracket ''<tag>'' 32 = Some []"
  by code_simp+

lemma SafeStrlen: "safe_strlen (Some (''test'' @ [CHR 0x00])) = Some 4" "safe_strlen None = Some 0"
  by code_simp+

lemma FormatAddressSafe:
  "map_option (take 7) (format_address_safe 0x1234 (replicate 32 (CHR 0x00))) = Some (''0x1234'' @ [CHR 0x00])"
  by code_simp

text \<open>\<^verbatim>\<open>write_raw\<close> advances the cursor itself, and the test advances it once more.\<close>

lemma PaddingAndWriteRaw:
  "(case write_raw (replicate 64 (CHR 0x00)) 0 ''abc'' 3 of
      Some (buffer, written) \<Rightarrow>
        (case padding buffer (written + written) 3 8 of
           Some (buffer, cursor) \<Rightarrow> 8 \<le> cursor \<and> take 3 buffer = ''abc''
         | None \<Rightarrow> False)
    | None \<Rightarrow> False)"
  by code_simp

lemma StartsWith:
  "starts_with ''hello'' ''he'' 0 = Some True" "starts_with ''hello'' ''lo'' 0 = Some False"
  "starts_with ''hello'' ''lo'' 3 = Some True"
  by code_simp+

subsection \<open>file_util_test.cc\<close>

lemma WriteAndReadFile:
  "(case write_file mem_os mem_start ''t'' ''Hello, World!'' of
      (r, w) \<Rightarrow> r = 0 \<and> file_exists mem_os w ''t'' \<and> map_option fst (read_file mem_os w ''t'') = Some ''Hello, World!'' \<and>
        fst (remove_file mem_os w ''t'') = 0)"
  by code_simp

lemma JoinPathBasic: "join_path [''folder'', ''sub'', ''file.txt''] = ''folder/sub/file.txt''"
  by code_simp

lemma ReadLines:
  "read_lines_default (''line1'' @ [CHR 0x0A] @ ''line2'' @ [CHR 0x0A] @ ''line3'' @ [CHR 0x0A]) =
     [''line1'', ''line2'', ''line3'']"
  by code_simp

lemma FileExtension:
  "file_extension ''test.txt'' = ''txt''" "file_extension ''archive.tar.gz'' = ''gz''"
  "file_extension ''no_extension'' = []"
  by code_simp+

subsection \<open>spsc_queue_test.cc and spmc_queue_test.cc\<close>

text \<open>
  The two files are the same script on two queues. A scenario starts with a fresh queue of a capacity and
  ends with what the test asks of it.
\<close>

definition spsc_facts :: "spsc_queue \<Rightarrow> nat \<times> bool \<times> nat \<times> nat" where
  "spsc_facts q = (unat (sq_capacity q), spsc_empty q, unat (spsc_size q), unat (spsc_available_space q))"

definition spmc_facts :: "spmc_queue \<Rightarrow> nat \<times> bool \<times> nat \<times> nat" where
  "spmc_facts q = (unat (mq_capacity q), spmc_empty q, unat (spmc_size q), unat (spmc_available_space q))"

fun play ::
  "('q \<Rightarrow> byte list \<Rightarrow> ('s \<times> 'q) option) \<Rightarrow> ('q \<Rightarrow> byte list \<Rightarrow> size_t \<Rightarrow> ('s \<times> 'q \<times> byte list) option) \<Rightarrow>
   ('q \<Rightarrow> 'f) \<Rightarrow> 'q \<Rightarrow> queue_op list \<Rightarrow> ('s \<times> byte list \<times> 'f) list option" where
  "play enq deq facts q [] = Some []"
| "play enq deq facts q (Put d # ops) = do {
     (st, q) \<leftarrow> enq q d;
     rs \<leftarrow> play enq deq facts q ops;
     Some ((st, [], facts q) # rs)
   }"
| "play enq deq facts q (Take n # ops) = do {
     (st, q, out) \<leftarrow> deq q (replicate n (CHR 0x00)) (of_nat n);
     rs \<leftarrow> play enq deq facts q ops;
     Some ((st, out, facts q) # rs)
   }"

definition spsc_play :: "size_t \<Rightarrow> queue_op list \<Rightarrow> (spsc_status \<times> byte list \<times> nat \<times> bool \<times> nat \<times> nat) list option" where
  "spsc_play n ops = do {
     q \<leftarrow> spsc_reserve zero_memalign spsc_new n;
     play spsc_enqueue_bytes spsc_dequeue_bytes spsc_facts q ops
   }"

definition spmc_play :: "size_t \<Rightarrow> queue_op list \<Rightarrow> (spmc_status \<times> byte list \<times> nat \<times> bool \<times> nat \<times> nat) list option" where
  "spmc_play n ops = do {
     q \<leftarrow> spmc_reserve zero_memalign spmc_new n;
     play spmc_enqueue_bytes spmc_dequeue_bytes spmc_facts q ops
   }"

lemma ConstructorAndCapacity:
  "map_option spsc_facts (spsc_reserve zero_memalign spsc_new 16) = Some (16, True, 0, 16)"
  "map_option spsc_facts (spsc_reserve zero_memalign spsc_new 1024) = Some (1024, True, 0, 1024)"
  "map_option spsc_facts (spsc_reserve zero_memalign spsc_new 20) = Some (32, True, 0, 32)"
  "map_option spmc_facts (spmc_reserve zero_memalign spmc_new 16) = Some (16, True, 0, 16)"
  "map_option spmc_facts (spmc_reserve zero_memalign spmc_new 1024) = Some (1024, True, 0, 1024)"
  "map_option spmc_facts (spmc_reserve zero_memalign spmc_new 20) = Some (32, True, 0, 32)"
  by code_simp+

lemma EnqueueDequeueSingleElement:
  "spsc_play 16 [Put (le_enc 4 42), Take 4, Put ''A'', Take 1] = Some
     [(Spsc_kOk, [], 16, False, 4, 12), (Spsc_kOk, le_enc 4 42, 16, True, 0, 16),
      (Spsc_kOk, [], 16, False, 1, 15), (Spsc_kOk, ''A'', 16, True, 0, 16)]"
  "spmc_play 16 [Put (le_enc 4 42), Take 4, Put ''A'', Take 1] = Some
     [(Spmc_kOk, [], 16, False, 4, 12), (Spmc_kOk, le_enc 4 42, 16, True, 0, 16),
      (Spmc_kOk, [], 16, False, 1, 15), (Spmc_kOk, ''A'', 16, True, 0, 16)]"
  by code_simp+

definition fill_16 :: "queue_op list" where
  "fill_16 = map (\<lambda>i. Put [char_of (i :: nat)]) [0..<16] @ [Put ''Z'']"

lemma FillAndOverflow:
  "map_option (map fst) (spsc_play 16 fill_16) = Some (replicate 16 Spsc_kOk @ [Spsc_kOverflow])"
  "map_option last (spsc_play 16 fill_16) = Some (Spsc_kOverflow, [], 16, False, 16, 0)"
  "map_option (map fst) (spmc_play 16 fill_16) = Some (replicate 16 Spmc_kOk @ [Spmc_kOverflow])"
  "map_option last (spmc_play 16 fill_16) = Some (Spmc_kOverflow, [], 16, False, 16, 0)"
  by code_simp+

lemma DequeueFromEmpty:
  "map_option (map fst) (spsc_play 16 [Take 4]) = Some [Spsc_kUnderflow]"
  "map_option (map fst) (spmc_play 16 [Take 4]) = Some [Spmc_kUnderflow]"
  by code_simp+

text \<open>An \<^verbatim>\<open>int\<close>, a \<^verbatim>\<open>double\<close> and a structure of a \<^verbatim>\<open>char\<close> and an \<^verbatim>\<open>int16_t\<close>, as bytes.\<close>

lemma EnqueueDequeueMixedSizes:
  "map_option (drop 2) (spsc_play 64 [Put ([CHR 0x39, CHR 0x30, CHR 0x00, CHR 0x00]), Put ''3.14159 '', Put [CHR ''X'', CHR 0x00, CHR ''d'', CHR 0x00],
      Take 4, Take 8, Take 4]) = Some
     [(Spsc_kOk, [], 64, False, 16, 48), (Spsc_kOk, [CHR 0x39, CHR 0x30, CHR 0x00, CHR 0x00], 64, False, 12, 52),
      (Spsc_kOk, ''3.14159 '', 64, False, 4, 60), (Spsc_kOk, [CHR ''X'', CHR 0x00, CHR ''d'', CHR 0x00], 64, True, 0, 64)]"
  "map_option (drop 2) (spmc_play 64 [Put ([CHR 0x39, CHR 0x30, CHR 0x00, CHR 0x00]), Put ''3.14159 '', Put [CHR ''X'', CHR 0x00, CHR ''d'', CHR 0x00],
      Take 4, Take 8, Take 4]) = Some
     [(Spmc_kOk, [], 64, False, 16, 48), (Spmc_kOk, [CHR 0x39, CHR 0x30, CHR 0x00, CHR 0x00], 64, False, 12, 52),
      (Spmc_kOk, ''3.14159 '', 64, False, 4, 60), (Spmc_kOk, [CHR ''X'', CHR 0x00, CHR ''d'', CHR 0x00], 64, True, 0, 64)]"
  by code_simp+

lemma WraparoundBehavior:
  "spsc_play 16 [Put ''AAAAAAAAAA'', Take 5, Put ''BBBBBBBB'', Take 13] = Some
     [(Spsc_kOk, [], 16, False, 10, 6), (Spsc_kOk, ''AAAAA'', 16, False, 5, 11),
      (Spsc_kOk, [], 16, False, 13, 3), (Spsc_kOk, ''AAAAABBBBBBBB'', 16, True, 0, 16)]"
  "spmc_play 16 [Put ''AAAAAAAAAA'', Take 5, Put ''BBBBBBBB'', Take 13] = Some
     [(Spmc_kOk, [], 16, False, 10, 6), (Spmc_kOk, ''AAAAA'', 16, False, 5, 11),
      (Spmc_kOk, [], 16, False, 13, 3), (Spmc_kOk, ''AAAAABBBBBBBB'', 16, True, 0, 16)]"
  by code_simp+

lemma EnqueueTooManyBytes:
  "spsc_play 16 [Put (replicate 20 (CHR ''X''))] = Some [(Spsc_kOverflow, [], 16, True, 0, 16)]"
  "spmc_play 16 [Put (replicate 20 (CHR ''X''))] = Some [(Spmc_kOverflow, [], 16, True, 0, 16)]"
  by code_simp+

lemma DequeueTooManyBytes:
  "spsc_play 16 [Put ''AAAAA'', Take 10] = Some
     [(Spsc_kOk, [], 16, False, 5, 11), (Spsc_kUnderflow, replicate 10 (CHR 0x00), 16, False, 5, 11)]"
  "spmc_play 16 [Put ''AAAAA'', Take 10] = Some
     [(Spmc_kOk, [], 16, False, 5, 11), (Spmc_kUnderflow, replicate 10 (CHR 0x00), 16, False, 5, 11)]"
  by code_simp+

subsection \<open>args_serializer_test.cc and args_deserializer_test.cc\<close>

text \<open>
  The object representations of the numbers are arbitrary bytes of the right size. The texts the tests
  compare are those of fmt; here the values handed to it are compared.
\<close>

definition serialize_256 :: "(cxx_type \<times> arg_value) list \<Rightarrow> serialized_args option" where
  "serialize_256 args = serialize False 1 2 args \<lparr>sa_buffer = replicate 256 (CHR 0x00), sa_size = 0\<rparr>"

definition read_back :: "nat list \<Rightarrow> (cxx_type \<times> arg_value) list \<Rightarrow> read_value list option" where
  "read_back order args = do {
     sa \<leftarrow> serialize_256 args;
     deserialize_args order False (map fst args) (drop 16 (sa_buffer sa))
   }"

definition basic_types :: "(cxx_type \<times> arg_value) list" where
  "basic_types = [(T_trivial 4, V_bytes ''iiii''), (T_string, V_text 0 ''hello''), (T_trivial 4, V_bytes ''ffff''),
     (T_trivial 8, V_bytes ''dddddddd''), (T_char_ptr, V_text 0 ''world'')]"

lemma read_back_plain:
  assumes "list_all plain_arg as" "as \<noteq> []" "16 + length (enc_args False as) < 256"
    and "length as < 5 \<or> order = [0..<length as]"
  shows "map_option (\<lambda>sa. unat (sa_size sa)) (serialize_256 as) = Some (16 + length (enc_args False as))"
    "read_back order as = Some (map (delivered False \<circ> snd) as)"
proof -
  let ?sa = "\<lparr>sa_buffer = replicate 256 (CHR 0x00), sa_size = 0\<rparr>"
  have s: "serialize_256 as = Some (?sa\<lparr>sa_buffer := args_header 1 2 @ enc_args False as @
      drop (16 + length (enc_args False as)) (replicate 256 (CHR 0x00)), sa_size := of_nat (16 + length (enc_args False as))\<rparr>)"
    using serialize_value_cases [OF assms(1), of ?sa 1 2] assms(3) by (simp add: serialize_256_def)
  then show "read_back order as = Some (map (delivered False \<circ> snd) as)"
    using deserialize_args_seq [OF assms(1,2,4)] by (simp add: read_back_def)
  show "map_option (\<lambda>sa. unat (sa_size sa)) (serialize_256 as) = Some (16 + length (enc_args False as))"
    unfolding s using assms(3) by (simp add: unat_of_nat del: of_nat_add)
qed

text \<open>With five arguments the test holds for a compiler that evaluates arguments from left to right.\<close>

lemma SerializeBasicTypes:
  "map_option (\<lambda>sa. unat (sa_size sa)) (serialize_256 basic_types) = Some (16 + 4 + 8 + 5 + 4 + 8 + 8 + 5)"
  "read_back [0, 1, 2, 3, 4] basic_types =
     Some [R_bytes ''iiii'', R_string ''hello'', R_bytes ''ffff'', R_bytes ''dddddddd'', R_string ''world'']"
  using read_back_plain [of basic_types "[0, 1, 2, 3, 4]"]
  by (simp_all add: basic_types_def enc_args_def enc_arg_def is_string_like_iff upt_rec)

lemma OutOfScope:
  "map_option (\<lambda>sa. unat (sa_size sa)) (serialize_256 [(T_trivial 4, V_bytes ''iiii''), (T_char_ptr, V_text 0 ''test'')]) =
     Some (16 + 4 + 8 + 4)"
  "read_back [] [(T_trivial 4, V_bytes ''iiii''), (T_char_ptr, V_text 0 ''test'')] = Some [R_bytes ''iiii'', R_string ''test'']"
  using read_back_plain [of "[(T_trivial 4, V_bytes ''iiii''), (T_char_ptr, V_text 0 ''test'')]" "[]"]
  by (simp_all add: enc_args_def enc_arg_def is_string_like_iff)

lemma DeserializeAndFormatWorks:
  "read_back [] [(T_trivial 4, V_bytes ''iiii''), (T_string, V_text 0 ''example''), (T_trivial 8, V_bytes ''dddddddd'')] =
     Some [R_bytes ''iiii'', R_string ''example'', R_bytes ''dddddddd'']"
  using read_back_plain [of "[(T_trivial 4, V_bytes ''iiii''), (T_string, V_text 0 ''example''),
      (T_trivial 8, V_bytes ''dddddddd'')]" "[]"]
  by (simp add: enc_args_def enc_arg_def is_string_like_iff)

end
