(* ===== verification/Spsc_Threads.thy ===== *)
theory Spsc_Threads
  imports Spsc_Queue
begin

text \<open>
  The single-consumer queue with its calls split at their atomic accesses: one thread inside
  \<^verbatim>\<open>enqueue_bytes\<close> and one inside \<^verbatim>\<open>dequeue_bytes\<close> or \<^verbatim>\<open>peek_bytes\<close>, interleaved in any way over a
  sequentially consistent memory. What only one thread touches (its own index, its snapshot of
  the other one, its cached copies) is read and written with the step it belongs to; a copy
  between two atomic accesses is one step, which the absence of races justifies. Calls that return
  before their first atomic access (no storage, size zero) have no step.
\<close>

subsection \<open>The machine\<close>

text \<open>The two halves of the admission and the availability check: on the snapshot, and after reading
  the index of the other thread.\<close>

definition admit_cached :: "spsc_queue \<Rightarrow> size_t \<Rightarrow> bool" where
  "admit_cached q n \<longleftrightarrow>
     (let used_space = sq_tail_idx q - sq_head_cached_snapshot q
      in \<not> sq_capacity q - used_space < n)"

definition admit_reload :: "spsc_queue \<Rightarrow> size_t \<Rightarrow> bool \<times> spsc_queue" where
  "admit_reload q n =
     (let current_head = sq_head_idx q;
          new_used_space = sq_tail_idx q - current_head
      in (\<not> sq_capacity q - new_used_space < n, q\<lparr>sq_head_cached_snapshot := current_head\<rparr>))"

definition avail_cached :: "spsc_queue \<Rightarrow> size_t \<Rightarrow> bool" where
  "avail_cached q n \<longleftrightarrow>
     (let available_data = sq_tail_cached_snapshot q - sq_head_idx q in \<not> available_data < n)"

definition avail_reload :: "spsc_queue \<Rightarrow> size_t \<Rightarrow> bool \<times> spsc_queue" where
  "avail_reload q n =
     (let current_tail = sq_tail_idx q;
          new_available = current_tail - sq_head_idx q
      in (\<not> new_available < n, q\<lparr>sq_tail_cached_snapshot := current_tail\<rparr>))"

definition peek_avail :: "spsc_queue \<Rightarrow> size_t \<Rightarrow> bool" where
  "peek_avail q n \<longleftrightarrow> (let available_data = sq_tail_idx q - sq_head_idx q in \<not> n > available_data)"

datatype putter = Put_idle | Put_reload "byte list" | Put_admitted "byte list" | Put_stored "byte list"

datatype taker =
  Take_idle | Take_reload size_t | Take_avail size_t | Take_copied size_t "byte list" | Peek_avail size_t

text \<open>
  For the theorems only, the machine records the calls that took effect, in the order in which
  they did: a successful call when it stores its index, a refused one when it reads the index of
  the other thread. A peek has no effect and is recorded when it returns.
\<close>

datatype call =
  Call_put "byte list" spsc_status
  | Call_take size_t spsc_status "byte list"
  | Call_peek size_t spsc_status "byte list"

record spsc_machine =
  sm_queue :: spsc_queue
  sm_putter :: putter
  sm_taker :: taker
  sm_calls :: "call list"

definition log_of :: "call \<Rightarrow> spsc_machine \<Rightarrow> spsc_machine" where
  "log_of c s = s\<lparr>sm_calls := sm_calls s @ [c]\<rparr>"

inductive put_step :: "spsc_machine \<Rightarrow> spsc_machine \<Rightarrow> bool" where
  begin_put: "\<lbrakk>sm_putter s = Put_idle; d \<noteq> []; length d < 2 ^ 64\<rbrakk> \<Longrightarrow>
    put_step s (s\<lparr>sm_putter :=
      if admit_cached (sm_queue s) (of_nat (length d)) then Put_admitted d else Put_reload d\<rparr>)"
| reload_head: "\<lbrakk>sm_putter s = Put_reload d; admit_reload (sm_queue s) (of_nat (length d)) = (True, q)\<rbrakk> \<Longrightarrow>
    put_step s (s\<lparr>sm_queue := q, sm_putter := Put_admitted d\<rparr>)"
| overflow: "\<lbrakk>sm_putter s = Put_reload d; admit_reload (sm_queue s) (of_nat (length d)) = (False, q)\<rbrakk> \<Longrightarrow>
    put_step s (log_of (Call_put d Spsc_kOverflow) (s\<lparr>sm_queue := q, sm_putter := Put_idle\<rparr>))"
| store: "\<lbrakk>sm_putter s = Put_admitted d; sq_buffer (sm_queue s) = Some buf;
      ring_store buf (sq_mask (sm_queue s)) (sq_tail_idx (sm_queue s)) d = Some buf'\<rbrakk> \<Longrightarrow>
    put_step s (s\<lparr>sm_queue := (sm_queue s)\<lparr>sq_buffer := Some buf'\<rparr>, sm_putter := Put_stored d\<rparr>)"
| publish: "\<lbrakk>sm_putter s = Put_stored d; sq_buffer (sm_queue s) = Some buf\<rbrakk> \<Longrightarrow>
    put_step s (log_of (Call_put d Spsc_kOk)
      (s\<lparr>sm_queue := spsc_publish (sm_queue s) buf (of_nat (length d)), sm_putter := Put_idle\<rparr>))"

inductive take_step :: "spsc_machine \<Rightarrow> spsc_machine \<Rightarrow> bool" where
  begin_take: "\<lbrakk>sm_taker s = Take_idle; n \<noteq> 0\<rbrakk> \<Longrightarrow>
    take_step s (s\<lparr>sm_taker := if avail_cached (sm_queue s) n then Take_avail n else Take_reload n\<rparr>)"
| reload_tail: "\<lbrakk>sm_taker s = Take_reload n; avail_reload (sm_queue s) n = (True, q)\<rbrakk> \<Longrightarrow>
    take_step s (s\<lparr>sm_queue := q, sm_taker := Take_avail n\<rparr>)"
| underflow: "\<lbrakk>sm_taker s = Take_reload n; avail_reload (sm_queue s) n = (False, q)\<rbrakk> \<Longrightarrow>
    take_step s (log_of (Call_take n Spsc_kUnderflow []) (s\<lparr>sm_queue := q, sm_taker := Take_idle\<rparr>))"
| load: "\<lbrakk>sm_taker s = Take_avail n; sq_buffer (sm_queue s) = Some buf;
      ring_load buf (sq_mask (sm_queue s)) (sq_head_idx (sm_queue s)) (replicate (unat n) (CHR 0x00)) n = Some bs\<rbrakk> \<Longrightarrow>
    take_step s (s\<lparr>sm_taker := Take_copied n bs\<rparr>)"
| consume: "sm_taker s = Take_copied n bs \<Longrightarrow>
    take_step s (log_of (Call_take n Spsc_kOk bs)
      (s\<lparr>sm_queue := spsc_consume (sm_queue s) n, sm_taker := Take_idle\<rparr>))"
| begin_peek: "\<lbrakk>sm_taker s = Take_idle; n \<noteq> 0; peek_avail (sm_queue s) n\<rbrakk> \<Longrightarrow>
    take_step s (s\<lparr>sm_taker := Peek_avail n\<rparr>)"
| peek_underflow: "\<lbrakk>sm_taker s = Take_idle; n \<noteq> 0; \<not> peek_avail (sm_queue s) n\<rbrakk> \<Longrightarrow>
    take_step s (log_of (Call_peek n Spsc_kUnderflow []) s)"
| peek: "\<lbrakk>sm_taker s = Peek_avail n; sq_buffer (sm_queue s) = Some buf;
      ring_load buf (sq_mask (sm_queue s)) (sq_head_idx (sm_queue s)) (replicate (unat n) (CHR 0x00)) n = Some bs\<rbrakk> \<Longrightarrow>
    take_step s (log_of (Call_peek n Spsc_kOk bs) (s\<lparr>sm_taker := Take_idle\<rparr>))"

inductive spsc_reach :: "spsc_machine \<Rightarrow> spsc_machine \<Rightarrow> bool" where
  start: "spsc_reach s s"
| put: "\<lbrakk>spsc_reach s s1; put_step s1 s2\<rbrakk> \<Longrightarrow> spsc_reach s s2"
| take: "\<lbrakk>spsc_reach s s1; take_step s1 s2\<rbrakk> \<Longrightarrow> spsc_reach s s2"

definition spsc_start :: "spsc_queue \<Rightarrow> spsc_machine" where
  "spsc_start q = \<lparr>sm_queue = q, sm_putter = Put_idle, sm_taker = Take_idle, sm_calls = []\<rparr>"

text \<open>The specification: replaying the calls one after the other on the bounded FIFO.\<close>

fun replay :: "nat \<Rightarrow> byte list \<Rightarrow> call list \<Rightarrow> byte list option" where
  "replay cap xs [] = Some xs"
| "replay cap xs (Call_put d st # cs) =
     (let (st', xs') = fifo_put cap xs d in if st = st' then replay cap xs' cs else None)"
| "replay cap xs (Call_take n st bs # cs) =
     (let (st', out, xs') = fifo_get xs (unat n)
      in if st = st' \<and> bs = out then replay cap xs' cs else None)"
| "replay cap xs (Call_peek n st bs # cs) =
     (let (st', out, xs') = fifo_get xs (unat n)
      in if st = st' \<and> bs = out then replay cap xs cs else None)"

subsection \<open>The invariant\<close>

fun putter_ok :: "putter \<Rightarrow> spsc_queue \<Rightarrow> bool" where
  "putter_ok Put_idle q \<longleftrightarrow> True"
| "putter_ok (Put_reload d) q \<longleftrightarrow> d \<noteq> [] \<and> length d < 2 ^ 64"
| "putter_ok (Put_admitted d) q \<longleftrightarrow> d \<noteq> [] \<and>
     unat (sq_tail_idx q - sq_head_cached_snapshot q) + length d \<le> spsc_cap q"
| "putter_ok (Put_stored d) q \<longleftrightarrow> d \<noteq> [] \<and>
     unat (sq_tail_idx q - sq_head_cached_snapshot q) + length d \<le> spsc_cap q \<and>
     (\<exists>buf. sq_buffer q = Some buf \<and> ring_read buf (spsc_cap q) (unat (sq_tail_idx q)) (length d) = d)"

fun taker_ok :: "taker \<Rightarrow> spsc_queue \<Rightarrow> bool" where
  "taker_ok Take_idle q \<longleftrightarrow> True"
| "taker_ok (Take_reload n) q \<longleftrightarrow> n \<noteq> 0"
| "taker_ok (Take_avail n) q \<longleftrightarrow> n \<noteq> 0 \<and> unat n \<le> unat (sq_tail_cached_snapshot q - sq_head_idx q)"
| "taker_ok (Take_copied n bs) q \<longleftrightarrow> n \<noteq> 0 \<and> unat n \<le> unat (sq_tail_cached_snapshot q - sq_head_idx q) \<and>
     bs = take (unat n) (spsc_contents q)"
| "taker_ok (Peek_avail n) q \<longleftrightarrow> n \<noteq> 0 \<and> unat n \<le> length (spsc_contents q)"

definition machine_inv :: "nat \<Rightarrow> byte list \<Rightarrow> spsc_machine \<Rightarrow> bool" where
  "machine_inv cap xs s \<longleftrightarrow> spsc_inv (sm_queue s) \<and> spsc_cap (sm_queue s) = cap \<and>
     putter_ok (sm_putter s) (sm_queue s) \<and> taker_ok (sm_taker s) (sm_queue s) \<and>
     replay cap xs (sm_calls s) = Some (spsc_contents (sm_queue s))"

subsection \<open>Lemmas\<close>

lemma admit_halves:
  "spsc_admit q n = (if admit_cached q n then (True, q) else admit_reload q n)"
  by (simp add: spsc_admit_def admit_cached_def admit_reload_def Let_def)

lemma avail_halves:
  "spsc_avail q n = (if avail_cached q n then (True, q) else avail_reload q n)"
  by (simp add: spsc_avail_def avail_cached_def avail_reload_def Let_def)

lemma replay_append: "replay cap xs (cs @ ds) = do { ys \<leftarrow> replay cap xs cs; replay cap ys ds }"
  by (induction cap xs cs rule: replay.induct) (auto simp: Let_def split: prod.splits)

lemma machine_invI:
  "spsc_inv (sm_queue s) \<Longrightarrow> spsc_cap (sm_queue s) = cap \<Longrightarrow> putter_ok (sm_putter s) (sm_queue s) \<Longrightarrow>
   taker_ok (sm_taker s) (sm_queue s) \<Longrightarrow> replay cap xs (sm_calls s) = Some (spsc_contents (sm_queue s)) \<Longrightarrow>
   machine_inv cap xs s"
  by (simp add: machine_inv_def)

lemma machine_invD:
  assumes "machine_inv cap xs s"
  shows "spsc_inv (sm_queue s)" "spsc_cap (sm_queue s) = cap" "putter_ok (sm_putter s) (sm_queue s)"
    "taker_ok (sm_taker s) (sm_queue s)" "replay cap xs (sm_calls s) = Some (spsc_contents (sm_queue s))"
  using assms by (simp_all add: machine_inv_def)

text \<open>Reading the other index leaves a queue on which the check on the snapshot gives the same answer.\<close>

lemma admit_reload_spec:
  assumes inv: "spsc_inv q" and re: "admit_reload q n = (b, q1)"
  shows "q1 = q\<lparr>sq_head_cached_snapshot := sq_head_idx q\<rparr>" "spsc_inv q1"
    "b \<longleftrightarrow> length (spsc_contents q) + unat n \<le> spsc_cap q"
    "b \<Longrightarrow> unat (sq_tail_idx q1 - sq_head_cached_snapshot q1) + unat n \<le> spsc_cap q1"
proof -
  show q1: "q1 = q\<lparr>sq_head_cached_snapshot := sq_head_idx q\<rparr>"
    using re by (simp add: admit_reload_def Let_def)
  show inv1: "spsc_inv q1" unfolding q1 by (rule spsc_inv_refresh) fact
  have "spsc_admit q1 n = (b, q1)"
    using re by (auto simp: q1 admit_halves admit_cached_def admit_reload_def Let_def)
  from spsc_admit_spec [OF inv1 this] show
    "b \<longleftrightarrow> length (spsc_contents q) + unat n \<le> spsc_cap q"
    "b \<Longrightarrow> unat (sq_tail_idx q1 - sq_head_cached_snapshot q1) + unat n \<le> spsc_cap q1"
    by (simp_all add: q1)
qed

lemma avail_reload_spec:
  assumes inv: "spsc_inv q" and re: "avail_reload q n = (b, q1)"
  shows "q1 = q\<lparr>sq_tail_cached_snapshot := sq_tail_idx q\<rparr>" "spsc_inv q1"
    "b \<longleftrightarrow> unat n \<le> length (spsc_contents q)"
    "b \<Longrightarrow> unat n \<le> unat (sq_tail_cached_snapshot q1 - sq_head_idx q1)"
proof -
  show q1: "q1 = q\<lparr>sq_tail_cached_snapshot := sq_tail_idx q\<rparr>"
    using re by (simp add: avail_reload_def Let_def)
  show inv1: "spsc_inv q1" unfolding q1 by (rule spsc_inv_refresh) fact
  have "spsc_avail q1 n = (b, q1)"
    using re by (auto simp: q1 avail_halves avail_cached_def avail_reload_def Let_def)
  from spsc_avail_spec [OF inv1 this] show
    "b \<longleftrightarrow> unat n \<le> length (spsc_contents q)"
    "b \<Longrightarrow> unat n \<le> unat (sq_tail_cached_snapshot q1 - sq_head_idx q1)"
    by (simp_all add: q1)
qed

lemma admit_cached_spec:
  assumes "spsc_inv q" "admit_cached q n"
  shows "unat (sq_tail_idx q - sq_head_cached_snapshot q) + unat n \<le> spsc_cap q"
  using spsc_admit_spec(5) [OF assms(1), of n True q] assms(2) by (simp add: admit_halves)

lemma avail_cached_spec:
  assumes "spsc_inv q" "avail_cached q n"
  shows "unat n \<le> unat (sq_tail_cached_snapshot q - sq_head_idx q)"
  using spsc_avail_spec(5) [OF assms(1), of n True q] assms(2) by (simp add: avail_halves)

lemma taken_in_contents:
  assumes "spsc_inv q" "unat n \<le> unat (sq_tail_cached_snapshot q - sq_head_idx q)"
  shows "unat n \<le> length (spsc_contents q)"
proof -
  have "unat (sq_tail_cached_snapshot q - sq_head_idx q) \<le> unat (sq_tail_idx q - sq_head_idx q)"
    using assms(1) by (elim spsc_invE)
  then show ?thesis using assms by (simp add: spsc_length_contents)
qed

lemma free_behind_snapshot:
  assumes "spsc_inv q" "unat (sq_tail_idx q - sq_head_cached_snapshot q) + m \<le> spsc_cap q"
  shows "length (spsc_contents q) + m \<le> spsc_cap q"
proof -
  have "unat (sq_tail_idx q - sq_head_idx q) \<le> unat (sq_tail_idx q - sq_head_cached_snapshot q)"
    using assms(1) by (elim spsc_invE)
  then show ?thesis using assms by (simp add: spsc_length_contents)
qed

text \<open>Storing a block behind the tail does not change the contents.\<close>

lemma store_behind_tail:
  assumes inv: "spsc_inv q" and buf: "sq_buffer q = Some buf"
    and fits: "unat (sq_tail_idx q - sq_head_cached_snapshot q) + length d \<le> spsc_cap q"
    and st: "ring_store buf (sq_mask q) (sq_tail_idx q) d = Some buf'"
  shows "spsc_inv (q\<lparr>sq_buffer := Some buf'\<rparr>)"
    "spsc_contents (q\<lparr>sq_buffer := Some buf'\<rparr>) = spsc_contents q"
    "ring_read buf' (spsc_cap q) (unat (sq_tail_idx q)) (length d) = d"
proof -
  have "length d \<le> spsc_cap q" using fits by simp
  from spsc_store_spec [OF inv buf this, of "sq_tail_idx q"] st have
    at: "stored_at buf buf' (spsc_cap q) (unat (sq_tail_idx q)) d" by auto
  then show "ring_read buf' (spsc_cap q) (unat (sq_tail_idx q)) (length d) = d"
    by (intro nth_equalityI) (auto simp: nth_ring_read stored_at_def)
  show inv': "spsc_inv (q\<lparr>sq_buffer := Some buf'\<rparr>)"
    using inv at buf by (simp add: spsc_inv_def stored_at_def)
  have "length d < 2 ^ 64" using fits spsc_cap_bound [OF inv] by simp
  note p = spsc_publish_spec [OF inv buf at unat_of_length [OF this] fits]
  let ?q = "spsc_publish q buf' (of_nat (length d))" let ?n = "length (spsc_contents q)"
  have "ring_read buf' (spsc_cap ?q) (unat (sq_head_idx ?q)) ?n = take ?n (spsc_contents ?q)"
    by (rule spsc_contents_prefix [OF p(1)]) (use p(2) in \<open>simp_all add: spsc_publish_def\<close>)
  then show "spsc_contents (q\<lparr>sq_buffer := Some buf'\<rparr>) = spsc_contents q"
    using p(2,3) spsc_length_contents [OF inv]
    by (simp add: spsc_publish_def spsc_contents_def spsc_cap_def buf)
qed

lemma publish_stored:
  assumes inv: "spsc_inv q" and buf: "sq_buffer q = Some buf"
    and fits: "unat (sq_tail_idx q - sq_head_cached_snapshot q) + length d \<le> spsc_cap q"
    and at: "ring_read buf (spsc_cap q) (unat (sq_tail_idx q)) (length d) = d"
  shows "spsc_inv (spsc_publish q buf (of_nat (length d)))"
    "spsc_contents (spsc_publish q buf (of_nat (length d))) = spsc_contents q @ d"
    "spsc_cap (spsc_publish q buf (of_nat (length d))) = spsc_cap q"
proof -
  have "\<forall>i < length d. buf ! ((unat (sq_tail_idx q) + i) mod spsc_cap q) = d ! i"
    using at nth_ring_read [of _ "length d" buf "spsc_cap q" "unat (sq_tail_idx q)"] by metis
  then have st: "stored_at buf buf (spsc_cap q) (unat (sq_tail_idx q)) d" by (simp add: stored_at_def)
  have "length d < 2 ^ 64" using fits spsc_cap_bound [OF inv] by simp
  from spsc_publish_spec [OF inv buf st unat_of_length [OF this] fits]
  show "spsc_inv (spsc_publish q buf (of_nat (length d)))"
    "spsc_contents (spsc_publish q buf (of_nat (length d))) = spsc_contents q @ d"
    "spsc_cap (spsc_publish q buf (of_nat (length d))) = spsc_cap q" .
qed

lemma log_of_sel [simp]:
  "sm_queue (log_of c s) = sm_queue s" "sm_putter (log_of c s) = sm_putter s"
  "sm_taker (log_of c s) = sm_taker s" "sm_calls (log_of c s) = sm_calls s @ [c]"
  by (simp_all add: log_of_def)

text \<open>What the taker relies on survives the steps of the putter, and the other way round.\<close>

lemma taker_ok_snapshot [simp]: "taker_ok t (q\<lparr>sq_head_cached_snapshot := h\<rparr>) = taker_ok t q"
  by (cases t) auto

lemma taker_ok_buffer:
  "spsc_contents (q\<lparr>sq_buffer := b\<rparr>) = spsc_contents q \<Longrightarrow> taker_ok t (q\<lparr>sq_buffer := b\<rparr>) = taker_ok t q"
  by (cases t) auto

lemma taker_ok_publish:
  assumes "taker_ok t q" "spsc_inv q" "spsc_contents (spsc_publish q buf n) = spsc_contents q @ d"
  shows "taker_ok t (spsc_publish q buf n)"
  using assms taken_in_contents [OF assms(2)] by (cases t) (auto simp: spsc_publish_def)

lemma putter_ok_snapshot [simp]: "putter_ok p (q\<lparr>sq_tail_cached_snapshot := t\<rparr>) = putter_ok p q"
  by (cases p) (auto simp: spsc_cap_def)

lemma putter_ok_consume [simp]: "putter_ok p (spsc_consume q n) = putter_ok p q"
  by (cases p) (auto simp: spsc_cap_def spsc_consume_def)

lemma spsc_cap_buffer [simp]: "spsc_cap (q\<lparr>sq_buffer := b\<rparr>) = spsc_cap q"
  by (simp add: spsc_cap_def)

lemma put_keeps:
  assumes inv: "machine_inv cap xs s" and st: "put_step s s'"
  shows "machine_inv cap xs s'"
  using st
proof cases
  case (begin_put d)
  have "unat (of_nat (length d) :: size_t) = length d" using begin_put(4) by (rule unat_of_length)
  then show ?thesis
    using begin_put machine_invD [OF inv] admit_cached_spec [of "sm_queue s" "of_nat (length d)"]
    by (intro machine_invI) auto
next
  case (reload_head d q)
  note i = machine_invD [OF inv]
  note r = admit_reload_spec [OF i(1) reload_head(3)]
  have "unat (of_nat (length d) :: size_t) = length d"
    using i(3) reload_head(2) by (intro unat_of_length) simp
  then show ?thesis using reload_head i r by (intro machine_invI) auto
next
  case (overflow d q)
  note i = machine_invD [OF inv]
  note r = admit_reload_spec [OF i(1) overflow(3)]
  have d: "d \<noteq> []" "unat (of_nat (length d) :: size_t) = length d"
    using i(3) overflow(2) by (auto intro: unat_of_length)
  have "fifo_put cap (spsc_contents (sm_queue s)) d = (Spsc_kOverflow, spsc_contents (sm_queue s))"
    using r(3) d i(2) by (simp add: fifo_put_def)
  then show ?thesis using overflow i r by (intro machine_invI) (auto simp: replay_append)
next
  case (store d buf buf')
  note i = machine_invD [OF inv]
  have f: "d \<noteq> []"
    "unat (sq_tail_idx (sm_queue s) - sq_head_cached_snapshot (sm_queue s)) + length d \<le> spsc_cap (sm_queue s)"
    using i(3) store(2) by auto
  note b = store_behind_tail [OF i(1) store(3) f(2) store(4)]
  show ?thesis using store(1) i f b by (intro machine_invI) (auto simp: taker_ok_buffer)
next
  case (publish d buf)
  note i = machine_invD [OF inv]
  have f: "d \<noteq> []"
    "unat (sq_tail_idx (sm_queue s) - sq_head_cached_snapshot (sm_queue s)) + length d \<le> spsc_cap (sm_queue s)"
    "ring_read buf (spsc_cap (sm_queue s)) (unat (sq_tail_idx (sm_queue s))) (length d) = d"
    using i(3) publish(2,3) by auto
  note b = publish_stored [OF i(1) publish(3) f(2,3)]
  have "fifo_put cap (spsc_contents (sm_queue s)) d = (Spsc_kOk, spsc_contents (sm_queue s) @ d)"
    using free_behind_snapshot [OF i(1) f(2)] f(1) i(2) by (simp add: fifo_put_def)
  then show ?thesis using publish(1) i b taker_ok_publish [OF i(4,1) b(2)]
    by (intro machine_invI) (auto simp: replay_append)
qed

lemma loaded_bytes:
  assumes "spsc_inv q" "sq_buffer q = Some buf" "unat n \<le> length (spsc_contents q)"
    "ring_load buf (sq_mask q) (sq_head_idx q) (replicate (unat n) (CHR 0x00)) n = Some bs"
  shows "bs = take (unat n) (spsc_contents q)"
  using spsc_load_eq [OF assms(1-3)] assms(3,4) by (simp add: memcpy_def)

lemma take_keeps:
  assumes inv: "machine_inv cap xs s" and st: "take_step s s'"
  shows "machine_inv cap xs s'"
  using st
proof cases
  case (begin_take n)
  then show ?thesis using machine_invD [OF inv] avail_cached_spec [of "sm_queue s" n]
    by (intro machine_invI) auto
next
  case (reload_tail n q)
  note i = machine_invD [OF inv]
  note r = avail_reload_spec [OF i(1) reload_tail(3)]
  show ?thesis using reload_tail i r by (intro machine_invI) auto
next
  case (underflow n q)
  note i = machine_invD [OF inv]
  note r = avail_reload_spec [OF i(1) underflow(3)]
  have "unat n \<noteq> 0" using i(4) underflow(2) by (simp add: unat_eq_zero)
  then have "fifo_get (spsc_contents (sm_queue s)) (unat n) = (Spsc_kUnderflow, [], spsc_contents (sm_queue s))"
    using r(3) by (simp add: fifo_get_def)
  then show ?thesis using underflow i r by (intro machine_invI) (auto simp: replay_append)
next
  case (load n buf bs)
  note i = machine_invD [OF inv]
  have n: "n \<noteq> 0" "unat n \<le> unat (sq_tail_cached_snapshot (sm_queue s) - sq_head_idx (sm_queue s))"
    using i(4) load(2) by auto
  show ?thesis using load(1) i n loaded_bytes [OF i(1) load(3) taken_in_contents [OF i(1) n(2)] load(4)]
    by (intro machine_invI) auto
next
  case (consume n bs)
  note i = machine_invD [OF inv]
  have n: "n \<noteq> 0" "unat n \<le> unat (sq_tail_cached_snapshot (sm_queue s) - sq_head_idx (sm_queue s))"
    "bs = take (unat n) (spsc_contents (sm_queue s))" using i(4) consume(2) by auto
  note c = spsc_consume_spec [OF i(1) n(2)]
  have "unat n \<noteq> 0" using n(1) by (simp add: unat_eq_zero)
  then have "fifo_get (spsc_contents (sm_queue s)) (unat n) =
      (Spsc_kOk, bs, drop (unat n) (spsc_contents (sm_queue s)))"
    using n(3) taken_in_contents [OF i(1) n(2)] by (simp add: fifo_get_def)
  then show ?thesis using consume(1) i c by (intro machine_invI) (auto simp: replay_append)
next
  case (begin_peek n)
  note i = machine_invD [OF inv]
  have "unat n \<le> length (spsc_contents (sm_queue s))"
    using begin_peek(4) by (simp add: peek_avail_def spsc_length_contents [OF i(1)] word_le_nat_alt not_less)
  then show ?thesis using begin_peek i by (intro machine_invI) auto
next
  case (peek_underflow n)
  note i = machine_invD [OF inv]
  have "length (spsc_contents (sm_queue s)) < unat n"
    using peek_underflow(4) by (simp add: peek_avail_def spsc_length_contents [OF i(1)] word_less_nat_alt)
  then have "fifo_get (spsc_contents (sm_queue s)) (unat n) = (Spsc_kUnderflow, [], spsc_contents (sm_queue s))"
    by (simp add: fifo_get_def)
  then show ?thesis using peek_underflow(1) i by (intro machine_invI) (auto simp: replay_append)
next
  case (peek n buf bs)
  note i = machine_invD [OF inv]
  have n: "n \<noteq> 0" "unat n \<le> length (spsc_contents (sm_queue s))" using i(4) peek(2) by auto
  have "unat n \<noteq> 0" using n(1) by (simp add: unat_eq_zero)
  then have "fifo_get (spsc_contents (sm_queue s)) (unat n) =
      (Spsc_kOk, bs, drop (unat n) (spsc_contents (sm_queue s)))"
    using n(2) loaded_bytes [OF i(1) peek(3) n(2) peek(4)] by (simp add: fifo_get_def)
  then show ?thesis using peek(1) i by (intro machine_invI) (auto simp: replay_append)
qed

lemma spsc_reach_inv: "spsc_reach s s' \<Longrightarrow> machine_inv cap xs s \<Longrightarrow> machine_inv cap xs s'"
  by (induction rule: spsc_reach.induct) (auto intro: put_keeps take_keeps)

lemma spsc_start_inv: "spsc_inv q \<Longrightarrow> machine_inv (spsc_cap q) (spsc_contents q) (spsc_start q)"
  by (simp add: machine_inv_def spsc_start_def)

lemma putter_steps:
  assumes inv: "machine_inv cap xs s" and busy: "sm_putter s \<noteq> Put_idle"
  shows "\<exists>s'. put_step s s'"
proof (cases "sm_putter s")
  case (Put_reload d)
  obtain b q where "admit_reload (sm_queue s) (of_nat (length d)) = (b, q)" by fastforce
  then show ?thesis using put_step.reload_head [OF Put_reload] put_step.overflow [OF Put_reload]
    by (cases b) (simp_all, blast+)
next
  case (Put_admitted d)
  note i = machine_invD [OF inv]
  obtain buf where buf: "sq_buffer (sm_queue s) = Some buf" using i(1) by (elim spsc_invE)
  have "length d \<le> spsc_cap (sm_queue s)" using i(3) Put_admitted by auto
  from spsc_store_spec [OF i(1) buf this] show ?thesis using put_step.store [OF Put_admitted buf] by blast
next
  case (Put_stored d)
  obtain buf where "sq_buffer (sm_queue s) = Some buf" using machine_invD(1) [OF inv] by (elim spsc_invE)
  then show ?thesis using put_step.publish [OF Put_stored] by blast
qed (use busy in simp)

lemma taker_steps:
  assumes inv: "machine_inv cap xs s" and busy: "sm_taker s \<noteq> Take_idle"
  shows "\<exists>s'. take_step s s'"
proof -
  note i = machine_invD [OF inv]
  obtain buf where buf: "sq_buffer (sm_queue s) = Some buf" using i(1) by (elim spsc_invE)
  have load: "\<exists>bs. ring_load buf (sq_mask (sm_queue s)) (sq_head_idx (sm_queue s)) (replicate (unat n) (CHR 0x00)) n = Some bs"
    if "unat n \<le> length (spsc_contents (sm_queue s))" for n
    using spsc_load_eq [OF i(1) buf that] that by (simp add: memcpy_def)
  show ?thesis
  proof (cases "sm_taker s")
    case (Take_reload n)
    obtain b q where "avail_reload (sm_queue s) n = (b, q)" by fastforce
    then show ?thesis using take_step.reload_tail [OF Take_reload] take_step.underflow [OF Take_reload]
      by (cases b) (simp_all, blast+)
  next
    case (Take_avail n)
    have "unat n \<le> length (spsc_contents (sm_queue s))"
      by (rule taken_in_contents [OF i(1)]) (use i(4) Take_avail in simp)
    from load [OF this] show ?thesis using take_step.load [OF Take_avail buf] by blast
  next
    case (Take_copied n bs)
    then show ?thesis using take_step.consume by blast
  next
    case (Peek_avail n)
    then have "unat n \<le> length (spsc_contents (sm_queue s))" using i(4) by simp
    from load [OF this] show ?thesis using take_step.peek [OF Peek_avail buf] by blast
  qed (use busy in simp)
qed

text \<open>The number of steps a thread still has to take inside its call, at most.\<close>

fun putter_left :: "putter \<Rightarrow> nat" where
  "putter_left Put_idle = 0"
| "putter_left (Put_stored d) = 1"
| "putter_left (Put_admitted d) = 2"
| "putter_left (Put_reload d) = 3"

fun taker_left :: "taker \<Rightarrow> nat" where
  "taker_left Take_idle = 0"
| "taker_left (Take_copied n bs) = 1"
| "taker_left (Peek_avail n) = 1"
| "taker_left (Take_avail n) = 2"
| "taker_left (Take_reload n) = 3"

lemma putter_progress:
  "put_step s s' \<Longrightarrow> sm_putter s \<noteq> Put_idle \<Longrightarrow> putter_left (sm_putter s') < putter_left (sm_putter s)"
  by (erule put_step.cases) auto

lemma taker_progress:
  "take_step s s' \<Longrightarrow> sm_taker s \<noteq> Take_idle \<Longrightarrow> taker_left (sm_taker s') < taker_left (sm_taker s)"
  by (erule take_step.cases) auto

text \<open>A run on the queue of four bytes: a block is put while two bytes are taken.\<close>

definition stored_queue :: spsc_queue where
  "stored_queue = wrapped_queue\<lparr>sq_buffer := Some ''bcya''\<rparr>"

definition racing :: spsc_machine where
  "racing = \<lparr>sm_queue = wrapped_queue\<lparr>sq_tail_cached_snapshot := 1\<rparr>,
     sm_putter = Put_admitted ''c'', sm_taker = Take_avail 2, sm_calls = []\<rparr>"

definition midway :: spsc_machine where
  "midway = \<lparr>sm_queue = stored_queue\<lparr>sq_tail_cached_snapshot := 1\<rparr>,
     sm_putter = Put_stored ''c'', sm_taker = Take_avail 2, sm_calls = []\<rparr>"

definition after_both :: spsc_machine where
  "after_both =
     \<lparr>sm_queue = stored_queue\<lparr>sq_tail_idx := 2, sq_tail_cached := 2,
        sq_head_idx := 1, sq_head_cached := 1, sq_tail_cached_snapshot := 1\<rparr>,
      sm_putter = Put_idle, sm_taker = Take_idle,
      sm_calls = [Call_put ''c'' Spsc_kOk, Call_take 2 Spsc_kOk ''ab'']\<rparr>"

lemma racing_reach: "spsc_reach (spsc_start wrapped_queue) racing"
proof -
  let ?s0 = "spsc_start wrapped_queue"
  let ?s1 = "?s0\<lparr>sm_taker := Take_reload 2\<rparr>"
  let ?s2 = "?s1\<lparr>sm_putter := Put_admitted ''c''\<rparr>"
  have "take_step ?s0 ?s1" using take_step.begin_take [of ?s0 2]
    by (simp add: spsc_start_def wrapped_queue_def avail_cached_def)
  moreover have "put_step ?s1 ?s2" using put_step.begin_put [of ?s1 "''c''"]
    by (simp add: spsc_start_def wrapped_queue_def admit_cached_def)
  moreover have "take_step ?s2 racing"
    using take_step.reload_tail [of ?s2 2 "wrapped_queue\<lparr>sq_tail_cached_snapshot := 1\<rparr>"]
    by (simp add: spsc_start_def racing_def wrapped_queue_def avail_reload_def)
  ultimately show ?thesis by (meson spsc_reach.intros)
qed

lemma midway_reach: "spsc_reach (spsc_start wrapped_queue) midway"
proof -
  have "put_step racing midway" using put_step.store [of racing "''c''" "''bxya''" "''bcya''"]
    by (simp add: wrapped_queue_def stored_queue_def racing_def midway_def ring_store_def memcpy_def)
  then show ?thesis using racing_reach by (meson spsc_reach.intros)
qed

lemma after_both_reach: "spsc_reach (spsc_start wrapped_queue) after_both"
proof -
  let ?q = "stored_queue\<lparr>sq_tail_cached_snapshot := 1\<rparr>"
  let ?s1 = "midway\<lparr>sm_taker := Take_copied 2 ''ab''\<rparr>"
  let ?s2 = "log_of (Call_put ''c'' Spsc_kOk) (?s1\<lparr>sm_queue := spsc_publish ?q ''bcya'' 1, sm_putter := Put_idle\<rparr>)"
  have wrap: "(18446744073709551617 :: size_t) = 1" by (simp add: word_uint_eq_iff)
  have "unat (2 :: size_t) = Suc (Suc 0)" by simp
  then have two: "replicate (unat (2 :: size_t)) (CHR 0x00) = [CHR 0x00, CHR 0x00]"
    by (simp only: replicate.simps)
  have "ring_load ''bcya'' 3 0xFFFFFFFFFFFFFFFF [CHR 0x00, CHR 0x00] 2 = Some ''ab''"
    by (simp add: ring_load_def memcpy_def mem_read_def word_le_nat_alt)
  then have "take_step midway ?s1" using take_step.load [of midway 2 "''bcya''" "''ab''"]
    unfolding two by (simp add: midway_def stored_queue_def wrapped_queue_def)
  moreover have "put_step ?s1 ?s2" using put_step.publish [of ?s1 "''c''" "''bcya''"]
    by (simp add: midway_def stored_queue_def)
  moreover have "take_step ?s2 after_both" using take_step.consume [of ?s2 2 "''ab''"]
    by (simp add: midway_def stored_queue_def wrapped_queue_def log_of_def spsc_consume_def spsc_publish_def
        after_both_def wrap)
  ultimately show ?thesis using midway_reach by (meson spsc_reach.intros)
qed

subsection \<open>Properties\<close>

text \<open>C9: Producer and consumer may interleave their atomic accesses in any way: every concurrent run of
  the queue is equivalent to running its calls one after the other, in the order in which they took
  effect, on a bounded FIFO. Each call returns the status and the bytes of that sequential run, and the
  queue holds its result.\<close>

theorem spsc_linearizable:
  assumes "spsc_inv q" "spsc_reach (spsc_start q) s"
  shows "replay (spsc_cap q) (spsc_contents q) (sm_calls s) = Some (spsc_contents (sm_queue s))"
  using spsc_reach_inv [OF assms(2) spsc_start_inv [OF assms(1)]] by (rule machine_invD)

theorem spsc_linearizable_witness:
  "replay 4 ''ab'' [Call_put ''c'' Spsc_kOk, Call_take 2 Spsc_kOk ''ab''] = Some ''c''"
  using spsc_linearizable [OF wrapped_queue_inv after_both_reach]
  by (simp add: wrapped_queue_contents after_both_def)
     (simp add: spsc_contents_def stored_queue_def wrapped_queue_def ring_read_def)

text \<open>C10: The threads do not race on the bytes of the ring: when the producer is about to copy a block in
  and the consumer is about to copy bytes out, by taking or by peeking, the bytes written and the bytes
  read lie at different positions.\<close>

theorem spsc_race_free:
  assumes "spsc_inv q" "spsc_reach (spsc_start q) s" "sm_putter s = Put_admitted d"
    "sm_taker s = Take_avail n \<or> sm_taker s = Peek_avail n" "i < length d" "j < unat n"
  shows "(unat (sq_tail_idx (sm_queue s)) + i) mod spsc_cap q \<noteq> (unat (sq_head_idx (sm_queue s)) + j) mod spsc_cap q"
proof -
  let ?q = "sm_queue s" let ?c = "spsc_cap q" let ?l = "length (spsc_contents ?q)"
  note m = machine_invD [OF spsc_reach_inv [OF assms(2) spsc_start_inv [OF assms(1)]]]
  have "?l + length d \<le> ?c" using free_behind_snapshot [OF m(1), of "length d"] m(2,3) assms(3) by simp
  moreover have "unat n \<le> ?l" using taken_in_contents [OF m(1)] m(4) assms(4) by auto
  ultimately have b: "?l + i < ?c" "j < ?c" "?l + i \<noteq> j" using assms(5,6) by linarith+
  obtain k where k: "k < 64" "?c = 2 ^ k" using m(1,2) by (elim spsc_invE) auto
  have "unat (sq_tail_idx ?q) mod ?c = (unat (sq_head_idx ?q) + ?l) mod ?c"
    using unat_plus_mod_cap [OF k(1), of "sq_head_idx ?q" "sq_tail_idx ?q - sq_head_idx ?q"] k(2)
    by (simp add: spsc_length_contents [OF m(1)])
  then have "(unat (sq_tail_idx ?q) + i) mod ?c = (unat (sq_head_idx ?q) + (?l + i)) mod ?c"
    by (metis add.assoc mod_add_left_eq)
  then show ?thesis using ring_index_inj [of "unat (sq_head_idx ?q)" "?l + i" ?c j] b by auto
qed

theorem spsc_race_free_witness:
  "(unat (sq_tail_idx (sm_queue racing)) + 0) mod 4 \<noteq> (unat (sq_head_idx (sm_queue racing)) + 1) mod 4"
  using spsc_race_free [OF wrapped_queue_inv racing_reach, of "''c''" 2 0 1]
  by (simp add: wrapped_queue_contents(2)) (simp add: racing_def)

text \<open>C12: The queue is wait-free: a thread inside a call can always take its next step, which is defined,
  and its call returns after at most three more of its own steps, whatever the other thread does.\<close>

theorem spsc_wait_free:
  assumes "spsc_inv q" "spsc_reach (spsc_start q) s"
  shows "(sm_putter s \<noteq> Put_idle \<longrightarrow> (\<exists>s'. put_step s s') \<and>
           (\<forall>s'. put_step s s' \<longrightarrow> putter_left (sm_putter s') < putter_left (sm_putter s))) \<and>
         (sm_taker s \<noteq> Take_idle \<longrightarrow> (\<exists>s'. take_step s s') \<and>
           (\<forall>s'. take_step s s' \<longrightarrow> taker_left (sm_taker s') < taker_left (sm_taker s))) \<and>
         putter_left (sm_putter s) \<le> 3 \<and> taker_left (sm_taker s) \<le> 3"
proof -
  note i = spsc_reach_inv [OF assms(2) spsc_start_inv [OF assms(1)]]
  have "putter_left p \<le> 3" "taker_left t \<le> 3" for p t by (cases p; simp) (cases t; simp)
  then show ?thesis using putter_steps [OF i] taker_steps [OF i] putter_progress taker_progress by auto
qed

theorem spsc_wait_free_witness:
  "\<exists>s1 s2. put_step midway s1 \<and> take_step midway s2 \<and> sm_putter s1 = Put_idle"
proof -
  note w = spsc_wait_free [OF wrapped_queue_inv midway_reach]
  then obtain s1 s2 where s: "put_step midway s1" "take_step midway s2" by (auto simp: midway_def)
  with w have "putter_left (sm_putter s1) < 1" by (auto simp: midway_def)
  then have "sm_putter s1 = Put_idle" by (cases "sm_putter s1") auto
  with s show ?thesis by blast
qed

end
