(* ===== verification/Spsc_Tso.thy ===== *)
theory Spsc_Tso
  imports Spsc_Queue
begin

text \<open>
  The single-consumer queue on the memory of an x86 processor (total store order). A thread's stores wait
  in a buffer of its own and reach the memory one at a time, in order, at any later moment; its
  loads see its own buffered stores first. Every byte that \<^verbatim>\<open>enqueue_bytes\<close> copies and every index is a
  store of its own. On this architecture a release store and an acquire load are plain ones, so this is
  the model of the compiled code of \<^verbatim>\<open>src/src/logging/impl/spsc_queue.cc\<close>. What only one thread
  touches (snapshots, cached copies) is kept with the memory and updated at once; \<^verbatim>\<open>memcpy\<close> stores in
  ascending order, and the consumer copies a block at one instant.
\<close>

subsection \<open>The machine\<close>

datatype buffered = St_byte nat byte | St_tail u64 | St_head u64

fun forward_tail :: "buffered list \<Rightarrow> u64 \<Rightarrow> u64" where
  "forward_tail [] v = v"
| "forward_tail (St_tail t # ws) v = forward_tail ws t"
| "forward_tail (w # ws) v = forward_tail ws v"

fun forward_head :: "buffered list \<Rightarrow> u64 \<Rightarrow> u64" where
  "forward_head [] v = v"
| "forward_head (St_head h # ws) v = forward_head ws h"
| "forward_head (w # ws) v = forward_head ws v"

fun commit_store :: "buffered \<Rightarrow> spsc_queue \<Rightarrow> spsc_queue option" where
  "commit_store (St_byte p b) q = do {
     buf \<leftarrow> sq_buffer q;
     if p < length buf then Some (q\<lparr>sq_buffer := Some (buf[p := b])\<rparr>) else None
   }"
| "commit_store (St_tail t) q = Some (q\<lparr>sq_tail_idx := t\<rparr>)"
| "commit_store (St_head h) q = Some (q\<lparr>sq_head_idx := h\<rparr>)"

text \<open>The stores of \<^verbatim>\<open>ring_store\<close> and of the index behind it; \<open>put_stores_eq\<close> below justifies them.\<close>

definition put_stores :: "size_t \<Rightarrow> size_t \<Rightarrow> byte list \<Rightarrow> buffered list" where
  "put_stores m tail d =
     map (\<lambda>i. St_byte (unat ((tail + of_nat i) AND m)) (d ! i)) [0..<length d] @ [St_tail (tail + of_nat (length d))]"

text \<open>The consumer copies after it has seen enough bytes (\<open>ts_reader\<close>). \<open>ts_sent\<close> and \<open>ts_received\<close> record what was accepted and delivered.\<close>

record tso =
  ts_queue :: spsc_queue
  ts_puts :: "buffered list"
  ts_takes :: "buffered list"
  ts_reader :: "size_t option"
  ts_sent :: "byte list"
  ts_received :: "byte list"

text \<open>
  \<open>tso_put\<close> is \<^verbatim>\<open>enqueue_bytes\<close> up to its last store instruction; \<open>tso_avail\<close> and \<open>tso_copy\<close> are
  \<^verbatim>\<open>dequeue_bytes\<close> before and after it has seen enough data. Status codes are left out: what was accepted
  shows in \<open>ts_sent\<close>. The release fences order nothing more than the buffers do.
\<close>

definition tso_put :: "byte list \<Rightarrow> tso \<Rightarrow> tso option" where
  "tso_put d s =
     (let q = ts_queue s; n = of_nat (length d) in
      if sq_buffer q = None \<or> n = 0 then Some s
      else let (admitted, v) = spsc_admit (q\<lparr>sq_tail_idx := forward_tail (ts_puts s) (sq_tail_idx q)\<rparr>) n;
               q = q\<lparr>sq_head_cached_snapshot := sq_head_cached_snapshot v\<rparr>
           in if \<not> admitted then Some (s\<lparr>ts_queue := q\<rparr>)
              else Some (s\<lparr>ts_queue := q\<lparr>sq_tail_cached := sq_tail_idx v + n\<rparr>,
                ts_puts := ts_puts s @ put_stores (sq_mask q) (sq_tail_idx v) d, ts_sent := ts_sent s @ d\<rparr>))"

definition tso_avail :: "size_t \<Rightarrow> tso \<Rightarrow> tso option" where
  "tso_avail n s =
     (let q = ts_queue s in
      if sq_buffer q = None \<or> n = 0 \<or> ts_reader s \<noteq> None then Some s
      else let (available, v) = spsc_avail (q\<lparr>sq_head_idx := forward_head (ts_takes s) (sq_head_idx q)\<rparr>) n
           in Some (s\<lparr>ts_queue := q\<lparr>sq_tail_cached_snapshot := sq_tail_cached_snapshot v\<rparr>,
                ts_reader := if available then Some n else None\<rparr>))"

definition tso_copy :: "tso \<Rightarrow> tso option" where
  "tso_copy s =
     (case ts_reader s of
        None \<Rightarrow> Some s
      | Some n \<Rightarrow> do {
          let q = ts_queue s;
          let head = forward_head (ts_takes s) (sq_head_idx q);
          buf \<leftarrow> sq_buffer q;
          out \<leftarrow> ring_load buf (sq_mask q) head (replicate (unat n) (CHR 0x00)) n;
          Some (s\<lparr>ts_queue := q\<lparr>sq_head_cached := head + n\<rparr>, ts_reader := None,
            ts_takes := ts_takes s @ [St_head (head + n)], ts_received := ts_received s @ out\<rparr>)
        })"

datatype tso_event = Tso_put "byte list" | Tso_avail size_t | Tso_copy | Tso_commit_put | Tso_commit_take

text \<open>An event whose thread is not ready for it changes nothing; an access outside the block has no value.\<close>

fun tso_step :: "tso_event \<Rightarrow> tso \<Rightarrow> tso option" where
  "tso_step (Tso_put d) s = tso_put d s"
| "tso_step (Tso_avail n) s = tso_avail n s"
| "tso_step Tso_copy s = tso_copy s"
| "tso_step Tso_commit_put s =
     (case ts_puts s of
        [] \<Rightarrow> Some s
      | w # ws \<Rightarrow> do { q \<leftarrow> commit_store w (ts_queue s); Some (s\<lparr>ts_queue := q, ts_puts := ws\<rparr>) })"
| "tso_step Tso_commit_take s =
     (case ts_takes s of
        [] \<Rightarrow> Some s
      | w # ws \<Rightarrow> do { q \<leftarrow> commit_store w (ts_queue s); Some (s\<lparr>ts_queue := q, ts_takes := ws\<rparr>) })"

declare tso_put_def [simp] tso_avail_def [simp] tso_copy_def [simp]

fun tso_run :: "tso_event list \<Rightarrow> tso \<Rightarrow> tso option" where
  "tso_run [] s = Some s"
| "tso_run (e # es) s = do { s \<leftarrow> tso_step e s; tso_run es s }"

definition tso_start :: "spsc_queue \<Rightarrow> tso" where
  "tso_start q = \<lparr>ts_queue = q, ts_puts = [], ts_takes = [], ts_reader = None, ts_sent = [], ts_received = []\<rparr>"

subsection \<open>Buffered stores\<close>

text \<open>
  \<open>puts_ok c sent t j ws\<close>: the producer's buffer \<open>ws\<close> completes the bytes \<open>sent\<close> when the memory's
  tail stands for \<open>t\<close> of them and \<open>j\<close> of them are stored. \<open>takes_ok h ws g\<close>: the consumer's buffer
  brings the memory's head from \<open>h\<close> up to \<open>g\<close>.
\<close>

fun puts_ok :: "nat \<Rightarrow> byte list \<Rightarrow> nat \<Rightarrow> nat \<Rightarrow> buffered list \<Rightarrow> bool" where
  "puts_ok c sent t j [] \<longleftrightarrow> t = length sent \<and> j = length sent"
| "puts_ok c sent t j (St_byte p b # ws) \<longleftrightarrow>
     j < length sent \<and> p = j mod c \<and> b = sent ! j \<and> puts_ok c sent t (Suc j) ws"
| "puts_ok c sent t j (St_tail v # ws) \<longleftrightarrow> v = of_nat j \<and> puts_ok c sent j j ws"
| "puts_ok c sent t j (St_head v # ws) \<longleftrightarrow> False"

fun takes_ok :: "nat \<Rightarrow> buffered list \<Rightarrow> nat \<Rightarrow> bool" where
  "takes_ok h [] g \<longleftrightarrow> h = g"
| "takes_ok h (St_head v # ws) g \<longleftrightarrow> (\<exists>m. h \<le> m \<and> v = of_nat m \<and> takes_ok m ws g)"
| "takes_ok h (w # ws) g \<longleftrightarrow> False"

lemma puts_forward: "puts_ok c sent t j ws \<Longrightarrow> forward_tail ws (of_nat t) = of_nat (length sent)"
  by (induction c sent t j ws rule: puts_ok.induct) auto

lemma puts_stored: "puts_ok c sent t j ws \<Longrightarrow> j \<le> length sent"
  by (induction c sent t j ws rule: puts_ok.induct) auto

lemma takes_forward: "takes_ok h ws g \<Longrightarrow> forward_head ws (of_nat h) = of_nat g \<and> h \<le> g"
  by (induction h ws g rule: takes_ok.induct) (auto intro: order_trans)

lemma takes_append: "takes_ok h ws g \<Longrightarrow> g \<le> g' \<Longrightarrow> takes_ok h (ws @ [St_head (of_nat g')]) g'"
  by (induction h ws g rule: takes_ok.induct) auto

lemma puts_append:
  assumes "puts_ok c sent t j ws" "puts_ok c (sent @ d) (length sent) (length sent) ws'"
  shows "puts_ok c (sent @ d) t j (ws @ ws')"
  using assms by (induction c sent t j ws rule: puts_ok.induct) (auto simp: nth_append)

lemma puts_fresh:
  assumes "k < 64"
  shows "puts_ok (2 ^ k) (sent @ d) (length sent) (length sent) (put_stores (2 ^ k - 1) (of_nat (length sent)) d)"
proof -
  let ?t = "length sent"
  let ?f = "\<lambda>i. St_byte (unat ((of_nat ?t + of_nat i :: size_t) AND (2 ^ k - 1))) (d ! i)"
  have f: "?f i = St_byte ((?t + i) mod 2 ^ k) (d ! i)" for i
    using unat_of_nat_mod_cap [OF assms, of "?t + i"] by (simp add: unat_and_mask [OF assms])
  have "puts_ok (2 ^ k) (sent @ d) ?t (?t + i) (map ?f [i..<length d] @ [St_tail (of_nat ?t + of_nat (length d))])"
    if "i \<le> length d" for i
    using that
  proof (induction rule: inc_induct)
    case (step i)
    then show ?case unfolding f by (simp add: upt_conv_Cons nth_append)
  qed simp
  from this [of 0] show ?thesis by (simp add: put_stores_def)
qed

subsection \<open>The invariant\<close>

text \<open>
  \<open>h\<close> bytes are received and \<open>g\<close> of them known to the memory's head; the producer's snapshot of the
  head stands for \<open>p\<close>, the consumer's of the tail for \<open>c\<close>, the memory's tail for \<open>t\<close>, and \<open>j\<close> bytes
  are stored. The bytes from \<open>h\<close> to \<open>j\<close> are in the memory.
\<close>

definition tso_inv :: "tso \<Rightarrow> byte list \<Rightarrow> nat \<Rightarrow> nat \<Rightarrow> nat \<Rightarrow> nat \<Rightarrow> nat \<Rightarrow> nat \<Rightarrow> nat \<Rightarrow> bool" where
  "tso_inv s buf k p g h c t j \<longleftrightarrow>
     (let q = ts_queue s; sent = ts_sent s in
      sq_buffer q = Some buf \<and> 1 \<le> k \<and> k < 64 \<and> sq_capacity q = 2 ^ k \<and> sq_mask q = 2 ^ k - 1 \<and> 2 ^ k \<le> length buf \<and>
      sq_head_cached_snapshot q = of_nat p \<and> sq_head_idx q = of_nat g \<and> sq_tail_cached_snapshot q = of_nat c \<and>
      sq_tail_idx q = of_nat t \<and> sq_tail_cached q = of_nat (length sent) \<and> sq_head_cached q = of_nat h \<and>
      p \<le> g \<and> g \<le> h \<and> h \<le> c \<and> c \<le> t \<and> t \<le> j \<and> j \<le> length sent \<and> length sent \<le> p + 2 ^ k \<and>
      puts_ok (2 ^ k) sent t j (ts_puts s) \<and> takes_ok g (ts_takes s) h \<and>
      (case ts_reader s of None \<Rightarrow> True | Some n \<Rightarrow> h + unat n \<le> c) \<and>
      ts_received s = take h sent \<and> (\<forall>i. h \<le> i \<and> i < j \<longrightarrow> buf ! (i mod 2 ^ k) = sent ! i))"

lemma tso_invE:
  assumes "tso_inv s buf k p g h c t j"
  shows "sq_buffer (ts_queue s) = Some buf" "1 \<le> k" "k < 64" "sq_capacity (ts_queue s) = 2 ^ k"
    "sq_mask (ts_queue s) = 2 ^ k - 1" "2 ^ k \<le> length buf" "sq_head_cached_snapshot (ts_queue s) = of_nat p"
    "sq_head_idx (ts_queue s) = of_nat g" "sq_tail_cached_snapshot (ts_queue s) = of_nat c"
    "sq_tail_idx (ts_queue s) = of_nat t" "sq_tail_cached (ts_queue s) = of_nat (length (ts_sent s))"
    "sq_head_cached (ts_queue s) = of_nat h" "p \<le> g" "g \<le> h" "h \<le> c" "c \<le> t" "t \<le> j" "j \<le> length (ts_sent s)"
    "length (ts_sent s) \<le> p + 2 ^ k" "puts_ok (2 ^ k) (ts_sent s) t j (ts_puts s)" "takes_ok g (ts_takes s) h"
    "case ts_reader s of None \<Rightarrow> True | Some n \<Rightarrow> h + unat n \<le> c" "ts_received s = take h (ts_sent s)"
    "\<forall>i. h \<le> i \<and> i < j \<longrightarrow> buf ! (i mod 2 ^ k) = ts_sent s ! i"
    "unat ((2 :: size_t) ^ k) = 2 ^ k" "(2 :: nat) ^ k \<le> 2 ^ 63"
proof -
  have k: "k < 64" using assms by (simp add: tso_inv_def Let_def)
  show "unat ((2 :: size_t) ^ k) = 2 ^ k" using k by (rule unat_pow2)
  show "(2 :: nat) ^ k \<le> 2 ^ 63" using k by (intro power_increasing) simp_all
qed (use assms in \<open>auto simp: tso_inv_def Let_def\<close>)

text \<open>Differences of indices are the numbers of bytes they stand for.\<close>

lemma index_diff:
  assumes "tso_inv s buf k p g h c t j" "p \<le> a" "a \<le> b" "b \<le> length (ts_sent s)"
  shows "unat (of_nat b - of_nat a :: size_t) = b - a"
  using tso_invE(19,26) [OF assms(1)] assms(2-4) by (intro unat_of_nat_diff) auto

lemma tso_put_keeps:
  assumes inv: "tso_inv s buf k p g h c t j" and d: "length d < 2 ^ 64"
  shows "\<exists>s' p'. tso_step (Tso_put d) s = Some s' \<and> tso_inv s' buf k p' g h c t j"
proof (cases "d = []")
  case True
  then show ?thesis using inv by auto
next
  case False
  let ?q = "ts_queue s" and ?n = "of_nat (length d) :: size_t" and ?T = "length (ts_sent s)"
  note E = tso_invE [OF inv]
  let ?v = "?q\<lparr>sq_tail_idx := of_nat ?T\<rparr>"
  have fw: "forward_tail (ts_puts s) (sq_tail_idx ?q) = of_nat ?T" using puts_forward [OF E(20)] E(10) by simp
  have n: "?n \<noteq> 0" "unat ?n = length d" using of_length_eq_0 [OF d] unat_of_length [OF d] False by simp_all
  obtain ad v where av: "spsc_admit ?v ?n = (ad, v)" by fastforce
  have used: "unat (of_nat ?T - of_nat p :: size_t) = ?T - p" "unat (of_nat ?T - of_nat g :: size_t) = ?T - g"
    using index_diff [OF inv] E(13-18) by auto
  have le: "unat (of_nat ?T - of_nat p :: size_t) \<le> unat ((2 :: size_t) ^ k)"
    "unat (of_nat ?T - of_nat g :: size_t) \<le> unat ((2 :: size_t) ^ k)" using used E(13,19,25) by auto
  have "\<exists>p'. sq_head_cached_snapshot v = of_nat p' \<and> sq_tail_idx v = of_nat ?T \<and> p \<le> p' \<and> p' \<le> g \<and>
      (ad \<longrightarrow> ?T + length d \<le> p' + 2 ^ k)"
  proof (cases "(2 :: size_t) ^ k - (of_nat ?T - of_nat p) < ?n")
    case True
    then have v: "v = ?v\<lparr>sq_head_cached_snapshot := of_nat g\<rparr>"
      "ad \<longleftrightarrow> \<not> (2 :: size_t) ^ k - (of_nat ?T - of_nat g) < ?n"
      using av E(4,7,8) by (auto simp: spsc_admit_def Let_def)
    then show ?thesis using free_less_iff [OF le(2), of ?n] used(2) n(2) E(13,17,18,25)
      by (intro exI [of _ g]) auto
  next
    case False
    then have v: "v = ?v" using av E(4,7,8) by (auto simp: spsc_admit_def Let_def)
    show ?thesis using False v free_less_iff [OF le(1), of ?n] used(1) n(2) E(7,13,25)
      by (intro exI [of _ p]) auto
  qed
  then obtain p' where p': "sq_head_cached_snapshot v = of_nat p'" "sq_tail_idx v = of_nat ?T" "p \<le> p'" "p' \<le> g"
    "ad \<longrightarrow> ?T + length d \<le> p' + 2 ^ k" by blast
  show ?thesis
  proof (cases ad)
    case True
    have po: "puts_ok (2 ^ k) (ts_sent s @ d) t j (ts_puts s @ put_stores (2 ^ k - 1) (of_nat ?T) d)"
      using puts_append [OF E(20) puts_fresh [OF E(3)]] .
    have "\<forall>i. h \<le> i \<and> i < j \<longrightarrow> buf ! (i mod 2 ^ k) = (ts_sent s @ d) ! i"
      using E(18,24) by (simp add: nth_append)
    moreover define s' where "s' = s\<lparr>ts_queue := ?q\<lparr>sq_head_cached_snapshot := of_nat p',
        sq_tail_cached := of_nat ?T + ?n\<rparr>, ts_puts := ts_puts s @ put_stores (2 ^ k - 1) (of_nat ?T) d, ts_sent := ts_sent s @ d\<rparr>"
    ultimately have "tso_inv s' buf k p' g h c t j"
      using True p' po E(1-18,21-23) by (simp add: tso_inv_def)
    moreover have "tso_step (Tso_put d) s = Some s'"
      using True av fw n(1) p'(1,2) E(1,5) by (simp add: Let_def s'_def)
    ultimately show ?thesis by blast
  next
    case False
    define s' where "s' = s\<lparr>ts_queue := ?q\<lparr>sq_head_cached_snapshot := of_nat p'\<rparr>\<rparr>"
    then have "tso_inv s' buf k p' g h c t j" using p' E by (simp add: tso_inv_def)
    moreover have "tso_step (Tso_put d) s = Some s'"
      using False av fw n(1) p'(1) E(1) by (simp add: Let_def s'_def)
    ultimately show ?thesis by blast
  qed
qed

lemma tso_avail_keeps:
  assumes inv: "tso_inv s buf k p g h c t j"
  shows "\<exists>s' c'. tso_step (Tso_avail n) s = Some s' \<and> tso_inv s' buf k p g h c' t j"
proof (cases "n = 0 \<or> ts_reader s \<noteq> None")
  case True
  then show ?thesis using inv by auto
next
  case False
  let ?q = "ts_queue s"
  note E = tso_invE [OF inv]
  let ?v = "?q\<lparr>sq_head_idx := of_nat h\<rparr>"
  have fw: "forward_head (ts_takes s) (sq_head_idx ?q) = of_nat h" using takes_forward [OF E(21)] E(8) by simp
  obtain av v where a: "spsc_avail ?v n = (av, v)" by fastforce
  have left: "unat (of_nat c - of_nat h :: size_t) = c - h" "unat (of_nat t - of_nat h :: size_t) = t - h"
    using index_diff [OF inv] E(13-18) by auto
  have "\<exists>c'. sq_tail_cached_snapshot v = of_nat c' \<and> c \<le> c' \<and> c' \<le> t \<and> (av \<longrightarrow> h + unat n \<le> c')"
  proof (cases "of_nat c - of_nat h < n")
    case True
    then have "v = ?v\<lparr>sq_tail_cached_snapshot := of_nat t\<rparr>" "av \<longleftrightarrow> \<not> of_nat t - of_nat h < n"
      using a E(9,10) by (auto simp: spsc_avail_def Let_def)
    then show ?thesis using left E(15,16) by (intro exI [of _ t]) (auto simp: word_less_nat_alt)
  next
    case False
    then have "v = ?v" using a E(9,10) by (auto simp: spsc_avail_def Let_def)
    then show ?thesis using False left E(9,15,16) by (intro exI [of _ c]) (auto simp: word_less_nat_alt)
  qed
  then obtain c' where c': "sq_tail_cached_snapshot v = of_nat c'" "c \<le> c'" "c' \<le> t" "av \<longrightarrow> h + unat n \<le> c'" by blast
  define s' where "s' = s\<lparr>ts_queue := ?q\<lparr>sq_tail_cached_snapshot := of_nat c'\<rparr>, ts_reader := if av then Some n else None\<rparr>"
  then have "tso_inv s' buf k p g h c' t j" using c' E by (simp add: tso_inv_def)
  moreover have "tso_step (Tso_avail n) s = Some s'"
    using False a fw c'(1) E(1) by (simp add: Let_def s'_def)
  ultimately show ?thesis by blast
qed

lemma copied_bytes:
  assumes inv: "tso_inv s buf k p g h c t j" and n: "h + unat n \<le> c"
  shows "ring_load buf (2 ^ k - 1) (of_nat h) (replicate (unat n) z) n = Some (take (unat n) (drop h (ts_sent s)))"
proof -
  note E = tso_invE [OF inv]
  have "unat n \<le> 2 ^ k" using n E(13-19) by linarith
  moreover have "ring_read buf (2 ^ k) (unat (of_nat h :: size_t)) (unat n) = ring_read buf (2 ^ k) h (unat n)"
    by (rule ring_read_cong_pos) (rule unat_of_nat_mod_cap [OF E(3)])
  moreover have "ring_read buf (2 ^ k) h (unat n) = take (unat n) (drop h (ts_sent s))"
    using n E(16-18,24) by (intro nth_equalityI) (auto simp: nth_ring_read)
  ultimately show ?thesis
    using ring_load_eq [OF E(3,6)] n E(16-18) by (simp add: memcpy_def)
qed

lemma tso_copy_keeps:
  assumes inv: "tso_inv s buf k p g h c t j"
  shows "\<exists>s' h'. tso_step Tso_copy s = Some s' \<and> tso_inv s' buf k p g h' c t j"
proof (cases "ts_reader s")
  case None
  then show ?thesis using inv by auto
next
  case (Some n)
  let ?q = "ts_queue s" and ?h = "h + unat n"
  note E = tso_invE [OF inv]
  have n: "?h \<le> c" using E(22) Some by simp
  have fw: "forward_head (ts_takes s) (sq_head_idx ?q) = of_nat h" using takes_forward [OF E(21)] E(8) by simp
  define s' where "s' = s\<lparr>ts_queue := ?q\<lparr>sq_head_cached := of_nat ?h\<rparr>, ts_reader := None,
    ts_takes := ts_takes s @ [St_head (of_nat ?h)], ts_received := ts_received s @ take (unat n) (drop h (ts_sent s))\<rparr>"
  have "takes_ok g (ts_takes s @ [St_head (of_nat ?h)]) ?h"
    using takes_append [OF E(21), of ?h] by simp
  then have "tso_inv s' buf k p g ?h c t j"
    using n E unfolding s'_def by (simp add: tso_inv_def take_add)
  moreover have "tso_step Tso_copy s = Some s'"
    using Some fw copied_bytes [OF inv n] E(1,5) by (simp add: s'_def Let_def)
  ultimately show ?thesis by blast
qed

text \<open>A byte that reaches the memory never lands on one that is still to be received.\<close>

lemma tso_commit_put_keeps:
  assumes inv: "tso_inv s buf k p g h c t j"
  shows "\<exists>s' buf' t' j'. tso_step Tso_commit_put s = Some s' \<and> tso_inv s' buf' k p g h c t' j'"
proof (cases "ts_puts s")
  case Nil
  then show ?thesis using inv by auto
next
  case (Cons w ws)
  note E = tso_invE [OF inv]
  show ?thesis
  proof (cases w)
    case (St_byte a b)
    then have ab: "j < length (ts_sent s)" "a = j mod 2 ^ k" "b = ts_sent s ! j" "puts_ok (2 ^ k) (ts_sent s) t (Suc j) ws"
      using E(20) Cons by auto
    have a: "a < length buf" using ab(2) E(6) by (simp add: order_less_le_trans [OF mod_less_divisor])
    have new: "i mod 2 ^ k \<noteq> j mod 2 ^ k" if "h \<le> i" "i < j" for i
    proof
      assume same: "i mod 2 ^ k = j mod 2 ^ k"
      have "j - i < 2 ^ k" using that ab(1) E(13,14,19) by linarith
      then show False using ring_index_inj [of i 0 "2 ^ k" "j - i"] that same by simp
    qed
    have mem: "\<forall>i. h \<le> i \<and> i < Suc j \<longrightarrow> buf[a := b] ! (i mod 2 ^ k) = ts_sent s ! i"
    proof (intro allI impI)
      fix i assume "h \<le> i \<and> i < Suc j"
      then show "buf[a := b] ! (i mod 2 ^ k) = ts_sent s ! i"
        using ab(2,3) a new [of i] E(24) by (cases "i = j") simp_all
    qed
    define s' where "s' = s\<lparr>ts_queue := (ts_queue s)\<lparr>sq_buffer := Some (buf[a := b])\<rparr>, ts_puts := ws\<rparr>"
    then have "tso_inv s' (buf[a := b]) k p g h c t (Suc j)" using ab mem E by (simp add: tso_inv_def)
    moreover have "tso_step Tso_commit_put s = Some s'" using Cons St_byte a E(1) by (simp add: s'_def)
    ultimately show ?thesis by blast
  next
    case (St_tail v)
    then have v: "v = of_nat j" "puts_ok (2 ^ k) (ts_sent s) j j ws" using E(20) Cons by auto
    define s' where "s' = s\<lparr>ts_queue := (ts_queue s)\<lparr>sq_tail_idx := of_nat j\<rparr>, ts_puts := ws\<rparr>"
    then have "tso_inv s' buf k p g h c j j" using v E by (simp add: tso_inv_def)
    moreover have "tso_step Tso_commit_put s = Some s'" using Cons St_tail v(1) by (simp add: s'_def)
    ultimately show ?thesis by blast
  next
    case (St_head v)
    then show ?thesis using E(20) Cons by auto
  qed
qed

lemma tso_commit_take_keeps:
  assumes inv: "tso_inv s buf k p g h c t j"
  shows "\<exists>s' g'. tso_step Tso_commit_take s = Some s' \<and> tso_inv s' buf k p g' h c t j"
proof (cases "ts_takes s")
  case Nil
  then show ?thesis using inv by auto
next
  case (Cons w ws)
  note E = tso_invE [OF inv]
  from E(21) Cons obtain m where m: "w = St_head (of_nat m)" "g \<le> m" "takes_ok m ws h" by (cases w) auto
  define s' where "s' = s\<lparr>ts_queue := (ts_queue s)\<lparr>sq_head_idx := of_nat m\<rparr>, ts_takes := ws\<rparr>"
  then have "tso_inv s' buf k p m h c t j" using m E takes_forward [OF m(3)] by (simp add: tso_inv_def)
  moreover have "tso_step Tso_commit_take s = Some s'" using Cons m(1) by (simp add: s'_def)
  ultimately show ?thesis by blast
qed

definition tso_ok :: "nat \<Rightarrow> tso \<Rightarrow> bool" where
  "tso_ok k s \<longleftrightarrow> (\<exists>buf p g h c t j. tso_inv s buf k p g h c t j)"

definition small_put :: "tso_event \<Rightarrow> bool" where
  "small_put e \<longleftrightarrow> (case e of Tso_put d \<Rightarrow> length d < 2 ^ 64 | _ \<Rightarrow> True)"

lemma tso_step_keeps:
  assumes "tso_ok k s" "small_put e"
  shows "\<exists>s'. tso_step e s = Some s' \<and> tso_ok k s'"
proof -
  from assms(1) obtain buf p g h c t j where inv: "tso_inv s buf k p g h c t j" by (auto simp: tso_ok_def)
  show ?thesis
  proof (cases e)
    case (Tso_put d)
    then show ?thesis using tso_put_keeps [OF inv, of d] assms(2) unfolding tso_ok_def small_put_def by fastforce
  next
    case (Tso_avail n)
    then show ?thesis using tso_avail_keeps [OF inv, of n] unfolding tso_ok_def by blast
  next
    case Tso_copy
    then show ?thesis using tso_copy_keeps [OF inv] unfolding tso_ok_def by blast
  next
    case Tso_commit_put
    then show ?thesis using tso_commit_put_keeps [OF inv] unfolding tso_ok_def by blast
  next
    case Tso_commit_take
    then show ?thesis using tso_commit_take_keeps [OF inv] unfolding tso_ok_def by blast
  qed
qed

lemma tso_run_keeps: "tso_ok k s \<Longrightarrow> list_all small_put es \<Longrightarrow> \<exists>s'. tso_run es s = Some s' \<and> tso_ok k s'"
proof (induction es arbitrary: s)
  case (Cons e es)
  then obtain s' where "tso_step e s = Some s'" "tso_ok k s'" using tso_step_keeps [of k s e] by auto
  then show ?case using Cons by simp
qed simp

text \<open>Once both buffers are empty the memory is a well-formed queue that holds what is still to come.\<close>

lemma drained_memory:
  assumes inv: "tso_inv s buf k p g h c t j" and e: "ts_puts s = []" "ts_takes s = []"
  shows "spsc_inv (ts_queue s)" "spsc_cap (ts_queue s) = 2 ^ k"
    "ts_sent s = ts_received s @ spsc_contents (ts_queue s)"
proof -
  let ?q = "ts_queue s" and ?T = "length (ts_sent s)"
  note E = tso_invE [OF inv]
  have end_: "t = ?T" "j = ?T" "g = h" using E(20,21) e by auto
  have left: "unat (of_nat ?T - of_nat p :: size_t) = ?T - p" "unat (of_nat ?T - of_nat h :: size_t) = ?T - h"
    "unat (of_nat c - of_nat h :: size_t) = c - h" using index_diff [OF inv] E(13-18) by auto
  have idx: "sq_head_idx ?q = of_nat h" "sq_tail_idx ?q = of_nat ?T" using E(8,10) end_ by simp_all
  show "spsc_cap ?q = 2 ^ k" using E(4,25) by (simp add: spsc_cap_def)
  have "ring_capacity (sq_capacity ?q)" using E(2,3,4) by (auto simp: ring_capacity_def)
  then show "spsc_inv ?q"
    using E(1,4-7,9,11-19,25) left idx end_ by (auto simp: spsc_inv_def word_le_nat_alt)
  have "spsc_contents ?q = ring_read buf (2 ^ k) h (?T - h)"
    using E(1,4,25) left idx ring_read_cong_pos [OF unat_of_nat_mod_cap [OF E(3)]] by (simp add: spsc_contents_def)
  also have "\<dots> = drop h (ts_sent s)"
    using E(24) end_ by (intro nth_equalityI) (auto simp: nth_ring_read)
  finally show "ts_sent s = ts_received s @ spsc_contents ?q" using E(23) by simp
qed

subsection \<open>Draining the buffers\<close>

fun commit_all :: "buffered list \<Rightarrow> spsc_queue \<Rightarrow> spsc_queue option" where
  "commit_all [] q = Some q"
| "commit_all (w # ws) q = do { q \<leftarrow> commit_store w q; commit_all ws q }"

definition tso_drain :: "tso \<Rightarrow> tso_event list" where
  "tso_drain s = replicate (length (ts_puts s)) Tso_commit_put @ replicate (length (ts_takes s)) Tso_commit_take"

lemma commit_all_append: "commit_all (ws @ vs) q = Option.bind (commit_all ws q) (commit_all vs)"
  by (induction ws arbitrary: q) (auto split: bind_splits)

lemma tso_run_append: "tso_run (es @ fs) s = Option.bind (tso_run es s) (tso_run fs)"
  by (induction es arbitrary: s) (auto split: bind_splits)

lemma run_commit_puts:
  "ts_puts s = ws \<Longrightarrow> tso_run (replicate (length ws) Tso_commit_put) s =
     map_option (\<lambda>q. s\<lparr>ts_queue := q, ts_puts := []\<rparr>) (commit_all ws (ts_queue s))"
proof (induction ws arbitrary: s)
  case (Cons w ws)
  then show ?case by (cases "commit_store w (ts_queue s)") simp_all
qed simp

lemma run_commit_takes:
  "ts_takes s = ws \<Longrightarrow> tso_run (replicate (length ws) Tso_commit_take) s =
     map_option (\<lambda>q. s\<lparr>ts_queue := q, ts_takes := []\<rparr>) (commit_all ws (ts_queue s))"
proof (induction ws arbitrary: s)
  case (Cons w ws)
  then show ?case by (cases "commit_store w (ts_queue s)") simp_all
qed simp

lemma run_drain:
  assumes "tso_run (tso_drain s) s = Some s'"
  shows "ts_puts s' = []" "ts_takes s' = []" "ts_sent s' = ts_sent s" "ts_received s' = ts_received s"
proof -
  from assms obtain q where "tso_run (replicate (length (ts_takes s)) Tso_commit_take) (s\<lparr>ts_queue := q, ts_puts := []\<rparr>) = Some s'"
    by (auto simp: tso_drain_def tso_run_append run_commit_puts split: bind_splits)
  then show "ts_puts s' = []" "ts_takes s' = []" "ts_sent s' = ts_sent s" "ts_received s' = ts_received s"
    by (auto simp: run_commit_takes)
qed

text \<open>The stores of an accepted block are \<open>ring_store\<close> and the new tail index, one write at a time.\<close>

lemma put_stores_eq:
  assumes k: "k < 64" and q: "sq_buffer q = Some buf" "2 ^ k \<le> length buf" and d: "length d \<le> 2 ^ k"
    and st: "ring_store buf (2 ^ k - 1) tail d = Some buf'"
  shows "commit_all (put_stores (2 ^ k - 1) tail d) q =
    Some (q\<lparr>sq_buffer := Some buf', sq_tail_idx := tail + of_nat (length d)\<rparr>)"
proof -
  let ?w = "\<lambda>i. St_byte (unat ((tail + of_nat i) AND (2 ^ k - 1))) (d ! i)"
  have "\<exists>b. commit_all (map ?w [0..<i]) q = Some (q\<lparr>sq_buffer := Some b\<rparr>) \<and>
      stored_at buf b (2 ^ k) (unat tail) (take i d)" if "i \<le> length d" for i
    using that
  proof (induction i)
    case 0
    show ?case using q(1) by (intro exI [of _ buf]) simp
  next
    case (Suc i)
    then obtain b where b: "commit_all (map ?w [0..<i]) q = Some (q\<lparr>sq_buffer := Some b\<rparr>)"
      "stored_at buf b (2 ^ k) (unat tail) (take i d)" by auto
    let ?a = "(unat tail + i) mod 2 ^ k"
    have a: "unat ((tail + of_nat i) AND (2 ^ k - 1)) = ?a"
      using unat_plus_mod_cap [OF k, of tail "of_nat i"] mod_add_cong [OF refl unat_of_nat_mod_cap [OF k, of i]]
      by (simp add: unat_and_mask [OF k])
    have len: "length b = length buf" using b(2) by (simp add: stored_at_def)
    then have small: "?a < length b" using q(2) by (simp add: order_less_le_trans [OF mod_less_divisor])
    have "length (take i d) = i" using Suc.prems by simp
    then have "stored_at b (b[?a := d ! i]) (2 ^ k) (unat tail + length (take i d)) [d ! i]"
      using small by (simp add: stored_at_def)
    from stored_at_append [OF b(2) this] have "stored_at buf (b[?a := d ! i]) (2 ^ k) (unat tail) (take (Suc i) d)"
      using Suc.prems d q(2) by (simp add: take_Suc_conv_app_nth)
    then show ?case using b(1) small
      by (intro exI [of _ "b[?a := d ! i]"]) (simp add: commit_all_append a)
  qed
  from this [of "length d"] obtain b where b: "commit_all (map ?w [0..<length d]) q = Some (q\<lparr>sq_buffer := Some b\<rparr>)"
    "stored_at buf b (2 ^ k) (unat tail) d" by auto
  have "b = buf'" using ring_store_spec [OF k q(2) d, of tail] st b(2) stored_at_unique by fastforce
  then show ?thesis using b(1) by (simp add: put_stores_def commit_all_append)
qed

lemma tso_ok_start:
  assumes "memalign_contract pm" "unat n \<le> 2 ^ 63" "spsc_reserve pm q0 n = Some q" "sq_buffer q \<noteq> None"
  shows "\<exists>k. tso_ok k (tso_start q)"
proof -
  have idx: "sq_tail_idx q = 0" "sq_head_idx q = 0" "sq_head_cached_snapshot q = 0" "sq_tail_cached_snapshot q = 0"
    using assms(3) by (auto simp: spsc_reserve_def Let_def split: bind_splits option.splits)
  from spsc_reserve_spec [OF assms(1,2), of q0] assms(3,4) have "spsc_inv q" by auto
  then obtain buf k where "tso_inv (tso_start q) buf k 0 0 0 0 0 0"
    using idx by (elim spsc_invE) (auto simp: tso_inv_def tso_start_def)
  then show ?thesis unfolding tso_ok_def by blast
qed

text \<open>
  A call whose stores reach the memory before anything else happens is the atomic operation of
  \<open>Spsc_Queue\<close>.
\<close>

lemma put_drained_is_enqueue:
  assumes inv: "spsc_inv q" and d: "length d < 2 ^ 64" and enq: "spsc_enqueue_bytes q d = Some (Spsc_kOk, q')"
    and s: "ts_queue s = q" "ts_puts s = []"
  shows "tso_run (Tso_put d # replicate (Suc (length d)) Tso_commit_put) s =
    Some (s\<lparr>ts_queue := q', ts_sent := ts_sent s @ d\<rparr>)"
proof -
  let ?n = "of_nat (length d) :: size_t"
  obtain ad v where ad: "spsc_admit q ?n = (ad, v)" by fastforce
  note A = spsc_admit_spec [OF inv ad]
  from inv obtain buf k where k: "sq_buffer q = Some buf" "k < 64" "spsc_cap q = 2 ^ k" "sq_mask q = 2 ^ k - 1" "2 ^ k \<le> length buf"
    by (elim spsc_invE) auto
  have v: "v = q\<lparr>sq_head_cached_snapshot := sq_head_cached_snapshot v\<rparr>"
    using ad by (auto simp: spsc_admit_def Let_def split: if_splits)
  then have vq: "sq_mask v = sq_mask q" "sq_tail_idx v = sq_tail_idx q"
    by (metis spsc_queue.select_convs spsc_queue.update_convs spsc_queue.surjective)+
  from enq k(1) ad obtain buf' where b: "?n \<noteq> 0" ad "ring_store buf (2 ^ k - 1) (sq_tail_idx q) d = Some buf'"
    "q' = spsc_publish v buf' ?n"
    using k(4) vq by (auto simp: spsc_enqueue_bytes_def Let_def split: if_splits bind_splits)
  have "length d \<le> 2 ^ k" using A(4) b(2) k(3) unat_of_length [OF d] by simp
  let ?q = "q\<lparr>sq_head_cached_snapshot := sq_head_cached_snapshot v, sq_tail_cached := sq_tail_idx q + ?n\<rparr>"
  have "sq_buffer ?q = Some buf" using k(1) by simp
  note C = put_stores_eq [OF k(2) this k(5) \<open>length d \<le> 2 ^ k\<close> b(3)]
  let ?s = "s\<lparr>ts_queue := ?q, ts_puts := put_stores (2 ^ k - 1) (sq_tail_idx q) d, ts_sent := ts_sent s @ d\<rparr>"
  have step: "tso_step (Tso_put d) s = Some ?s" using s k(1,4) ad b(1,2) vq by (simp add: Let_def)
  have len: "length (ts_puts ?s) = Suc (length d)" by (simp add: put_stores_def)
  have "spsc_publish v buf' ?n = ?q\<lparr>sq_buffer := Some buf', sq_tail_idx := sq_tail_idx q + ?n\<rparr>"
    by (subst v) (simp add: spsc_publish_def vq)
  then show ?thesis
    using step run_commit_puts [OF refl, of ?s] C b(4) s unfolding len by (simp del: replicate.simps)
qed

text \<open>Every state a run reaches completes to a queue that holds what is still to come.\<close>

lemma tso_ok_drain:
  assumes "tso_ok k s"
  shows "\<exists>s'. tso_run (tso_drain s) s = Some s' \<and> spsc_inv (ts_queue s') \<and> spsc_cap (ts_queue s') = 2 ^ k \<and>
    ts_received s' = ts_received s \<and> ts_sent s' = ts_sent s \<and> ts_sent s = ts_received s @ spsc_contents (ts_queue s')"
proof -
  have "list_all small_put (tso_drain s)"
    by (simp add: tso_drain_def small_put_def list_all_length nth_append)
  from tso_run_keeps [OF assms this] obtain s' where s': "tso_run (tso_drain s) s = Some s'" "tso_ok k s'" by blast
  from s'(2) obtain buf p g h c t j where "tso_inv s' buf k p g h c t j" unfolding tso_ok_def by blast
  from drained_memory [OF this] run_drain [OF s'(1)] s'(1) show ?thesis by simp
qed

lemma take_drained_is_dequeue:
  assumes inv: "spsc_inv q" and deq: "spsc_dequeue_bytes q (replicate (unat n) (CHR 0x00)) n = Some (Spsc_kOk, q', out)"
    and s: "ts_queue s = q" "ts_takes s = []" "ts_reader s = None"
  shows "tso_run [Tso_avail n, Tso_copy, Tso_commit_take] s =
    Some (s\<lparr>ts_queue := q', ts_received := ts_received s @ out\<rparr>)"
proof -
  obtain av v where av: "spsc_avail q n = (av, v)" by fastforce
  from inv obtain buf where buf: "sq_buffer q = Some buf" by (elim spsc_invE) auto
  have v: "v = q\<lparr>sq_tail_cached_snapshot := sq_tail_cached_snapshot v\<rparr>"
    using av by (auto simp: spsc_avail_def Let_def split: if_splits)
  then have vq: "sq_mask v = sq_mask q" "sq_head_idx v = sq_head_idx q"
    by (metis spsc_queue.select_convs spsc_queue.update_convs spsc_queue.surjective)+
  from deq buf av have b: "n \<noteq> 0" av "ring_load buf (sq_mask q) (sq_head_idx q) (replicate (unat n) (CHR 0x00)) n = Some out"
    "q' = spsc_consume v n"
    using vq by (auto simp: spsc_dequeue_bytes_def Let_def split: if_splits bind_splits)
  let ?q = "q\<lparr>sq_tail_cached_snapshot := sq_tail_cached_snapshot v\<rparr>"
  have "spsc_consume v n = ?q\<lparr>sq_head_cached := sq_head_idx q + n, sq_head_idx := sq_head_idx q + n\<rparr>"
    by (subst v) (simp add: spsc_consume_def vq)
  then show ?thesis using s av b buf by (simp add: Let_def)
qed

subsection \<open>The property\<close>

text \<open>C11: on a processor with store buffers, whatever the two threads do and whenever each of their
  stores reaches the memory, no access leaves the block; what the consumer got is what the producer had
  accepted, in order and complete, and once the buffers have drained the memory is a well-formed queue that
  holds the rest, which the capacity bounds: the release store of the tail behind the bytes is enough.\<close>

theorem spsc_store_buffers_deliver:
  assumes "memalign_contract pm" and "unat n \<le> 2 ^ 63" and "spsc_reserve pm spsc_new n = Some q"
    and "sq_buffer q \<noteq> None" and "list_all small_put es"
  shows "\<exists>s s'. tso_run es (tso_start q) = Some s \<and> tso_run (tso_drain s) s = Some s' \<and> spsc_inv (ts_queue s') \<and>
    ts_sent s' = ts_sent s \<and> ts_received s' = ts_received s \<and>
    ts_sent s = ts_received s @ spsc_contents (ts_queue s') \<and> length (ts_sent s) \<le> length (ts_received s) + spsc_cap q"
proof -
  from tso_ok_start [OF assms(1-4)] obtain k where k: "tso_ok k (tso_start q)" by blast
  from tso_ok_drain [OF k] have cap: "spsc_cap q = 2 ^ k" by (auto simp: tso_drain_def tso_start_def)
  from tso_run_keeps [OF k assms(5)] obtain s where s: "tso_run es (tso_start q) = Some s" "tso_ok k s" by blast
  from tso_ok_drain [OF s(2)] obtain s' where s': "tso_run (tso_drain s) s = Some s'" "spsc_inv (ts_queue s')"
    "spsc_cap (ts_queue s') = 2 ^ k" "ts_received s' = ts_received s" "ts_sent s' = ts_sent s"
    "ts_sent s = ts_received s @ spsc_contents (ts_queue s')" by blast
  from spsc_contents_bound [OF s'(2)] have "length (ts_sent s) \<le> length (ts_received s) + spsc_cap q"
    using s'(3,6) cap by simp
  with s s' show ?thesis by blast
qed

text \<open>The consumer looks while one of two bytes has reached the memory, again before the tail has, and
  then once more; the block it takes leaves the new head in its buffer, and the producer, which does not
  see it yet, turns the next three bytes down.\<close>

definition demo_interleaving :: "tso_event list" where
  "demo_interleaving = [Tso_put ''ab'', Tso_commit_put, Tso_avail 1, Tso_commit_put, Tso_avail 1, Tso_commit_put,
     Tso_avail 2, Tso_copy, Tso_put ''cde'']"

lemma demo_reserve:
  "\<exists>q. spsc_reserve zero_memalign spsc_new 4 = Some q \<and> sq_buffer q \<noteq> None \<and>
    map_option (\<lambda>s. (ts_received s, ts_sent s, ts_puts s, ts_takes s)) (tso_run demo_interleaving (tso_start q)) =
      Some (''ab'', ''ab'', [], [St_head 2])"
proof -
  have "(case spsc_reserve zero_memalign spsc_new 4 of None \<Rightarrow> False | Some q \<Rightarrow> sq_buffer q \<noteq> None \<and>
    map_option (\<lambda>s. (ts_received s, ts_sent s, ts_puts s, ts_takes s)) (tso_run demo_interleaving (tso_start q)) =
      Some (''ab'', ''ab'', [], [St_head 2]))" by code_simp
  then show ?thesis by (simp split: option.splits)
qed

theorem spsc_store_buffers_deliver_witness:
  "\<exists>q s s'. spsc_reserve zero_memalign spsc_new 4 = Some q \<and> tso_run demo_interleaving (tso_start q) = Some s \<and>
    ts_received s = ''ab'' \<and> ts_sent s = ''ab'' \<and> ts_puts s = [] \<and> ts_takes s = [St_head 2] \<and>
    tso_run (tso_drain s) s = Some s' \<and> spsc_contents (ts_queue s') = []"
proof -
  from demo_reserve obtain q s where q: "spsc_reserve zero_memalign spsc_new 4 = Some q" "sq_buffer q \<noteq> None"
    "tso_run demo_interleaving (tso_start q) = Some s" "ts_received s = ''ab''" "ts_sent s = ''ab''" "ts_puts s = []"
    "ts_takes s = [St_head 2]" by auto
  have "list_all small_put demo_interleaving" by (simp add: demo_interleaving_def small_put_def)
  from spsc_store_buffers_deliver [OF zero_memalign_contract _ q(1,2) this] q show ?thesis by auto
qed

end
