(* ===== verification/Spmc_Threads.thy ===== *)
theory Spmc_Threads
  imports Spmc_Queue
begin

unbundle bit_operations_syntax

text \<open>
  The same queue with its calls split at their atomic accesses: one producer inside
  \<^verbatim>\<open>enqueue_bytes\<close> and any number of consumers inside \<^verbatim>\<open>dequeue_bytes\<close>, interleaved step by
  step over a sequentially consistent memory. A copy between two atomic accesses is one step.
\<close>

datatype producer_pc = P_idle | P_admitted "byte list" | P_stored "byte list"

datatype consumer_pc =
    C_idle
  | C_ticket size_t size_t
  | C_short size_t
  | C_avail size_t size_t
  | C_copied size_t size_t "byte list"

text \<open>
  Beside the queue and the program counters the machine records, for the theorems only, the
  bytes published so far and the blocks handed out, in the order of their commits.
\<close>

record spmc_machine =
  mm_queue :: spmc_queue
  mm_producer :: producer_pc
  mm_consumers :: "nat \<Rightarrow> consumer_pc"
  mm_published :: "byte list"
  mm_taken :: "(nat \<times> byte list) list"

datatype spmc_event =
    Ev_admit "byte list" | Ev_store | Ev_publish
  | Ev_ticket nat size_t | Ev_check nat | Ev_rewind nat | Ev_copy nat | Ev_commit nat

inductive spmc_step :: "spmc_machine \<Rightarrow> spmc_event \<Rightarrow> spmc_machine \<Rightarrow> bool" where
  admit: "\<lbrakk>mm_producer s = P_idle; d \<noteq> []; length d < 2 ^ 64;
      spmc_admit (mm_queue s) (of_nat (length d))\<rbrakk> \<Longrightarrow>
    spmc_step s (Ev_admit d) (s\<lparr>mm_producer := P_admitted d\<rparr>)"
| store: "\<lbrakk>mm_producer s = P_admitted d; mq_buffer (mm_queue s) = Some buf;
      ring_store buf (mq_mask (mm_queue s)) (mq_tail_idx (mm_queue s)) d = Some buf'\<rbrakk> \<Longrightarrow>
    spmc_step s Ev_store (s\<lparr>mm_queue := (mm_queue s)\<lparr>mq_buffer := Some buf'\<rparr>, mm_producer := P_stored d\<rparr>)"
| publish: "mm_producer s = P_stored d \<Longrightarrow>
    spmc_step s Ev_publish (s\<lparr>mm_queue := spmc_publish (mm_queue s) (of_nat (length d)),
      mm_producer := P_idle, mm_published := mm_published s @ d\<rparr>)"
| ticket: "\<lbrakk>mm_consumers s i = C_idle; n \<noteq> 0; mq_buffer (mm_queue s) \<noteq> None;
      spmc_draw_ticket (mm_queue s) n = (t, q)\<rbrakk> \<Longrightarrow>
    spmc_step s (Ev_ticket i n)
      (s\<lparr>mm_queue := q, mm_consumers := (mm_consumers s)(i := C_ticket n t)\<rparr>)"
| check: "mm_consumers s i = C_ticket n t \<Longrightarrow>
    spmc_step s (Ev_check i) (s\<lparr>mm_consumers := (mm_consumers s)
      (i := if spmc_avail (mm_queue s) t n then C_avail n t else C_short n)\<rparr>)"
| rewind: "mm_consumers s i = C_short n \<Longrightarrow>
    spmc_step s (Ev_rewind i) (s\<lparr>mm_queue := spmc_rewind (mm_queue s) n,
      mm_consumers := (mm_consumers s)(i := C_idle)\<rparr>)"
| copy: "\<lbrakk>mm_consumers s i = C_avail n t; mq_buffer (mm_queue s) = Some buf;
      ring_load buf (mq_mask (mm_queue s)) t (replicate (unat n) (CHR 0x00)) n = Some bs\<rbrakk> \<Longrightarrow>
    spmc_step s (Ev_copy i) (s\<lparr>mm_consumers := (mm_consumers s)(i := C_copied n t bs)\<rparr>)"
| commit: "\<lbrakk>mm_consumers s i = C_copied n t bs; spmc_try_commit (mm_queue s) t n = Some q\<rbrakk> \<Longrightarrow>
    spmc_step s (Ev_commit i) (s\<lparr>mm_queue := q, mm_consumers := (mm_consumers s)(i := C_idle),
      mm_taken := mm_taken s @ [(i, bs)]\<rparr>)"

inductive_cases spmc_stepE [elim!]:
  "spmc_step s (Ev_admit d) s'" "spmc_step s Ev_store s'" "spmc_step s Ev_publish s'"
  "spmc_step s (Ev_ticket i n) s'" "spmc_step s (Ev_check i) s'" "spmc_step s (Ev_rewind i) s'"
  "spmc_step s (Ev_copy i) s'" "spmc_step s (Ev_commit i) s'"

inductive spmc_exec :: "spmc_machine \<Rightarrow> spmc_event list \<Rightarrow> spmc_machine \<Rightarrow> bool" where
  finish: "spmc_exec s [] s"
| more: "\<lbrakk>spmc_step s e s1; spmc_exec s1 es s2\<rbrakk> \<Longrightarrow> spmc_exec s (e # es) s2"

definition spmc_start :: "spmc_queue \<Rightarrow> spmc_machine" where
  "spmc_start q = \<lparr>mm_queue = q, mm_producer = P_idle, mm_consumers = (\<lambda>_. C_idle),
     mm_published = [], mm_taken = []\<rparr>"

text \<open>A consumer is \<^emph>\<open>disciplined\<close> when it draws a ticket only for bytes that are published and
  that no other ticket covers.\<close>

fun disciplined :: "spmc_machine \<Rightarrow> spmc_event \<Rightarrow> bool" where
  "disciplined s (Ev_ticket i n) \<longleftrightarrow> n \<le> spmc_size (mm_queue s)"
| "disciplined s e \<longleftrightarrow> True"

inductive spmc_reach :: "spmc_machine \<Rightarrow> spmc_machine \<Rightarrow> bool" where
  start: "spmc_reach s s"
| step: "\<lbrakk>spmc_reach s s1; disciplined s1 e; spmc_step s1 e s2\<rbrakk> \<Longrightarrow> spmc_reach s s2"

subsection \<open>The invariant\<close>

text \<open>
  Outstanding tickets cut the bytes between the commit index and the head into consecutive
  claims, one per busy consumer. Positions are counted from the start of the machine and are
  not reduced modulo \<open>2 ^ 64\<close>; the indices of the queue are their images as words.
\<close>

fun claim_ok :: "consumer_pc \<Rightarrow> byte list \<Rightarrow> nat \<Rightarrow> nat \<Rightarrow> bool" where
  "claim_ok (C_ticket m t) P c n \<longleftrightarrow> m = of_nat n \<and> t = of_nat c"
| "claim_ok (C_avail m t) P c n \<longleftrightarrow> m = of_nat n \<and> t = of_nat c"
| "claim_ok (C_copied m t bs) P c n \<longleftrightarrow> m = of_nat n \<and> t = of_nat c \<and> bs = take n (drop c P)"
| "claim_ok C_idle P c n \<longleftrightarrow> False"
| "claim_ok (C_short m) P c n \<longleftrightarrow> False"

fun claims_ok :: "(nat \<Rightarrow> consumer_pc) \<Rightarrow> byte list \<Rightarrow> nat \<Rightarrow> (nat \<times> nat) list \<Rightarrow> bool" where
  "claims_ok cs P c [] \<longleftrightarrow> True"
| "claims_ok cs P c ((i, n) # xs) \<longleftrightarrow> 0 < n \<and> claim_ok (cs i) P c n \<and> claims_ok cs P (c + n) xs"

fun producer_ok :: "producer_pc \<Rightarrow> byte list \<Rightarrow> nat \<Rightarrow> nat \<Rightarrow> nat \<Rightarrow> bool" where
  "producer_ok P_idle buf cap T C \<longleftrightarrow> True"
| "producer_ok (P_admitted d) buf cap T C \<longleftrightarrow> T + length d \<le> C + cap"
| "producer_ok (P_stored d) buf cap T C \<longleftrightarrow>
     T + length d \<le> C + cap \<and> (\<forall>i < length d. buf ! ((T + i) mod cap) = d ! i)"

definition claimed :: "(nat \<times> nat) list \<Rightarrow> nat" where
  "claimed xs = sum_list (map snd xs)"

definition threads_inv :: "spmc_machine \<Rightarrow> nat \<Rightarrow> (nat \<times> nat) list \<Rightarrow> byte list \<Rightarrow> nat \<Rightarrow> bool" where
  "threads_inv s C xs buf k \<longleftrightarrow>
     (let q = mm_queue s; P = mm_published s in
      k < 64 \<and> mq_buffer q = Some buf \<and> 2 ^ k \<le> length buf \<and>
      mq_capacity q = 2 ^ k \<and> mq_mask q = 2 ^ k - 1 \<and>
      mq_commit_idx q = of_nat C \<and> mq_head_idx q = of_nat (C + claimed xs) \<and>
      mq_tail_idx q = of_nat (length P) \<and>
      C + claimed xs \<le> length P \<and> length P \<le> C + 2 ^ k \<and>
      distinct (map fst xs) \<and> (\<forall>i. i \<in> fst ` set xs \<longleftrightarrow> mm_consumers s i \<noteq> C_idle) \<and>
      claims_ok (mm_consumers s) P C xs \<and>
      (\<forall>j. C \<le> j \<and> j < length P \<longrightarrow> buf ! (j mod 2 ^ k) = P ! j) \<and>
      producer_ok (mm_producer s) buf (2 ^ k) (length P) C \<and>
      concat (map snd (mm_taken s)) = take C P)"

subsection \<open>Lemmas on claims\<close>

lemma claimed_simps [simp]:
  "claimed [] = 0" "claimed ((i, n) # xs) = n + claimed xs" "claimed (xs @ ys) = claimed xs + claimed ys"
  by (simp_all add: claimed_def)

lemma claims_ok_append [simp]:
  "claims_ok cs P c (xs @ ys) \<longleftrightarrow> claims_ok cs P c xs \<and> claims_ok cs P (c + claimed xs) ys"
  by (induction cs P c xs rule: claims_ok.induct) (auto simp: ac_simps)

lemma claims_ok_other [simp]:
  "i \<notin> fst ` set xs \<Longrightarrow> claims_ok (cs(i := x)) P c xs \<longleftrightarrow> claims_ok cs P c xs"
  by (induction cs P c xs rule: claims_ok.induct) auto

lemma claim_ok_published: "c + n \<le> length P \<Longrightarrow> claim_ok x P c n \<Longrightarrow> claim_ok x (P @ d) c n"
  by (cases x) auto

lemma claims_ok_published:
  "c + claimed xs \<le> length P \<Longrightarrow> claims_ok cs P c xs \<Longrightarrow> claims_ok cs (P @ d) c xs"
  by (induction cs P c xs rule: claims_ok.induct) (auto intro: claim_ok_published)

lemma claim_of:
  assumes "claims_ok cs P c xs" "i \<in> fst ` set xs"
  obtains ys n zs where "xs = ys @ (i, n) # zs" "0 < n" "claim_ok (cs i) P (c + claimed ys) n"
proof -
  from assms(2) obtain n where "(i, n) \<in> set xs" by auto
  then obtain ys zs where "xs = ys @ (i, n) # zs" by (meson split_list)
  with assms(1) show thesis using that by auto
qed

lemma threads_invE:
  assumes "threads_inv s C xs buf k"
  obtains "k < 64" "mq_buffer (mm_queue s) = Some buf" "2 ^ k \<le> length buf"
    "mq_capacity (mm_queue s) = 2 ^ k" "mq_mask (mm_queue s) = 2 ^ k - 1"
    "mq_commit_idx (mm_queue s) = of_nat C" "mq_head_idx (mm_queue s) = of_nat (C + claimed xs)"
    "mq_tail_idx (mm_queue s) = of_nat (length (mm_published s))"
    "C + claimed xs \<le> length (mm_published s)" "length (mm_published s) \<le> C + 2 ^ k"
    "distinct (map fst xs)" "\<And>i. i \<in> fst ` set xs \<longleftrightarrow> mm_consumers s i \<noteq> C_idle"
    "claims_ok (mm_consumers s) (mm_published s) C xs"
    "\<And>j. C \<le> j \<Longrightarrow> j < length (mm_published s) \<Longrightarrow> buf ! (j mod 2 ^ k) = mm_published s ! j"
    "producer_ok (mm_producer s) buf (2 ^ k) (length (mm_published s)) C"
    "concat (map snd (mm_taken s)) = take C (mm_published s)" "(2 :: nat) ^ k < 2 ^ 64"
proof -
  have "(2 :: nat) ^ k < 2 ^ 64" using assms
    by (intro power_strict_increasing) (auto simp: threads_inv_def Let_def)
  then show thesis using that assms by (simp add: threads_inv_def Let_def)
qed

lemma threads_distinct: "threads_inv s C xs buf k \<Longrightarrow> distinct (map fst xs)"
  by (rule threads_invE)

text \<open>The busy consumer of a claim sees enough data, reads the bytes of its claim, and commits only
  when its claim is the oldest.\<close>

lemma claim_avail:
  assumes inv: "threads_inv s C xs buf k" and c: "C \<le> c" "c + n \<le> length (mm_published s)"
  shows "spmc_avail (mm_queue s) (of_nat c) (of_nat n)"
proof -
  from inv have t: "mq_tail_idx (mm_queue s) = of_nat (length (mm_published s))"
    "length (mm_published s) \<le> C + 2 ^ k" "(2 :: nat) ^ k < 2 ^ 64" by (auto elim: threads_invE)
  from c t have "unat (of_nat (length (mm_published s)) - of_nat c :: size_t) = length (mm_published s) - c"
    by (intro unat_of_nat_diff) auto
  moreover have "unat (of_nat n :: size_t) = n" using c t by (simp add: unat_of_nat)
  ultimately show ?thesis using c(2) t(1) by (simp add: spmc_avail_def word_less_nat_alt)
qed

lemma claim_bytes:
  assumes inv: "threads_inv s C xs buf k" and c: "C \<le> c" "c + n \<le> length (mm_published s)"
  shows "ring_read buf (2 ^ k) c n = take n (drop c (mm_published s))"
proof (rule nth_equalityI)
  have P: "buf ! (j mod 2 ^ k) = mm_published s ! j" if "C \<le> j" "j < length (mm_published s)" for j
    using inv that by (auto elim: threads_invE)
  fix i assume "i < length (ring_read buf (2 ^ k) c n)"
  then show "ring_read buf (2 ^ k) c n ! i = take n (drop c (mm_published s)) ! i"
    using c P [of "c + i"] by (simp add: nth_ring_read)
qed (use c in simp)

lemma claim_load:
  assumes inv: "threads_inv s C xs buf k" and c: "C \<le> c" "c + n \<le> length (mm_published s)"
  shows "ring_load buf (mq_mask (mm_queue s)) (of_nat c) (replicate (unat (of_nat n :: size_t)) (CHR 0x00)) (of_nat n) =
         Some (take n (drop c (mm_published s)))"
proof -
  from inv have t: "k < 64" "2 ^ k \<le> length buf" "mq_mask (mm_queue s) = 2 ^ k - 1"
    "length (mm_published s) \<le> C + 2 ^ k" "(2 :: nat) ^ k < 2 ^ 64" by (auto elim: threads_invE)
  have n: "n \<le> 2 ^ k" using c t(4) by linarith
  have u: "unat (of_nat n :: size_t) = n" using n t(5) by (simp add: unat_of_nat)
  have "ring_read buf (2 ^ k) (unat (of_nat c :: size_t)) n = ring_read buf (2 ^ k) c n"
    using unat_of_nat_mod_cap [OF t(1)] by (intro ring_read_cong_pos)
  then show ?thesis using ring_load_eq [OF t(1,2), of "of_nat n" "of_nat c"] claim_bytes [OF inv c] u n t(3) c(2)
    by (simp add: memcpy_def)
qed

lemma claim_oldest:
  assumes inv: "threads_inv s C xs buf k" and xs: "xs = ys @ (i, n) # zs" "0 < n"
    and "mq_commit_idx (mm_queue s) = of_nat (C + claimed ys)"
  shows "ys = []"
proof -
  from inv have t: "mq_commit_idx (mm_queue s) = of_nat C" "C + claimed xs \<le> length (mm_published s)"
    "length (mm_published s) \<le> C + 2 ^ k" "(2 :: nat) ^ k < 2 ^ 64"
    "claims_ok (mm_consumers s) (mm_published s) C xs" by (auto elim: threads_invE)
  then have "(of_nat C :: size_t) = of_nat (C + claimed ys)" using assms(4) by simp
  then have "C = C + claimed ys" by (rule of_nat_word_inj) (use t xs in auto)
  then have "claimed ys = 0" by simp
  then show ?thesis using t(5) xs(1) by (cases ys) auto
qed

subsection \<open>Every step keeps the invariant\<close>

lemma spmc_admit_word:
  assumes "u \<le> 2 ^ k" "k < 64" "m \<le> (2 :: nat) ^ 64 - 1"
    and "unat (mq_tail_idx q - mq_commit_idx q) = u" "mq_capacity q = 2 ^ k"
  shows "spmc_admit q (of_nat m) \<longleftrightarrow> u + m \<le> 2 ^ k"
proof -
  have "unat (of_nat m :: size_t) = m" using assms(3) by (simp add: unat_of_nat)
  moreover have "unat (mq_tail_idx q - mq_commit_idx q) \<le> unat (mq_capacity q)"
    using assms by (simp add: unat_pow2)
  note free_less_iff [OF this, of "of_nat m"]
  ultimately show ?thesis using assms by (auto simp: spmc_admit_def Let_def unat_pow2)
qed

lemma admit_keeps:
  assumes inv: "threads_inv s C xs buf k" and st: "spmc_step s (Ev_admit d) s'"
  shows "threads_inv s' C xs buf k"
proof -
  from st have d: "length d < 2 ^ 64" "spmc_admit (mm_queue s) (of_nat (length d))"
    and s': "s' = s\<lparr>mm_producer := P_admitted d\<rparr>" by auto
  let ?T = "length (mm_published s)"
  from inv have t: "k < 64" "mq_capacity (mm_queue s) = 2 ^ k" "mq_commit_idx (mm_queue s) = of_nat C"
    "mq_tail_idx (mm_queue s) = of_nat ?T" "C \<le> ?T" "?T \<le> C + 2 ^ k" "(2 :: nat) ^ k < 2 ^ 64"
    by (auto elim: threads_invE)
  then have "unat (mq_tail_idx (mm_queue s) - mq_commit_idx (mm_queue s)) = ?T - C"
    using unat_of_nat_diff [of C ?T] by simp
  from spmc_admit_word [OF _ t(1) _ this t(2), of "length d"] d t have "?T - C + length d \<le> 2 ^ k"
    by auto
  with t have "?T + length d \<le> C + 2 ^ k" by linarith
  then show ?thesis using inv s' by (simp add: threads_inv_def Let_def)
qed

lemma store_keeps:
  assumes inv: "threads_inv s C xs buf k" and st: "spmc_step s Ev_store s'"
  shows "\<exists>buf'. threads_inv s' C xs buf' k"
proof -
  from inv have b: "mq_buffer (mm_queue s) = Some buf" "mq_mask (mm_queue s) = 2 ^ k - 1" "k < 64"
    "2 ^ k \<le> length buf" "mq_tail_idx (mm_queue s) = of_nat (length (mm_published s))"
    "length (mm_published s) \<le> C + 2 ^ k" "C \<le> length (mm_published s)"
    by (auto elim: threads_invE)
  from st b(1) obtain d buf' where d: "mm_producer s = P_admitted d"
    and buf': "ring_store buf (mq_mask (mm_queue s)) (mq_tail_idx (mm_queue s)) d = Some buf'"
    and s': "s' = s\<lparr>mm_queue := (mm_queue s)\<lparr>mq_buffer := Some buf'\<rparr>, mm_producer := P_stored d\<rparr>"
    by auto
  let ?T = "length (mm_published s)"
  from inv d have fit: "?T + length d \<le> C + 2 ^ k" by (auto elim: threads_invE)
  then have "length d \<le> 2 ^ k" using b(7) by linarith
  from ring_store_spec [OF b(3,4) this, of "mq_tail_idx (mm_queue s)"] buf' b
  have "stored_at buf buf' (2 ^ k) (unat (of_nat ?T :: size_t)) d" by simp
  then have at: "stored_at buf buf' (2 ^ k) ?T d"
    using stored_at_mod unat_of_nat_mod_cap [OF b(3)] by metis
  have old: "buf' ! (j mod 2 ^ k) = buf ! (j mod 2 ^ k)" if j: "C \<le> j" "j < ?T" for j
  proof -
    have "j mod 2 ^ k < length buf" using b(4) by (auto intro: less_le_trans [OF mod_less_divisor])
    moreover have "j mod 2 ^ k \<noteq> (?T + i) mod 2 ^ k" if i: "i < length d" for i
    proof
      assume eq: "j mod 2 ^ k = (?T + i) mod 2 ^ k"
      have "C + (j - C) = j" "C + (?T + i - C) = ?T + i" using j by linarith+
      then have "(C + (j - C)) mod 2 ^ k = (C + (?T + i - C)) mod 2 ^ k" using eq by simp
      moreover have "j - C < 2 ^ k" "?T + i - C < 2 ^ k" using j i fit by linarith+
      ultimately have "j - C = ?T + i - C" by (rule ring_index_inj)
      then show False using j i by linarith
    qed
    ultimately show ?thesis using at by (auto simp: stored_at_def)
  qed
  have "threads_inv s' C xs buf' k" using inv s' at old fit
    by (auto simp: threads_inv_def Let_def stored_at_def)
  then show ?thesis ..
qed

lemma publish_keeps:
  assumes inv: "threads_inv s C xs buf k" and st: "spmc_step s Ev_publish s'"
  shows "threads_inv s' C xs buf k"
proof -
  from st obtain d where d: "mm_producer s = P_stored d" and
    s': "s' = s\<lparr>mm_queue := spmc_publish (mm_queue s) (of_nat (length d)),
      mm_producer := P_idle, mm_published := mm_published s @ d\<rparr>" by auto
  let ?T = "length (mm_published s)"
  from inv have t: "C + claimed xs \<le> ?T" "claims_ok (mm_consumers s) (mm_published s) C xs"
    "\<And>j. C \<le> j \<Longrightarrow> j < ?T \<Longrightarrow> buf ! (j mod 2 ^ k) = mm_published s ! j"
    by (auto elim: threads_invE)
  from inv d have p: "?T + length d \<le> C + 2 ^ k" "\<And>i. i < length d \<Longrightarrow> buf ! ((?T + i) mod 2 ^ k) = d ! i"
    by (auto simp: threads_inv_def Let_def)
  have "buf ! (j mod 2 ^ k) = (mm_published s @ d) ! j" if "C \<le> j" "j < ?T + length d" for j
    using t(3) [of j] p(2) [of "j - ?T"] that by (cases "j < ?T") (auto simp: nth_append)
  then show ?thesis using inv s' t(1) p claims_ok_published [OF t(1,2)]
    by (auto simp: threads_inv_def Let_def spmc_publish_def)
qed

lemma ticket_keeps:
  assumes inv: "threads_inv s C xs buf k" and st: "spmc_step s (Ev_ticket i n) s'"
    and dis: "disciplined s (Ev_ticket i n)"
  shows "threads_inv s' C (xs @ [(i, unat n)]) buf k"
proof -
  from st have n: "n \<noteq> 0" "mm_consumers s i = C_idle"
    and s': "s' = s\<lparr>mm_queue := (mm_queue s)\<lparr>mq_head_idx := mq_head_idx (mm_queue s) + n\<rparr>,
      mm_consumers := (mm_consumers s)(i := C_ticket n (mq_head_idx (mm_queue s)))\<rparr>"
    by (auto simp: spmc_draw_ticket_def)
  let ?T = "length (mm_published s)"
  from inv have t: "mq_head_idx (mm_queue s) = of_nat (C + claimed xs)" "C + claimed xs \<le> ?T"
    "mq_tail_idx (mm_queue s) = of_nat ?T" "?T \<le> C + 2 ^ k" "(2 :: nat) ^ k < 2 ^ 64"
    "\<And>i. i \<in> fst ` set xs \<longleftrightarrow> mm_consumers s i \<noteq> C_idle" by (auto elim: threads_invE)
  have "unat (mq_tail_idx (mm_queue s) - mq_head_idx (mm_queue s)) = ?T - (C + claimed xs)"
    unfolding t(1,3) by (rule unat_of_nat_diff) (use t in auto)
  then have fit: "C + claimed xs + unat n \<le> ?T"
    using dis t(2) by (simp add: spmc_size_def word_le_nat_alt)
  have "i \<notin> fst ` set xs" using t(6) n(2) by blast
  moreover have "0 < unat n" using n(1) by (simp add: unat_gt_0)
  ultimately show ?thesis using inv s' fit t(1)
    by (auto simp: threads_inv_def Let_def add.assoc)
qed

text \<open>The consumer of a claim: where it is in the chain, and what replacing its program counter
  needs.\<close>

lemma busy_claim:
  assumes inv: "threads_inv s C xs buf k" and busy: "mm_consumers s i \<noteq> C_idle"
  obtains ys n zs where "xs = ys @ (i, n) # zs" "0 < n" "n < 2 ^ 64"
    "claim_ok (mm_consumers s i) (mm_published s) (C + claimed ys) n"
    "C + claimed ys + n \<le> length (mm_published s)"
proof -
  from inv have t: "claims_ok (mm_consumers s) (mm_published s) C xs" "i \<in> fst ` set xs"
    "C + claimed xs \<le> length (mm_published s)" "length (mm_published s) \<le> C + 2 ^ k" "(2 :: nat) ^ k < 2 ^ 64"
    using busy by (auto elim: threads_invE)
  from claim_of [OF t(1,2)] obtain ys n zs where xs: "xs = ys @ (i, n) # zs" "0 < n"
    "claim_ok (mm_consumers s i) (mm_published s) (C + claimed ys) n" .
  moreover from xs(1) t have "C + claimed ys + n \<le> length (mm_published s)" "n < 2 ^ 64" by auto
  ultimately show thesis using that by blast
qed

lemma advance_keeps:
  assumes inv: "threads_inv s C xs buf k" and xs: "xs = ys @ (i, n) # zs"
    and "claim_ok x (mm_published s) (C + claimed ys) n"
  shows "threads_inv (s\<lparr>mm_consumers := (mm_consumers s)(i := x)\<rparr>) C xs buf k"
proof -
  have "distinct (map fst (ys @ (i, n) # zs))" using threads_distinct [OF inv] xs by simp
  then have "i \<notin> fst ` set ys" "i \<notin> fst ` set zs" by auto
  moreover have "x \<noteq> C_idle" using assms(3) by auto
  ultimately show ?thesis using inv xs assms(3) by (auto simp: threads_inv_def Let_def)
qed

lemma check_keeps:
  assumes inv: "threads_inv s C xs buf k" and st: "spmc_step s (Ev_check i) s'"
  shows "threads_inv s' C xs buf k"
proof -
  from st obtain m t where c: "mm_consumers s i = C_ticket m t" and s': "s' = s\<lparr>mm_consumers :=
      (mm_consumers s)(i := if spmc_avail (mm_queue s) t m then C_avail m t else C_short m)\<rparr>" by auto
  have "mm_consumers s i \<noteq> C_idle" using c by simp
  from busy_claim [OF inv this] obtain ys n zs where xs: "xs = ys @ (i, n) # zs"
    "claim_ok (mm_consumers s i) (mm_published s) (C + claimed ys) n"
    "C + claimed ys + n \<le> length (mm_published s)" .
  then have "spmc_avail (mm_queue s) t m" using claim_avail [OF inv _ xs(3)] c by simp
  then show ?thesis using advance_keeps [OF inv xs(1), of "C_avail m t"] xs(2) c s' by simp
qed

lemma copy_keeps:
  assumes inv: "threads_inv s C xs buf k" and st: "spmc_step s (Ev_copy i) s'"
  shows "threads_inv s' C xs buf k"
proof -
  from inv have buf: "mq_buffer (mm_queue s) = Some buf" by (auto elim: threads_invE)
  from st buf obtain m t bs where c: "mm_consumers s i = C_avail m t"
    and bs: "ring_load buf (mq_mask (mm_queue s)) t (replicate (unat m) (CHR 0x00)) m = Some bs"
    and s': "s' = s\<lparr>mm_consumers := (mm_consumers s)(i := C_copied m t bs)\<rparr>" by auto
  have "mm_consumers s i \<noteq> C_idle" using c by simp
  from busy_claim [OF inv this] obtain ys n zs where xs: "xs = ys @ (i, n) # zs"
    "claim_ok (mm_consumers s i) (mm_published s) (C + claimed ys) n"
    "C + claimed ys + n \<le> length (mm_published s)" .
  then have "bs = take n (drop (C + claimed ys) (mm_published s))"
    using claim_load [OF inv _ xs(3)] c bs by simp
  then show ?thesis using advance_keeps [OF inv xs(1), of "C_copied m t bs"] xs(2) c s' by simp
qed

lemma rewind_never: "threads_inv s C xs buf k \<Longrightarrow> \<not> spmc_step s (Ev_rewind i) s'"
proof
  assume inv: "threads_inv s C xs buf k" and "spmc_step s (Ev_rewind i) s'"
  then obtain m where c: "mm_consumers s i = C_short m" by auto
  show False by (rule busy_claim [OF inv, of i]) (use c in auto)
qed

lemma producer_ok_mono: "producer_ok p buf cap T C \<Longrightarrow> C \<le> C' \<Longrightarrow> producer_ok p buf cap T C'"
  by (cases p) auto

lemma commit_keeps:
  assumes inv: "threads_inv s C xs buf k" and st: "spmc_step s (Ev_commit i) s'"
  shows "\<exists>n ys. xs = (i, n) # ys \<and> threads_inv s' (C + n) ys buf k"
proof -
  from st obtain m t bs where c: "mm_consumers s i = C_copied m t bs"
    and ct: "mq_commit_idx (mm_queue s) = t"
    and s': "s' = s\<lparr>mm_queue := (mm_queue s)\<lparr>mq_commit_idx := t + m\<rparr>,
      mm_consumers := (mm_consumers s)(i := C_idle), mm_taken := mm_taken s @ [(i, bs)]\<rparr>"
    by (auto simp: spmc_try_commit_def split: if_splits)
  have "mm_consumers s i \<noteq> C_idle" using c by simp
  from busy_claim [OF inv this] obtain ys n zs where xs: "xs = ys @ (i, n) # zs" "0 < n"
    "claim_ok (mm_consumers s i) (mm_published s) (C + claimed ys) n"
    "C + claimed ys + n \<le> length (mm_published s)" .
  then have "ys = []" using claim_oldest [OF inv xs(1,2)] c ct by simp
  with xs c have w: "xs = (i, n) # zs" "m = of_nat n" "t = of_nat C"
    "bs = take n (drop C (mm_published s))" by auto
  have "distinct (map fst ((i, n) # zs))" using threads_distinct [OF inv] w(1) by simp
  then have i: "i \<notin> fst ` set zs" by simp
  note p = producer_ok_mono [of _ _ _ _ C "C + n"]
  have "\<And>j. C + n \<le> j \<Longrightarrow> C \<le> j" by simp
  with inv w(1) i have "threads_inv s' (C + n) zs buf k"
    unfolding threads_inv_def Let_def s'
    by (auto simp: w(2-4) take_add add.assoc intro: p)
  then show ?thesis using w(1) by blast
qed

lemma step_keeps:
  assumes inv: "threads_inv s C xs buf k" and st: "spmc_step s e s'" and dis: "disciplined s e"
  shows "\<exists>C' xs' buf'. threads_inv s' C' xs' buf' k"
proof (cases e)
  case (Ev_ticket i n)
  from ticket_keeps [OF inv st [unfolded Ev_ticket] dis [unfolded Ev_ticket]] show ?thesis by blast
next
  case (Ev_rewind i)
  then show ?thesis using rewind_never [OF inv] st by metis
next
  case (Ev_commit i)
  then show ?thesis using commit_keeps [OF inv] st by metis
qed (use admit_keeps [OF inv] store_keeps [OF inv] publish_keeps [OF inv] check_keeps [OF inv]
       copy_keeps [OF inv] st in metis)+

lemma reach_inv:
  assumes "spmc_reach s0 s" "threads_inv s0 C0 xs0 buf0 k"
  shows "\<exists>C xs buf. threads_inv s C xs buf k"
  using assms
proof (induction rule: spmc_reach.induct)
  case start
  then show ?case by blast
next
  case (step s0 s1 e s2)
  then show ?case using step_keeps by blast
qed

text \<open>Progress: while a consumer is busy, the one with the oldest ticket can take a step.\<close>

fun consumer_event :: "spmc_event \<Rightarrow> bool" where
  "consumer_event (Ev_check i) = True"
| "consumer_event (Ev_copy i) = True"
| "consumer_event (Ev_commit i) = True"
| "consumer_event _ = False"

lemma oldest_steps:
  assumes inv: "threads_inv s C ((i, n) # zs) buf k"
  shows "\<exists>e s'. consumer_event e \<and> spmc_step s e s'"
proof -
  from inv have c: "claim_ok (mm_consumers s i) (mm_published s) C n" "C + n \<le> length (mm_published s)"
    "mq_buffer (mm_queue s) = Some buf" "mq_commit_idx (mm_queue s) = of_nat C"
    by (auto elim: threads_invE)
  show ?thesis
  proof (cases "mm_consumers s i")
    case (C_ticket m t)
    from spmc_step.check [OF this] show ?thesis by (intro exI conjI) auto
  next
    case (C_avail m t)
    with c(1) have "m = of_nat n" "t = of_nat C" by auto
    with spmc_step.copy [OF C_avail c(3)] claim_load [OF inv le_refl c(2)]
    have "spmc_step s (Ev_copy i) (s\<lparr>mm_consumers := (mm_consumers s)
        (i := C_copied m t (take n (drop C (mm_published s))))\<rparr>)" by auto
    then show ?thesis by (intro exI conjI) auto
  next
    case (C_copied m t bs)
    with c have "spmc_try_commit (mm_queue s) t m = Some ((mm_queue s)\<lparr>mq_commit_idx := t + m\<rparr>)"
      by (simp add: spmc_try_commit_def)
    from spmc_step.commit [OF C_copied this] show ?thesis by (intro exI conjI) auto
  qed (use c(1) in auto)
qed

lemma spmc_start_inv:
  assumes q: "spmc_inv q" and "mq_head_idx q = 0" "mq_tail_idx q = 0"
  shows "\<exists>buf k. threads_inv (spmc_start q) 0 [] buf k"
  using q by (rule spmc_invE) (use assms in \<open>auto simp: threads_inv_def spmc_start_def\<close>)

subsection \<open>The race on an empty queue\<close>

text \<open>
  Two consumers that ask an empty queue at the same time. The first ticket shows too little
  data, but the second lies beyond the tail, so that its difference to the tail wraps around.
\<close>

definition race_machine :: "spmc_queue \<Rightarrow> size_t \<Rightarrow> consumer_pc \<Rightarrow> consumer_pc \<Rightarrow> spmc_machine" where
  "race_machine q moved c0 c1 = (spmc_start q)\<lparr>mm_queue := q\<lparr>mq_head_idx := mq_head_idx q + moved\<rparr>,
     mm_consumers := (\<lambda>_. C_idle)(0 := c0, 1 := c1)\<rparr>"

lemma exec_one: "spmc_step s e s' \<Longrightarrow> spmc_exec s' es t \<Longrightarrow> spmc_exec s (e # es) t"
  by (rule spmc_exec.more)

lemma race_steps:
  assumes "mq_buffer q = Some buf" "n \<noteq> 0"
  shows "spmc_step (spmc_start q) (Ev_ticket 0 n) (race_machine q n (C_ticket n (mq_head_idx q)) C_idle)"
    "spmc_step (race_machine q n c0 C_idle) (Ev_ticket 1 n)
       (race_machine q (n + n) c0 (C_ticket n (mq_head_idx q + n)))"
    "\<not> spmc_avail q t n \<Longrightarrow> spmc_step (race_machine q m (C_ticket n t) c1) (Ev_check 0)
       (race_machine q m (C_short n) c1)"
    "spmc_avail q t n \<Longrightarrow> spmc_step (race_machine q m c0 (C_ticket n t)) (Ev_check 1)
       (race_machine q m c0 (C_avail n t))"
    "spmc_step (race_machine q (n + n) (C_short n) c1) (Ev_rewind 0) (race_machine q n C_idle c1)"
    "ring_load buf (mq_mask q) t (replicate (unat n) (CHR 0x00)) n = Some bs \<Longrightarrow>
       spmc_step (race_machine q m c0 (C_avail n t)) (Ev_copy 1) (race_machine q m c0 (C_copied n t bs))"
proof -
  have idle: "(\<lambda>_. C_idle)(0 := c, Suc 0 := C_idle) = (\<lambda>_. C_idle)(0 := c)" for c :: consumer_pc
    by (rule ext) simp
  show "spmc_step (spmc_start q) (Ev_ticket 0 n) (race_machine q n (C_ticket n (mq_head_idx q)) C_idle)"
    using spmc_step.ticket [of "spmc_start q" 0 n] assms
    by (simp add: race_machine_def spmc_start_def spmc_draw_ticket_def idle)
  show "spmc_step (race_machine q n c0 C_idle) (Ev_ticket 1 n)
       (race_machine q (n + n) c0 (C_ticket n (mq_head_idx q + n)))"
    using spmc_step.ticket [of "race_machine q n c0 C_idle" 1 n] assms
    by (simp add: race_machine_def spmc_start_def spmc_draw_ticket_def add.assoc)
  show "spmc_step (race_machine q m (C_ticket n t) c1) (Ev_check 0) (race_machine q m (C_short n) c1)"
    if "\<not> spmc_avail q t n"
    using spmc_step.check [of "race_machine q m (C_ticket n t) c1" 0 n t] that
    by (simp add: race_machine_def spmc_start_def spmc_avail_def fun_upd_twist)
  show "spmc_step (race_machine q m c0 (C_ticket n t)) (Ev_check 1) (race_machine q m c0 (C_avail n t))"
    if "spmc_avail q t n"
    using spmc_step.check [of "race_machine q m c0 (C_ticket n t)" 1 n t] that
    by (simp add: race_machine_def spmc_start_def spmc_avail_def)
  show "spmc_step (race_machine q (n + n) (C_short n) c1) (Ev_rewind 0) (race_machine q n C_idle c1)"
    using spmc_step.rewind [of "race_machine q (n + n) (C_short n) c1" 0 n]
    by (simp add: race_machine_def spmc_start_def spmc_rewind_def fun_upd_twist ac_simps)
  show "spmc_step (race_machine q m c0 (C_avail n t)) (Ev_copy 1) (race_machine q m c0 (C_copied n t bs))"
    if "ring_load buf (mq_mask q) t (replicate (unat n) (CHR 0x00)) n = Some bs"
    using spmc_step.copy [of "race_machine q m c0 (C_avail n t)" 1 n t buf bs] that assms
    by (simp add: race_machine_def spmc_start_def)
qed

lemma word_neg_not_less: "unat (n :: size_t) \<le> 2 ^ 63 \<Longrightarrow> \<not> - n < n"
  using unat_sub_if' [of 0 n] by (auto simp: word_less_nat_alt split: if_splits)

lemma empty_race_run:
  assumes inv: "spmc_inv q" and e: "spmc_contents q = []" and n: "n \<noteq> 0" "unat n \<le> spmc_cap q"
  obtains bs where "spmc_exec (spmc_start q)
      [Ev_ticket 0 n, Ev_ticket 1 n, Ev_check 0, Ev_check 1, Ev_rewind 0, Ev_copy 1]
      (race_machine q n C_idle (C_copied n (mq_head_idx q + n) bs))"
proof -
  from inv obtain buf k where b: "mq_buffer q = Some buf" "k < 64" "2 ^ k \<le> length buf"
    "mq_mask q = 2 ^ k - 1" "spmc_cap q = 2 ^ k" by (elim spmc_invE)
  have "unat (mq_tail_idx q - mq_head_idx q) = 0" using e spmc_length_contents [OF inv] by simp
  then have th: "mq_tail_idx q = mq_head_idx q" by (simp add: unat_eq_zero)
  have "unat n \<le> 2 ^ 63" using n(2) spmc_cap_bound [OF inv] by linarith
  then have av: "spmc_avail q (mq_head_idx q + n) n" using word_neg_not_less by (simp add: spmc_avail_def th)
  have sh: "\<not> spmc_avail q (mq_head_idx q) n" using n(1) by (simp add: spmc_avail_def th word_gt_0)
  obtain bs where ld: "ring_load buf (mq_mask q) (mq_head_idx q + n) (replicate (unat n) (CHR 0x00)) n = Some bs"
    using ring_load_eq [OF b(2,3), of n "mq_head_idx q + n" "replicate (unat n) (CHR 0x00)"] b n(2)
    by (simp add: memcpy_def)
  note st = race_steps [OF b(1) n(1)]
  show thesis
    by (rule that, (rule exec_one, rule st, (rule sh av ld)?)+) (rule spmc_exec.finish)
qed

subsection \<open>A machine that has moved two bytes halfway\<close>

definition fresh_spmc :: spmc_queue where
  "fresh_spmc = \<lparr>mq_buffer = Some ''----'', mq_capacity = 4, mq_mask = 3, mq_tail_idx = 0,
     mq_head_idx = 0, mq_commit_idx = 0, mq_allocation_size = 68\<rparr>"

definition busy_spmc :: spmc_machine where
  "busy_spmc = \<lparr>mm_queue = fresh_spmc\<lparr>mq_buffer := Some ''ab--'', mq_tail_idx := 2, mq_head_idx := 2\<rparr>,
     mm_producer = P_idle, mm_consumers = (\<lambda>_. C_idle)(7 := C_ticket 2 0),
     mm_published = ''ab'', mm_taken = []\<rparr>"

lemma fresh_spmc_inv: "spmc_inv fresh_spmc" "spmc_contents fresh_spmc = []" "spmc_cap fresh_spmc = 4"
  by (auto simp: spmc_inv_def spmc_contents_def spmc_cap_def fresh_spmc_def ring_capacity_def
      intro!: bexI [of _ 2])

lemma busy_spmc_reach: "spmc_reach (spmc_start fresh_spmc) busy_spmc"
proof -
  let ?s = "spmc_start fresh_spmc"
  have 1: "spmc_step ?s (Ev_admit ''ab'') (?s\<lparr>mm_producer := P_admitted ''ab''\<rparr>)" (is "spmc_step _ _ ?s1")
    by (rule spmc_step.admit) (simp_all add: spmc_start_def fresh_spmc_def spmc_admit_def)
  have 2: "spmc_step ?s1 Ev_store (?s1\<lparr>mm_queue := (mm_queue ?s1)\<lparr>mq_buffer := Some ''ab--''\<rparr>, mm_producer := P_stored ''ab''\<rparr>)"
    (is "spmc_step _ _ ?s2")
    by (rule spmc_step.store [where buf = "''----''"])
      (simp_all add: spmc_start_def fresh_spmc_def ring_store_def memcpy_def)
  have 3: "spmc_step ?s2 Ev_publish (?s2\<lparr>mm_queue := (mm_queue ?s2)\<lparr>mq_tail_idx := 2\<rparr>, mm_producer := P_idle,
      mm_published := ''ab''\<rparr>)" (is "spmc_step _ _ ?s3")
    using spmc_step.publish [of ?s2 "''ab''"] by (simp add: spmc_start_def fresh_spmc_def spmc_publish_def)
  have 4: "spmc_step ?s3 (Ev_ticket 7 2) busy_spmc"
    using spmc_step.ticket [of ?s3 7 2] by (simp add: busy_spmc_def spmc_start_def fresh_spmc_def spmc_draw_ticket_def)
  have d: "disciplined ?s3 (Ev_ticket 7 2)" by (simp add: spmc_size_def spmc_start_def fresh_spmc_def)
  have "spmc_reach ?s ?s1" by (rule spmc_reach.step [OF spmc_reach.start _ 1]) simp
  then have "spmc_reach ?s ?s2" by (rule spmc_reach.step [OF _ _ 2]) simp
  then have "spmc_reach ?s ?s3" by (rule spmc_reach.step [OF _ _ 3]) simp
  then show ?thesis by (rule spmc_reach.step [OF _ d 4])
qed

subsection \<open>Properties\<close>



text \<open>C18: with one producer and any number of consumers interleaved at their atomic accesses, as
  long as a ticket is drawn only for bytes that are already published, the blocks handed out, in
  the order of their commits, are a prefix of the bytes published, so that no byte is lost,
  duplicated, torn or overwritten while it is read; and as long as a consumer is inside its call,
  some consumer can take a step, so that the wait on the commit index does not deadlock.\<close>

theorem spmc_threads_deliver:
  assumes "spmc_inv q" and "mq_head_idx q = 0" and "mq_tail_idx q = 0"
    and "spmc_reach (spmc_start q) s"
  shows "(\<exists>rest. mm_published s = concat (map snd (mm_taken s)) @ rest) \<and>
         (mm_consumers s i \<noteq> C_idle \<longrightarrow> (\<exists>e s'. consumer_event e \<and> spmc_step s e s'))"
proof -
  obtain buf0 k where "threads_inv (spmc_start q) 0 [] buf0 k"
    using spmc_start_inv [OF assms(1-3)] by blast
  from reach_inv [OF assms(4) this] obtain C xs buf where inv: "threads_inv s C xs buf k" by blast
  then have "concat (map snd (mm_taken s)) = take C (mm_published s)" by (auto elim: threads_invE)
  then have "mm_published s = concat (map snd (mm_taken s)) @ drop C (mm_published s)" by simp
  moreover have "\<exists>e s'. consumer_event e \<and> spmc_step s e s'" if busy: "mm_consumers s i \<noteq> C_idle"
  proof -
    from inv busy have "i \<in> fst ` set xs" by (auto elim: threads_invE)
    then obtain j n zs where "xs = (j, n) # zs" by (cases xs) auto
    then show ?thesis using oldest_steps inv by blast
  qed
  ultimately show ?thesis by blast
qed

theorem spmc_threads_deliver_witness:
  "(\<exists>rest. mm_published busy_spmc = concat (map snd (mm_taken busy_spmc)) @ rest) \<and>
   (\<exists>e s'. consumer_event e \<and> spmc_step busy_spmc e s')"
  using spmc_threads_deliver [OF fresh_spmc_inv(1) _ _ busy_spmc_reach, of 7]
  by (simp add: fresh_spmc_def) (simp add: busy_spmc_def)

text \<open>C19: without that discipline the queue is not safe. Two consumers that ask an empty queue
  for \<open>n\<close> bytes at the same time can interleave so that the second copies \<open>n\<close> bytes although
  nothing was ever published; its commit then waits for an index the queue does not reach, and
  after a block of \<open>n\<close> bytes is enqueued a further request for \<open>n\<close> bytes still gets underflow.\<close>

theorem spmc_empty_race:
  assumes "spmc_inv q" and "spmc_contents q = []" and "n \<noteq> 0" and "unat n \<le> spmc_cap q"
    and "length d = unat n"
  shows "\<exists>es s bs. spmc_exec (spmc_start q) es s \<and> mm_published s = [] \<and>
           mm_consumers s 1 = C_copied n (mq_head_idx q + n) bs \<and>
           \<not> (\<exists>s'. spmc_step s (Ev_commit 1) s') \<and>
           (\<exists>q'. spmc_enqueue_bytes (mm_queue s) d = Some (Spmc_kOk, q') \<and>
              spmc_dequeue_bytes q' dst n = Some (Spmc_kUnderflow, q', dst))"
proof -
  from empty_race_run [OF assms(1-4)] obtain bs where run: "spmc_exec (spmc_start q)
      [Ev_ticket 0 n, Ev_ticket 1 n, Ev_check 0, Ev_check 1, Ev_rewind 0, Ev_copy 1]
      (race_machine q n C_idle (C_copied n (mq_head_idx q + n) bs))" (is "spmc_exec _ _ ?s") .
  have "unat n \<noteq> 0" using assms(3) by (simp add: unat_eq_zero)
  then have d: "d \<noteq> []" "length (spmc_contents q) + length d \<le> spmc_cap q" using assms by auto
  from assms(1) obtain buf where b: "mq_buffer q = Some buf" and c: "mq_commit_idx q = mq_head_idx q"
    by (elim spmc_invE)
  from assms(1,2) have th: "mq_tail_idx q = mq_head_idx q"
    using spmc_length_contents [of q] by (simp add: unat_eq_zero)
  have n: "of_nat (length d) = n" using assms(5) by simp
  have q: "mm_queue ?s = q\<lparr>mq_head_idx := mq_head_idx q + n\<rparr>" by (simp add: race_machine_def)
  from spmc_enqueue_fits [OF assms(1) d] obtain q1 where "spmc_enqueue_bytes q d = Some (Spmc_kOk, q1)" by blast
  then obtain buf' where "ring_store buf (mq_mask q) (mq_tail_idx q) d = Some buf'" "spmc_admit q n"
    using b n assms(3) by (auto simp: spmc_enqueue_bytes_def Let_def split: if_splits bind_splits)
  then have enq: "spmc_enqueue_bytes (mm_queue ?s) d =
      Some (Spmc_kOk, spmc_publish ((mm_queue ?s)\<lparr>mq_buffer := Some buf'\<rparr>) n)"
    using b n assms(3) by (simp add: q spmc_enqueue_bytes_def spmc_admit_def)
  have stuck: "\<not> (\<exists>s'. spmc_step ?s (Ev_commit 1) s')"
    using assms(3) c by (auto simp: race_machine_def spmc_start_def spmc_try_commit_def)
  obtain q' where q': "q' = spmc_publish ((mm_queue ?s)\<lparr>mq_buffer := Some buf'\<rparr>) n" by blast
  then have deq: "spmc_dequeue_bytes q' dst n = Some (Spmc_kUnderflow, q', dst)"
    using assms(3) th
    by (simp add: q spmc_dequeue_bytes_def spmc_publish_def spmc_draw_ticket_def spmc_avail_def
          spmc_rewind_def word_gt_0)
  have pc: "mm_published ?s = []" "mm_consumers ?s 1 = C_copied n (mq_head_idx q + n) bs"
    by (simp_all add: race_machine_def spmc_start_def)
  show ?thesis
    by (rule exI, rule exI [of _ ?s], rule exI [of _ bs], intro conjI, rule run, rule pc, rule pc,
        rule stuck, rule exI [of _ q'], intro conjI) (simp_all only: enq q' deq [unfolded q'])
qed

theorem spmc_empty_race_witness:
  "\<exists>es s bs. spmc_exec (spmc_start fresh_spmc) es s \<and> mm_published s = [] \<and>
     mm_consumers s 1 = C_copied 2 2 bs \<and> \<not> (\<exists>s'. spmc_step s (Ev_commit 1) s') \<and>
     (\<exists>q'. spmc_enqueue_bytes (mm_queue s) ''ab'' = Some (Spmc_kOk, q') \<and>
        spmc_dequeue_bytes q' ''--'' 2 = Some (Spmc_kUnderflow, q', ''--''))"
  using spmc_empty_race [OF fresh_spmc_inv(1,2), of 2 "''ab''" "''--''"]
  by (simp add: fresh_spmc_inv(3)) (simp add: fresh_spmc_def)

end
