(* ===== verification/Spec2Isabelle.thy ===== *)
theory Spec2Isabelle
  imports Unit_Tests Spsc_Threads Spsc_Tso Spmc_Threads
begin

text \<open>
  \<^bold>\<open>femtolog, a low-latency logger: a verified model.\<close>

  \<^bold>\<open>The program.\<close> A thread that logs owns a \<^verbatim>\<open>Logger\<close>, a front for \<^verbatim>\<open>InternalLogger\<close>. A call
  \<^verbatim>\<open>logger.info<"...">(args...)\<close> compares the level, turns the format string into a 16-bit
  identifier (\<^verbatim>\<open>StringRegistry\<close>), serialises the arguments into bytes, puts a \<^verbatim>\<open>LogEntry\<close>
  header in front of them and enqueues the record in a ring of bytes (\<^verbatim>\<open>SpscQueue\<close>). One
  \<^verbatim>\<open>BackendWorker\<close> thread per logger polls the queue, decodes and formats the record and hands
  the text to its sinks (stdout, file, JSON lines, none), which buffer and write it. \<^verbatim>\<open>flush\<close> and
  \<^verbatim>\<open>stop\<close> synchronise the two threads through atomic counters and flags. Paths, files, strings,
  allocation, stack traces and crash handlers live under \<^verbatim>\<open>src/src/core/\<close>; a multi-consumer
  queue (\<^verbatim>\<open>SpmcQueue\<close>) is part of the library beside the logger.

  \<^bold>\<open>Theories.\<close> In the order of the code, each importing what its code calls:

  \<^item> \<^theory_text>\<open>Prelude\<close>: bytes, words, blocks of memory with checked \<^verbatim>\<open>memcpy\<close>, little-endian scalars.
  \<^item> \<^theory_text>\<open>Ring_Buffer\<close>: the copies in and out of a power-of-two ring that both queues do, single and
    in bulk, with 64-bit indices that run freely and wrap. \<^theory_text>\<open>Memory_Util\<close>: aligned allocation
    (\<^verbatim>\<open>core/base/memory_util.h\<close>); the C library's \<^verbatim>\<open>posix_memalign\<close> is a parameter with its contract.
  \<^item> \<^theory_text>\<open>Byte_Queue\<close>: the locale \<open>byte_queue\<close>, the bounded FIFO of bytes that a queue promises, with
    the lemmas about sequences of calls that follow from it. \<^theory_text>\<open>Spsc_Queue\<close> and
    \<^theory_text>\<open>Spmc_Queue\<close>: the two queues (\<^verbatim>\<open>logging/impl/spsc_queue.cc\<close>, \<^verbatim>\<open>spmc_queue.cc\<close>) as records
    of their indices, cached indices and storage, one definition per member function; both
    interpret the locale. \<^theory_text>\<open>Spsc_Threads\<close> and \<^theory_text>\<open>Spmc_Threads\<close>: the same queues as step relations of
    their threads in which each atomic access is a step of its own; \<^theory_text>\<open>Spsc_Tso\<close>: the first one
    on a memory with store buffers. \<^theory_text>\<open>Queue_Storage\<close>: the memory
    behind the queues on a heap of addresses, with its owner (\<^verbatim>\<open>buffer_deleter_\<close>); the locale
    \<open>block_queue\<close> says what it takes for a queue to live on such a heap, and both queues interpret it.
  \<^item> \<^theory_text>\<open>Log_Level\<close>, \<^theory_text>\<open>Log_Entry\<close>, \<^theory_text>\<open>String_Registry\<close>, \<^theory_text>\<open>Options\<close>: the headers under
    \<^verbatim>\<open>include/femtolog/base/\<close> and \<^verbatim>\<open>options.h\<close>.
  \<^item> \<^theory_text>\<open>Args_Codec\<close>: \<^verbatim>\<open>serialize_util.h\<close>, \<^verbatim>\<open>args_serializer.h\<close>, \<^verbatim>\<open>args_deserializer.h\<close> and
    \<^verbatim>\<open>format_util.h\<close>. The types the templates branch on are the datatype \<open>cxx_type\<close>; the traits are
    functions on it.
  \<^item> \<^theory_text>\<open>Sink_Interface\<close>: the locale \<open>log_sink\<close>, what the worker relies on of a sink.
    \<^theory_text>\<open>Backend_Worker\<close>: the worker (\<^verbatim>\<open>backend_worker.cc\<close>) as a function that performs one step at
    its current program point, its back-off, flush and stop. \<^theory_text>\<open>Internal_Logger\<close>: the producer
    side (\<^verbatim>\<open>internal_logger.h\<close>, \<^verbatim>\<open>internal_logger.cc\<close>, \<^verbatim>\<open>logger.h\<close>).
  \<^item> \<^theory_text>\<open>Sinks\<close>: the four sinks under \<^verbatim>\<open>include/femtolog/sinks/\<close> with their buffers; interprets
    \<open>log_sink\<close>. \<^theory_text>\<open>Sink_Files\<close>: how the file sinks archive an old log and open a new one.
  \<^item> \<^theory_text>\<open>System\<close>: one logger and its worker under every schedule of calls and worker steps.
    \<^theory_text>\<open>Sink_Disk\<close>: the same with sinks that write files, from the call to the bytes in the file; a
    sink with its file interprets \<open>log_sink\<close> again.
  \<^item> \<^theory_text>\<open>String_Util\<close>, \<^theory_text>\<open>File_Path\<close>, \<^theory_text>\<open>File_Ops\<close>: \<^verbatim>\<open>core/base/string_util.cc\<close> and \<^verbatim>\<open>file_util.cc\<close>, the
    latter split into what is pure and what calls the operating system; those calls are the
    record \<open>os\<close>, the same for every theorem, and \<open>mem_os\<close> is an instance in memory.
  \<^item> \<^theory_text>\<open>Stack_Trace\<close>, \<^theory_text>\<open>Crash_Handlers\<close>: \<^verbatim>\<open>core/diagnostics/\<close> and \<^verbatim>\<open>core/check.cc\<close>; of the two builds of
    \<^verbatim>\<open>collect_stack_trace\<close> the one with \<^verbatim>\<open>execinfo\<close> is the default and the one the theorems on text are about.
    \<^theory_text>\<open>Process_Exit\<close>: how a fatal call ends the process, and what it leaves in the files of loggers in
    static and automatic storage (\<^verbatim>\<open>logger.h\<close>, \<^verbatim>\<open>femtolog/logger.cc\<close>).
  \<^item> \<^theory_text>\<open>Build_Flag\<close>: the configuration headers under \<^verbatim>\<open>include/femtolog/build/\<close>, as a function of the macros
    the compiler predefines.
  \<^item> \<^theory_text>\<open>Unit_Tests\<close>: the expectations of the repository's unit tests for strings, files, queues and the
    codec, evaluated on the model.

  \<^bold>\<open>State and undefined behaviour.\<close> State is a record per class, returned updated. An access outside
  a block, a read of a string that is not terminated, or a step the standard leaves undefined is
  the value \<open>None\<close>; so every theorem that concludes \<open>Some\<close> is also a proof of memory safety, and
  the theorems of kind error show inputs at which the code as written has no defined result.
  Errors the code reports itself are the constructors of its status enumerations.

  \<^bold>\<open>What is proved.\<close> Of the queues: each operation refines the bounded FIFO on every branch, over
  any index including wrap-around; for the single-consumer queue every interleaving of the two threads is
  equivalent to a sequential run of their calls on the FIFO, free of races on the bytes and
  wait-free, and on a processor with store buffers no byte is lost, repeated or read too early;
  interleaved consumers of the other queue deliver a prefix of what was published
  as long as they draw tickets only for published bytes, and a schedule where they do not. Of
  the codec: round trips by value and by reference, capacity, and that only values of the
  declared types come back. Of the logger: the effect of every call; for every schedule each sink
  has produced a prefix of the accepted messages, everything accepted when \<^verbatim>\<open>flush\<close> or \<^verbatim>\<open>stop\<close>
  returns, and both do return; with file sinks on a file system that takes every buffer whole, each
  file holds what it held before and the rendering of the accepted messages, and a fatal call
  delivers before it ends the process. Of the sinks: buffering does not change the
  stream of bytes, and what a file lacks is what \<^verbatim>\<open>write\<close> did not take. Of the queues' memory: every
  block is released once and nothing else is touched. Of the configuration: the flags of every
  accepted build are coherent. Of the utilities: round trips, equivalence of the vectorised line splitter
  with the scalar one, termination of the file loops with a bound on the number of system calls
  whatever the system answers, fresh archive names, and the text of stack traces.

  \<^bold>\<open>Loops.\<close> A loop that ends for a reason in the code is a function with its measure. Four need not
  end and are partial functions whose value is then \<open>None\<close>: the wait of \<^verbatim>\<open>flush\<close>
  (\<open>flush_impl\<close>), running the worker until its thread ends (\<open>worker_until\<close>), the search for an
  archive name, and the loop of \<^verbatim>\<open>compress\<close>. That they end is proved for each where it holds:
  for a logger in service with its worker running, when some name is free, and when the source
  is a finite stream. No theorem depends on a fuel.

  \<^bold>\<open>Assumptions.\<close> The configuration is a release build for 64-bit Linux
  (\<open>linux_release_configuration\<close> of \<^theory_text>\<open>Build_Flag\<close>): \<^verbatim>\<open>size_t\<close> has 64 bits,
  \<^verbatim>\<open>FEMTOLOG_DCHECK\<close> is empty, separators are those of Unix, scalars are little-endian. Where
  \<^theory_text>\<open>Crash_Handlers\<close> depends on the build it is a parameter. Memory is
  sequentially consistent except in \<^theory_text>\<open>Spsc_Tso\<close>, which has the total store order of x86. In \<^theory_text>\<open>System\<close> one queue operation is one atomic step, which the
  linearizability shown in \<^theory_text>\<open>Spsc_Threads\<close> justifies. What the fmt library prints, the clock, \<^verbatim>\<open>isatty\<close>, the
  operating system, zlib, \<^verbatim>\<open>dladdr\<close>, \<^verbatim>\<open>backtrace\<close> and the demangler are arguments of the definitions that
  use them, and what a theorem needs of them is a hypothesis with a witness that instantiates it.
  Messages to \<^verbatim>\<open>std::cerr\<close> outside the failing checks are left out.

  \<^bold>\<open>Not modelled.\<close> The branches for Windows and macOS; pinning the worker to a processor, which changes
  no result; memory weaker than that (whether the orders in the code suffice on ARM, or for the
  multi-consumer queue beyond sequential consistency, is open); handlers that run inside another computation; several loggers on
  one file, whose descriptors outlive its name; the umbrella header, build scripts, benchmarks and the
  tests with mock sinks, which hold no logic of the library.
\<close>

end
